(* ===== verification/Ringio_Prelude.thy ===== *)
theory Ringio_Prelude
  imports Main "HOL-Library.Word"
begin

text \<open>
  Shared ground of the development: the machine integer types of an LP64 target, the
  arithmetic of power-of-two masks and of wrapping 64-bit cursors, reachability of
  step relations with its invariant rule, and the automation collections that the
  component theories extend.
\<close>

unbundle bit_operations_syntax

section \<open>Machine integers of the LP64 target\<close>

type_synonym u8 = "8 word"
type_synonym u32 = "32 word"
type_synonym u64 = "64 word"
type_synonym i32 = "32 word"
type_synonym size_t = "64 word"
type_synonym addr = "64 word"

text \<open>Automation collections: \<open>word_nat\<close> moves word facts to natural numbers,
  \<open>ring_inv\<close> unfolds the invariants of the queues, \<open>step_simps\<close> unfolds the thread
  bookkeeping of the concurrent models.\<close>

named_theorems word_nat
named_theorems ring_inv
named_theorems step_simps

section \<open>Power-of-two capacities and masks\<close>

text \<open>The compile-time check both rings make of their capacity:
  \<open>(Capacity & (Capacity - 1)) == 0\<close>.\<close>

definition capacity_assert :: "size_t \<Rightarrow> bool" where
  "capacity_assert cap \<longleftrightarrow> cap AND (cap - 1) = 0"

text \<open>What the message of the check calls a power of two; it excludes 0.\<close>

definition pow2_cap :: "size_t \<Rightarrow> bool" where
  "pow2_cap cap \<longleftrightarrow> cap \<noteq> 0 \<and> capacity_assert cap"

definition kMask :: "size_t \<Rightarrow> size_t" where
  "kMask cap = cap - 1"

lemma and_pred_0_pow2_nat:
  fixes n :: nat
  assumes "0 < n" and "n AND (n - 1) = 0"
  shows "\<exists>k. n = 2 ^ k"
  using assms
proof (induction n rule: less_induct)
  case (less n)
  show ?case
  proof (cases "even n")
    case True
    then obtain m where n: "n = 2 * m" by (elim evenE)
    with less.prems have m: "0 < m" by simp
    have "odd (n - 1)" and "(n - 1) div 2 = m - 1"
      using n m by presburger+
    moreover have "n AND (n - 1) = of_bool (odd n \<and> odd (n - 1)) + 2 * ((n div 2) AND ((n - 1) div 2))"
      by (rule and_rec)
    ultimately have "n AND (n - 1) = 2 * (m AND (m - 1))"
      using n by simp
    with less.prems have "m AND (m - 1) = 0" by simp
    with less.IH [of m] m n obtain k where "m = 2 ^ k" by auto
    then have "n = 2 ^ Suc k" using n by simp
    then show ?thesis by blast
  next
    case False
    then obtain m where n: "n = 2 * m + 1" by (elim oddE)
    moreover have "n AND (n - 1) = of_bool (odd n \<and> odd (n - 1)) + 2 * ((n div 2) AND ((n - 1) div 2))"
      by (rule and_rec)
    ultimately have "n AND (n - 1) = 2 * m" by simp
    with less.prems n have "n = 2 ^ 0" by simp
    then show ?thesis by blast
  qed
qed

lemma unat_minus_one_nz: "w \<noteq> 0 \<Longrightarrow> unat (w - 1) = unat w - 1"
  by (rule unat_minus_one)

lemma pow2_capE:
  assumes "pow2_cap cap"
  obtains k where "k < 64" and "unat cap = 2 ^ k"
proof -
  from assms have nz: "cap \<noteq> 0" and a: "cap AND (cap - 1) = 0"
    by (simp_all add: pow2_cap_def capacity_assert_def)
  have "unat cap AND (unat cap - 1) = unat (cap AND (cap - 1))"
    using nz by (simp add: unsigned_and_eq unat_minus_one_nz)
  with a have "unat cap AND (unat cap - 1) = 0" by simp
  moreover have "0 < unat cap" using nz by (simp add: unat_gt_0)
  ultimately obtain k where k: "unat cap = 2 ^ k"
    using and_pred_0_pow2_nat by blast
  have "unat cap < 2 ^ 64" using unsigned_less [of cap] by simp
  with k have "k < 64" by (metis power_less_imp_less_exp one_less_numeral_iff semiring_norm(76))
  with k that show thesis by blast
qed

lemma pow2_cap_pos: "pow2_cap cap \<Longrightarrow> 0 < unat cap"
  by (simp add: pow2_cap_def unat_gt_0)

lemma unat_and_kMask:
  assumes "pow2_cap cap"
  shows "unat (w AND kMask cap) = unat w mod unat cap"
proof -
  from assms obtain k where k: "k < 64" "unat cap = 2 ^ k" by (rule pow2_capE)
  from k have "cap = 2 ^ k"
    by (metis of_nat_numeral of_nat_power of_nat_unat ucast_id)
  then have "kMask cap = mask k"
    by (simp add: kMask_def mask_eq_exp_minus_1)
  then have "w AND kMask cap = take_bit k w"
    by (simp add: take_bit_eq_mask)
  then have "unat (w AND kMask cap) = take_bit k (unat w)"
    by (simp add: unsigned_take_bit_eq)
  with k show ?thesis by (simp add: take_bit_eq_mod)
qed

lemma pow2_cap_dvd: "pow2_cap cap \<Longrightarrow> unat cap dvd 2 ^ 64"
  by (elim pow2_capE) (simp only: le_imp_power_dvd less_imp_le)

lemma unat_of_nat_64_mod:
  assumes "pow2_cap cap"
  shows "unat (of_nat n :: size_t) mod unat cap = n mod unat cap"
  using pow2_cap_dvd [OF assms] by (simp add: unat_of_nat mod_mod_cancel)

lemma kMask_index [word_nat]:
  assumes "pow2_cap cap"
  shows "unat ((of_nat n :: size_t) AND kMask cap) = n mod unat cap"
  using assms by (simp add: unat_and_kMask unat_of_nat_64_mod)

lemma kMask_bound: "pow2_cap cap \<Longrightarrow> unat (w AND kMask cap) < unat cap"
  by (simp add: unat_and_kMask pow2_cap_pos)

text \<open>Distance of two wrapping cursors: exact as long as the real distance fits.\<close>

lemma unat_cursor_diff [word_nat]:
  assumes "h \<le> t" and "t - h < 2 ^ 64"
  shows "unat ((of_nat t :: size_t) - of_nat h) = t - h"
proof -
  have "(of_nat t :: size_t) - of_nat h = of_nat (t - h)"
    using assms(1) by (simp add: of_nat_diff)
  with assms(2) show ?thesis by (simp add: unat_of_nat)
qed

lemma of_nat_cursor_eq:
  assumes "h \<le> t" and "t - h < 2 ^ 64"
  shows "(of_nat t :: size_t) = of_nat h \<longleftrightarrow> t = h"
  using unat_cursor_diff [OF assms] assms(1) by auto

lemma unat_lt_64: "unat (w :: size_t) < 2 ^ 64"
  using unsigned_less [of w] by simp

section \<open>Spurious failures of a weak exchange\<close>

text \<open>\<open>compare_exchange_weak\<close> may fail although the compared value is the current one. A list
  of booleans decides which attempts of a call do so; once it is used up the exchange fails only
  on a changed value.\<close>

definition spurious :: "bool list \<Rightarrow> bool" where
  "spurious ws \<longleftrightarrow> ws \<noteq> [] \<and> hd ws"

lemma spurious_Nil [simp]: "\<not> spurious []"
  by (simp add: spurious_def)

section \<open>Residues inside a window\<close>

text \<open>Two tickets less than one capacity apart never share a slot.\<close>

lemma mod_window_inj:
  fixes a b c :: nat
  assumes "a mod c = b mod c" and "a \<le> b" and "b < a + c"
  shows "a = b"
proof -
  from assms(1,2) have "c dvd b - a" by (metis mod_eq_dvd_iff_nat)
  with assms(2,3) show ?thesis by (auto dest: dvd_imp_le)
qed

lemma mod_window_neq:
  fixes a b c :: nat
  assumes "a < b" and "b < a + c"
  shows "b mod c \<noteq> a mod c"
  using assms mod_window_inj [of a c b] by (metis less_irrefl less_imp_le)

section \<open>Lists and options\<close>

lemma nth_list_update_mod:
  "j < length xs \<Longrightarrow> xs[i := x] ! j = (if i = j then x else xs ! j)"
  by (simp add: nth_list_update)

lemma map_upt_0_Cons:
  assumes "0 < n"
  shows "map f [0..<n] = f 0 # map (\<lambda>i. f (Suc i)) [0..<n - 1]"
proof -
  from assms obtain m where "n = Suc m" using gr0_conv_Suc by blast
  then show ?thesis by (simp only: map_upt_Suc diff_Suc_1)
qed

section \<open>Reachability and invariants of step relations\<close>

inductive reach :: "('s \<Rightarrow> bool) \<Rightarrow> ('s \<Rightarrow> 's \<Rightarrow> bool) \<Rightarrow> 's \<Rightarrow> bool"
  for start :: "'s \<Rightarrow> bool" and step :: "'s \<Rightarrow> 's \<Rightarrow> bool" where
  reach_start: "start s \<Longrightarrow> reach start step s"
| reach_step: "reach start step s \<Longrightarrow> step s t \<Longrightarrow> reach start step t"

text \<open>The contract of an inductive invariant. Every concurrent model instantiates it,
  and \<open>reach_inv\<close> is the fact its safety theorems rest on.\<close>

locale inductive_invariant =
  fixes start :: "'s \<Rightarrow> bool" and step :: "'s \<Rightarrow> 's \<Rightarrow> bool" and inv :: "'s \<Rightarrow> bool"
  assumes start_inv: "start s \<Longrightarrow> inv s"
    and step_inv: "inv s \<Longrightarrow> step s t \<Longrightarrow> inv t"
begin

lemma reach_inv: "reach start step s \<Longrightarrow> inv s"
  by (induction rule: reach.induct) (auto intro: start_inv step_inv)

end

text \<open>Forward simulation: every concrete step is matched by an abstract step or by none,
  so what is reachable concretely is, through the abstraction, reachable abstractly.\<close>

locale forward_simulation = inductive_invariant +
  fixes abs :: "'s \<Rightarrow> 'a" and astart :: "'a \<Rightarrow> bool" and astep :: "'a \<Rightarrow> 'a \<Rightarrow> bool"
  assumes abs_start: "start s \<Longrightarrow> astart (abs s)"
    and abs_step: "inv s \<Longrightarrow> step s t \<Longrightarrow> abs t = abs s \<or> astep (abs s) (abs t)"
begin

lemma reach_abs: "reach start step s \<Longrightarrow> reach astart astep (abs s)"
proof (induction rule: reach.induct)
  case (reach_start s)
  then show ?case by (intro reach.reach_start abs_start)
next
  case (reach_step s t)
  from reach_step.hyps(1) have "inv s" by (rule reach_inv)
  then have "abs t = abs s \<or> astep (abs s) (abs t)"
    using reach_step.hyps(2) by (rule abs_step)
  with reach_step.IH show ?case by (auto intro: reach.reach_step)
qed

end

end
