(* ===== verification/Bounded_Queue.thy ===== *)
theory Bounded_Queue
  imports Ringio_Prelude
begin

text \<open>
  The contract under which \<open>SqpollEngine\<close> uses a queue (its template parameters
  \<open>Queue\<close> and \<open>CompletionQueue\<close>): any type with \<open>bool try_pop(T&)\<close> or
  \<open>bool try_push(const T&)\<close>. A call is a partial function: \<open>None\<close> is a call that
  yields no defined result (it loops for ever or is undefined behaviour). \<open>items\<close> is
  the abstract content, oldest first; \<open>can_issue q n\<close> says that \<open>n\<close> more
  successful pushes stay inside the range of the queue's counters.
\<close>

locale queue_source =
  fixes try_pop :: "'q \<Rightarrow> ('a option \<times> 'q) option"
    and items :: "'q \<Rightarrow> 'a list"
    and inv :: "'q \<Rightarrow> bool"
    and can_issue :: "'q \<Rightarrow> nat \<Rightarrow> bool"
  assumes pop_empty: "inv q \<Longrightarrow> items q = [] \<Longrightarrow> try_pop q = Some (None, q)"
    and pop_item: "inv q \<Longrightarrow> items q = x # xs \<Longrightarrow>
      \<exists>q'. try_pop q = Some (Some x, q') \<and> inv q' \<and> items q' = xs \<and>
           (\<forall>n. can_issue q n \<longrightarrow> can_issue q' n)"

locale queue_sink =
  fixes try_push :: "'q \<Rightarrow> 'a \<Rightarrow> (bool \<times> 'q) option"
    and items :: "'q \<Rightarrow> 'a list"
    and inv :: "'q \<Rightarrow> bool"
    and can_issue :: "'q \<Rightarrow> nat \<Rightarrow> bool"
    and limit :: nat
  assumes items_limit: "inv q \<Longrightarrow> length (items q) \<le> limit"
    and issue_mono: "can_issue q (Suc n) \<Longrightarrow> can_issue q n"
    and push_full: "inv q \<Longrightarrow> length (items q) = limit \<Longrightarrow> try_push q x = Some (False, q)"
    and push_room: "inv q \<Longrightarrow> length (items q) < limit \<Longrightarrow> can_issue q (Suc n) \<Longrightarrow>
      \<exists>q'. try_push q x = Some (True, q') \<and> inv q' \<and> items q' = items q @ [x] \<and> can_issue q' n"

locale bounded_queue =
  queue_source try_pop items inv can_issue + queue_sink try_push items inv can_issue limit
  for try_pop :: "'q \<Rightarrow> ('a option \<times> 'q) option"
    and items :: "'q \<Rightarrow> 'a list"
    and inv :: "'q \<Rightarrow> bool"
    and can_issue :: "'q \<Rightarrow> nat \<Rightarrow> bool"
    and try_push :: "'q \<Rightarrow> 'a \<Rightarrow> (bool \<times> 'q) option"
    and limit :: nat

section \<open>Runs of calls against a queue\<close>

text \<open>A producer that pushes a list of values one after the other and remembers which
  calls returned \<open>true\<close>, and a consumer that pops until the queue is empty or \<open>n\<close>
  calls were made.\<close>

fun push_many :: "('q \<Rightarrow> 'a \<Rightarrow> (bool \<times> 'q) option) \<Rightarrow> 'q \<Rightarrow> 'a list \<Rightarrow> (bool list \<times> 'q) option" where
  "push_many push q [] = Some ([], q)"
| "push_many push q (x # xs) =
     (case push q x of None \<Rightarrow> None
      | Some (b, q') \<Rightarrow> (case push_many push q' xs of None \<Rightarrow> None
          | Some (bs, q'') \<Rightarrow> Some (b # bs, q'')))"

fun pop_many :: "('q \<Rightarrow> ('a option \<times> 'q) option) \<Rightarrow> nat \<Rightarrow> 'q \<Rightarrow> ('a list \<times> 'q) option" where
  "pop_many pop 0 q = Some ([], q)"
| "pop_many pop (Suc n) q =
     (case pop q of None \<Rightarrow> None
      | Some (None, q') \<Rightarrow> Some ([], q')
      | Some (Some x, q') \<Rightarrow> (case pop_many pop n q' of None \<Rightarrow> None
          | Some (xs, q'') \<Rightarrow> Some (x # xs, q'')))"

context queue_source
begin

lemma pop_many_items:
  assumes "inv q"
  shows "\<exists>q'. pop_many try_pop n q = Some (take n (items q), q') \<and> inv q' \<and>
    items q' = drop n (items q)"
  using assms
proof (induction n arbitrary: q)
  case 0
  then show ?case by simp
next
  case (Suc n)
  show ?case
  proof (cases "items q")
    case Nil
    with Suc.prems show ?thesis by (simp add: pop_empty)
  next
    case (Cons x xs)
    with Suc.prems obtain q' where q': "try_pop q = Some (Some x, q')" "inv q'" "items q' = xs"
      using pop_item by blast
    with Suc.IH [of q'] show ?thesis by (auto simp: Cons)
  qed
qed

end

context queue_sink
begin

lemma push_many_items:
  assumes "inv q" and "can_issue q (length xs)"
  shows "\<exists>bs q'. push_many try_push q xs = Some (bs, q') \<and> inv q' \<and>
    items q' = items q @ take (limit - length (items q)) xs \<and>
    bs = replicate (min (length xs) (limit - length (items q))) True
       @ replicate (length xs - (limit - length (items q))) False"
  using assms
proof (induction xs arbitrary: q)
  case Nil
  then show ?case by simp
next
  case (Cons x xs)
  show ?case
  proof (cases "length (items q) < limit")
    case True
    with Cons.prems obtain q' where q': "try_push q x = Some (True, q')" "inv q'"
      "items q' = items q @ [x]" "can_issue q' (length xs)"
      using push_room [of q "length xs" x] by auto
    have room: "limit - length (items q) = Suc (limit - length (items q'))"
      using True q'(3) by simp
    from Cons.IH [OF q'(2) q'(4)] q' room show ?thesis by auto
  next
    case False
    with Cons.prems(1) have full: "length (items q) = limit"
      using items_limit [of q] by simp
    have all_full: "push_many try_push q ys = Some (replicate (length ys) False, q)" for ys
      by (induction ys) (simp_all add: push_full [OF Cons.prems(1) full])
    from all_full [of "x # xs"] Cons.prems(1) full show ?thesis by simp
  qed
qed

end

context bounded_queue
begin

text \<open>First in, first out across a whole burst: what fits is what comes out, in order.\<close>

lemma push_then_pop:
  assumes "inv q" and "items q = []" and "can_issue q (length xs)"
  shows "\<exists>bs q' q''. push_many try_push q xs = Some (bs, q') \<and>
    pop_many try_pop (length xs) q' = Some (take limit xs, q'') \<and>
    inv q'' \<and> items q'' = []"
proof -
  from push_many_items [OF assms(1,3)] assms(2) obtain bs q' where
    q': "push_many try_push q xs = Some (bs, q')" "inv q'" "items q' = take limit xs"
    by auto
  have "take (length xs) (take limit xs) = take limit xs" by (simp add: min_def)
  with q' pop_many_items [OF q'(2), of "length xs"] show ?thesis by auto
qed

end

section \<open>Any sequence of calls against a list\<close>

text \<open>A sequence of calls with the results it gives, and the same calls on a list that is cut off at
  \<open>limit\<close> values: the reference every bounded queue agrees with, call by call.\<close>

datatype 'a queue_call = Call_push 'a | Call_pop

datatype 'a queue_return = Ret_push bool | Ret_pop "'a option"

fun queue_run :: "('q \<Rightarrow> 'a \<Rightarrow> (bool \<times> 'q) option) \<Rightarrow> ('q \<Rightarrow> ('a option \<times> 'q) option) \<Rightarrow>
    'a queue_call list \<Rightarrow> 'q \<Rightarrow> ('a queue_return list \<times> 'q) option" where
  "queue_run push pop [] q = Some ([], q)"
| "queue_run push pop (Call_push x # cs) q =
     (case push q x of None \<Rightarrow> None
      | Some (b, q') \<Rightarrow> map_option (apfst (Cons (Ret_push b))) (queue_run push pop cs q'))"
| "queue_run push pop (Call_pop # cs) q =
     (case pop q of None \<Rightarrow> None
      | Some (r, q') \<Rightarrow> map_option (apfst (Cons (Ret_pop r))) (queue_run push pop cs q'))"

fun list_run :: "nat \<Rightarrow> 'a queue_call list \<Rightarrow> 'a list \<Rightarrow> 'a queue_return list \<times> 'a list" where
  "list_run limit [] xs = ([], xs)"
| "list_run limit (Call_push x # cs) xs =
     (if length xs < limit then apfst (Cons (Ret_push True)) (list_run limit cs (xs @ [x]))
      else apfst (Cons (Ret_push False)) (list_run limit cs xs))"
| "list_run limit (Call_pop # cs) [] = apfst (Cons (Ret_pop None)) (list_run limit cs [])"
| "list_run limit (Call_pop # cs) (x # xs) = apfst (Cons (Ret_pop (Some x))) (list_run limit cs xs)"

context bounded_queue
begin

lemma queue_run_list:
  "inv q \<Longrightarrow> can_issue q (length cs) \<Longrightarrow>
   \<exists>q'. queue_run try_push try_pop cs q = Some (fst (list_run limit cs (items q)), q') \<and> inv q' \<and>
     items q' = snd (list_run limit cs (items q))"
proof (induction cs arbitrary: q)
  case (Cons c cs)
  then have issue: "can_issue q (Suc (length cs))" and inv: "inv q" by simp_all
  show ?case
  proof (cases c)
    case c: (Call_push x)
    show ?thesis
    proof (cases "length (items q) < limit")
      case True
      obtain q' where "try_push q x = Some (True, q')" "inv q'" "items q' = items q @ [x]" "can_issue q' (length cs)"
        using push_room [OF inv True issue] by blast
      with Cons.IH [of q'] True c show ?thesis by auto
    next
      case False
      with items_limit [OF inv] have "try_push q x = Some (False, q)" by (intro push_full inv) simp
      with Cons.IH [OF inv issue_mono [OF issue]] False c show ?thesis by auto
    qed
  next
    case c: Call_pop
    show ?thesis
    proof (cases "items q")
      case Nil
      with Cons.IH [OF inv issue_mono [OF issue]] pop_empty [OF inv] c show ?thesis by auto
    next
      case it: (Cons x xs)
      then obtain q' where "try_pop q = Some (Some x, q')" "inv q'" "items q' = xs" "can_issue q' (length cs)"
        using pop_item [OF inv] issue_mono [OF issue] by blast
      with Cons.IH [of q'] it c show ?thesis by auto
    qed
  qed
qed simp

end

section \<open>The atomic bounded queue\<close>

text \<open>The specification both rings implement when several threads use them at once: every
  completed call takes effect in one step. \<open>fifo_in\<close> and \<open>fifo_out\<close> are all values
  that ever entered and left, in order.\<close>

record 'a fifo =
  fifo_queue :: "'a list"
  fifo_in :: "'a list"
  fifo_out :: "'a list"

definition fifo_start :: "'a fifo \<Rightarrow> bool" where
  "fifo_start f \<longleftrightarrow> f = \<lparr>fifo_queue = [], fifo_in = [], fifo_out = []\<rparr>"

inductive fifo_step :: "nat \<Rightarrow> 'a fifo \<Rightarrow> 'a fifo \<Rightarrow> bool" for limit :: nat where
  fifo_enq: "length q < limit \<Longrightarrow>
    fifo_step limit \<lparr>fifo_queue = q, fifo_in = i, fifo_out = out\<rparr>
      \<lparr>fifo_queue = q @ [x], fifo_in = i @ [x], fifo_out = out\<rparr>"
| fifo_deq: "fifo_step limit \<lparr>fifo_queue = x # q, fifo_in = i, fifo_out = out\<rparr>
      \<lparr>fifo_queue = q, fifo_in = i, fifo_out = out @ [x]\<rparr>"

definition fifo_inv :: "nat \<Rightarrow> 'a fifo \<Rightarrow> bool" where
  "fifo_inv limit f \<longleftrightarrow> fifo_in f = fifo_out f @ fifo_queue f \<and> length (fifo_queue f) \<le> limit"

interpretation fifo: inductive_invariant fifo_start "fifo_step limit" "fifo_inv limit" for limit
proof unfold_locales
  show "fifo_start f \<Longrightarrow> fifo_inv limit f" for f :: "'a fifo"
    by (simp add: fifo_start_def fifo_inv_def)
  show "fifo_inv limit f \<Longrightarrow> fifo_step limit f g \<Longrightarrow> fifo_inv limit g" for f g :: "'a fifo"
    by (erule fifo_step.cases) (auto simp: fifo_inv_def)
qed

end
