(* ===== verification/Spsc_Ring.thy ===== *)
theory Spsc_Ring
  imports Bounded_Queue
begin

text \<open>
  \<open>ringio::detail::SpscRing<T, Capacity>\<close> (include/ringio/detail/spsc_ring.hpp). The
  first part is the ring as one thread sees it: \<open>try_push\<close> and \<open>try_pop\<close> with their
  64-bit cursors, their content as a list and the bounded-queue contract. The second part
  splits both calls at their atomic accesses and runs a producer and a consumer thread
  against each other, with loads of the other side's cursor that may be out of date.
\<close>

section \<open>The ring and its operations\<close>

record 'a spsc_ring =
  spsc_head :: size_t
  spsc_tail :: size_t
  spsc_buffer :: "'a list"

definition SpscRing :: "size_t \<Rightarrow> 'a \<Rightarrow> 'a spsc_ring" where
  "SpscRing cap dflt = \<lparr>spsc_head = 0, spsc_tail = 0, spsc_buffer = replicate (unat cap) dflt\<rparr>"

definition spsc_try_push :: "size_t \<Rightarrow> 'a spsc_ring \<Rightarrow> 'a \<Rightarrow> bool \<times> 'a spsc_ring" where
  "spsc_try_push cap r v =
     (let tail = spsc_tail r; head = spsc_head r in
      if tail - head \<ge> cap then (False, r)
      else (True, r\<lparr>spsc_buffer := (spsc_buffer r)[unat (tail AND kMask cap) := v],
                    spsc_tail := tail + 1\<rparr>))"

definition spsc_try_pop :: "size_t \<Rightarrow> 'a spsc_ring \<Rightarrow> 'a option \<times> 'a spsc_ring" where
  "spsc_try_pop cap r =
     (let head = spsc_head r; tail = spsc_tail r in
      if head = tail then (None, r)
      else (Some (spsc_buffer r ! unat (head AND kMask cap)), r\<lparr>spsc_head := head + 1\<rparr>))"

definition spsc_capacity :: "size_t \<Rightarrow> size_t" where
  "spsc_capacity cap = cap"

section \<open>Invariant and content\<close>

definition spsc_count :: "'a spsc_ring \<Rightarrow> nat" where
  "spsc_count r = unat (spsc_tail r - spsc_head r)"

definition spsc_inv :: "size_t \<Rightarrow> 'a spsc_ring \<Rightarrow> bool" where
  "spsc_inv cap r \<longleftrightarrow> pow2_cap cap \<and> length (spsc_buffer r) = unat cap \<and>
     spsc_tail r - spsc_head r \<le> cap"

definition spsc_items :: "size_t \<Rightarrow> 'a spsc_ring \<Rightarrow> 'a list" where
  "spsc_items cap r =
     map (\<lambda>i. spsc_buffer r ! ((unat (spsc_head r) + i) mod unat cap)) [0..<spsc_count r]"

lemmas spsc_defs = spsc_inv_def spsc_items_def spsc_count_def

lemma length_spsc_items: "length (spsc_items cap r) = spsc_count r"
  by (simp add: spsc_items_def)

lemma spsc_count_le: "spsc_inv cap r \<Longrightarrow> spsc_count r \<le> unat cap"
  by (simp add: spsc_defs word_le_nat_alt)

lemma unat_add_mod_cap:
  assumes "pow2_cap cap"
  shows "unat (h + w :: size_t) mod unat cap = (unat h + unat w) mod unat cap"
  using pow2_cap_dvd [OF assms] by (simp add: unat_word_ariths mod_mod_cancel)

lemma spsc_tail_index:
  assumes "spsc_inv cap r"
  shows "unat (spsc_tail r AND kMask cap) = (unat (spsc_head r) + spsc_count r) mod unat cap"
proof -
  have p: "pow2_cap cap" using assms by (simp add: spsc_inv_def)
  have "spsc_tail r = spsc_head r + (spsc_tail r - spsc_head r)" by simp
  then show ?thesis
    using unat_add_mod_cap [OF p, of "spsc_head r" "spsc_tail r - spsc_head r"]
    by (simp add: unat_and_kMask [OF p] spsc_count_def)
qed

lemma unat_inc_bounded: "w < c \<Longrightarrow> unat (w + 1) = unat w + 1" for w c :: size_t
  by unat_arith

lemma spsc_push_count:
  assumes "spsc_tail r - spsc_head r < cap"
  shows "unat (spsc_tail r + 1 - spsc_head r) = spsc_count r + 1"
proof -
  have "spsc_tail r + 1 - spsc_head r = (spsc_tail r - spsc_head r) + 1" by simp
  then show ?thesis by (simp only: spsc_count_def unat_inc_bounded [OF assms])
qed

lemma SpscRing_inv: "pow2_cap cap \<Longrightarrow> spsc_inv cap (SpscRing cap d)"
  by (simp add: SpscRing_def spsc_inv_def)

lemma SpscRing_items: "spsc_items cap (SpscRing cap d) = []"
  by (simp add: SpscRing_def spsc_items_def spsc_count_def)

lemma spsc_push_full:
  assumes "spsc_inv cap r" and "length (spsc_items cap r) = unat cap"
  shows "spsc_try_push cap r v = (False, r)"
  using assms by (simp add: spsc_try_push_def length_spsc_items spsc_count_def word_le_nat_alt)

lemma spsc_push_room:
  assumes inv: "spsc_inv cap r" and room: "length (spsc_items cap r) < unat cap"
  shows "\<exists>r'. spsc_try_push cap r v = (True, r') \<and> spsc_inv cap r' \<and>
    spsc_items cap r' = spsc_items cap r @ [v]"
proof -
  let ?n = "spsc_count r" and ?h = "unat (spsc_head r)" and ?c = "unat cap"
  let ?r' = "r\<lparr>spsc_buffer := (spsc_buffer r)[(?h + ?n) mod ?c := v], spsc_tail := spsc_tail r + 1\<rparr>"
  have lt: "spsc_tail r - spsc_head r < cap"
    using room by (simp add: length_spsc_items spsc_count_def word_less_nat_alt)
  have push: "spsc_try_push cap r v = (True, ?r')"
    using lt by (simp add: spsc_try_push_def spsc_tail_index [OF inv] not_le [symmetric])
  have cnt: "spsc_count ?r' = ?n + 1"
    using spsc_push_count [OF lt] by (simp add: spsc_count_def)
  have n: "?n < ?c" using room by (simp add: length_spsc_items)
  have inv': "spsc_inv cap ?r'"
    using inv spsc_push_count [OF lt] n by (simp add: spsc_inv_def word_le_nat_alt)
  have len: "length (spsc_buffer r) = ?c" and c: "0 < ?c"
    using inv by (simp_all add: spsc_inv_def pow2_cap_pos)
  have old: "spsc_buffer ?r' ! ((?h + i) mod ?c) = spsc_buffer r ! ((?h + i) mod ?c)"
    if "i < ?n" for i
    using mod_window_neq [of "?h + i" "?h + ?n" ?c] that n by (simp add: nth_list_update_neq)
  have "spsc_items cap ?r' = spsc_items cap r @ [v]"
    using old len c by (simp add: spsc_items_def cnt)
  with push inv' show ?thesis by blast
qed

lemma spsc_pop_empty:
  assumes "spsc_inv cap r" and "spsc_items cap r = []"
  shows "spsc_try_pop cap r = (None, r)"
proof -
  have "unat (spsc_tail r - spsc_head r) = 0"
    using assms(2) by (simp add: spsc_items_def spsc_count_def)
  then have "spsc_head r = spsc_tail r"
    by (simp add: unat_eq_0)
  then show ?thesis by (simp add: spsc_try_pop_def)
qed

lemma spsc_pop_item:
  assumes inv: "spsc_inv cap r" and it: "spsc_items cap r = x # xs"
  shows "\<exists>r'. spsc_try_pop cap r = (Some x, r') \<and> spsc_inv cap r' \<and> spsc_items cap r' = xs"
proof -
  let ?n = "spsc_count r" and ?h = "unat (spsc_head r)" and ?c = "unat cap"
  let ?r' = "r\<lparr>spsc_head := spsc_head r + 1\<rparr>"
  have p: "pow2_cap cap" and dle: "spsc_tail r - spsc_head r \<le> cap"
    using inv by (simp_all add: spsc_inv_def)
  have n: "0 < ?n" using it length_spsc_items [of cap r] by simp
  then have neq: "spsc_tail r - spsc_head r \<noteq> 0" by (auto simp: spsc_count_def)
  have diff: "spsc_tail r - (spsc_head r + 1) = (spsc_tail r - spsc_head r) - 1" by simp
  have cnt: "spsc_count ?r' = ?n - 1"
    using unat_minus_one [OF neq] by (simp add: spsc_count_def diff)
  have inv': "spsc_inv cap ?r'"
    using inv unat_minus_one [OF neq] le_trans [OF diff_le_self]
    by (simp add: spsc_inv_def diff word_le_nat_alt)
  have idx: "unat (spsc_head r + 1) mod ?c = (?h + 1) mod ?c"
    using unat_add_mod_cap [OF p, of "spsc_head r" 1] by simp
  have shift: "(unat (spsc_head r + 1) + i) mod ?c = (?h + Suc i) mod ?c" for i
    using idx by (metis add.assoc mod_add_left_eq plus_1_eq_Suc)
  have items: "spsc_items cap r =
      spsc_buffer r ! (?h mod ?c) # map (\<lambda>i. spsc_buffer r ! ((?h + Suc i) mod ?c)) [0..<?n - 1]"
    by (simp only: spsc_items_def map_upt_0_Cons [OF n] add_0_right)
  have "spsc_items cap ?r' = map (\<lambda>i. spsc_buffer r ! ((?h + Suc i) mod ?c)) [0..<?n - 1]"
    by (simp add: spsc_items_def cnt shift)
  with items it have its: "spsc_items cap ?r' = xs" and x: "x = spsc_buffer r ! (?h mod ?c)"
    by simp_all
  have "spsc_try_pop cap r = (Some x, ?r')"
    using neq by (simp add: spsc_try_pop_def Let_def unat_and_kMask [OF p] x)
  with inv' its show ?thesis by blast
qed

interpretation spsc: bounded_queue "\<lambda>r. Some (spsc_try_pop cap r)" "spsc_items cap"
  "spsc_inv cap" "\<lambda>_ _. True" "\<lambda>r v. Some (spsc_try_push cap r v)" "unat cap" for cap :: size_t
proof unfold_locales
  fix r :: "'a spsc_ring" and x :: 'a and xs :: "'a list" and n :: nat
  assume inv: "spsc_inv cap r"
  show "spsc_items cap r = [] \<Longrightarrow> Some (spsc_try_pop cap r) = Some (None, r)"
    using spsc_pop_empty [OF inv] by simp
  show "spsc_items cap r = x # xs \<Longrightarrow> \<exists>r'. Some (spsc_try_pop cap r) = Some (Some x, r') \<and>
      spsc_inv cap r' \<and> spsc_items cap r' = xs \<and> (\<forall>n::nat. True \<longrightarrow> True)"
    using spsc_pop_item [OF inv] by simp
  show "length (spsc_items cap r) \<le> unat cap"
    using spsc_count_le [OF inv] by (simp add: length_spsc_items)
  show "length (spsc_items cap r) = unat cap \<Longrightarrow> Some (spsc_try_push cap r x) = Some (False, r)"
    using spsc_push_full [OF inv] by simp
  show "length (spsc_items cap r) < unat cap \<Longrightarrow> True \<Longrightarrow>
      \<exists>r'. Some (spsc_try_push cap r x) = Some (True, r') \<and> spsc_inv cap r' \<and>
        spsc_items cap r' = spsc_items cap r @ [x] \<and> True"
    using spsc_push_room [OF inv] by simp
qed

section \<open>One producer thread and one consumer thread\<close>

text \<open>The program counters name the next atomic access. A load of the other side's cursor
  may return any value that cursor has had since the thread last looked at it
  (\<open>seen_head\<close>, \<open>seen_tail\<close>): that is what coherence of an atomic location allows,
  and \<open>memory_order_acquire\<close> makes the buffer writes before that store visible. The
  counters \<open>heads\<close> and \<open>tails\<close> number the stores to the cursors, \<open>pushed\<close> and
  \<open>popped\<close> record the values of the calls that returned \<open>true\<close>; all four are
  auxiliary and no step's guard on the ring depends on them.\<close>

datatype 'a spsc_producer = P_idle | P_load_tail 'a | P_load_head 'a size_t
  | P_write 'a size_t | P_publish 'a size_t

datatype 'a spsc_consumer = C_idle | C_load_head | C_load_tail size_t
  | C_read size_t | C_publish size_t 'a

record 'a spsc_sys =
  sys_ring :: "'a spsc_ring"
  sys_prod :: "'a spsc_producer"
  sys_cons :: "'a spsc_consumer"
  heads :: nat
  tails :: nat
  seen_head :: nat
  seen_tail :: nat
  pushed :: "'a list"
  popped :: "'a list"

definition spsc_start :: "size_t \<Rightarrow> 'a spsc_sys \<Rightarrow> bool" where
  "spsc_start cap s \<longleftrightarrow> pow2_cap cap \<and> (\<exists>d. s =
     \<lparr>sys_ring = SpscRing cap d, sys_prod = P_idle, sys_cons = C_idle, heads = 0, tails = 0,
      seen_head = 0, seen_tail = 0, pushed = [], popped = []\<rparr>)"

inductive spsc_step :: "size_t \<Rightarrow> 'a spsc_sys \<Rightarrow> 'a spsc_sys \<Rightarrow> bool" for cap :: size_t where
  push_call: "sys_prod s = P_idle \<Longrightarrow> spsc_step cap s (s\<lparr>sys_prod := P_load_tail v\<rparr>)"
| push_load_tail: "sys_prod s = P_load_tail v \<Longrightarrow>
    spsc_step cap s (s\<lparr>sys_prod := P_load_head v (spsc_tail (sys_ring s))\<rparr>)"
| push_full: "sys_prod s = P_load_head v tail \<Longrightarrow> seen_head s \<le> h \<Longrightarrow> h \<le> heads s \<Longrightarrow>
    tail - of_nat h \<ge> cap \<Longrightarrow>
    spsc_step cap s (s\<lparr>sys_prod := P_idle, seen_head := h\<rparr>)"
| push_load_head: "sys_prod s = P_load_head v tail \<Longrightarrow> seen_head s \<le> h \<Longrightarrow> h \<le> heads s \<Longrightarrow>
    \<not> tail - of_nat h \<ge> cap \<Longrightarrow>
    spsc_step cap s (s\<lparr>sys_prod := P_write v tail, seen_head := h\<rparr>)"
| push_write: "sys_prod s = P_write v tail \<Longrightarrow>
    spsc_step cap s (s\<lparr>sys_prod := P_publish v tail, sys_ring := (sys_ring s)
      \<lparr>spsc_buffer := (spsc_buffer (sys_ring s))[unat (tail AND kMask cap) := v]\<rparr>\<rparr>)"
| push_publish: "sys_prod s = P_publish v tail \<Longrightarrow>
    spsc_step cap s (s\<lparr>sys_prod := P_idle, sys_ring := (sys_ring s)\<lparr>spsc_tail := tail + 1\<rparr>,
      tails := tails s + 1, pushed := pushed s @ [v]\<rparr>)"
| pop_call: "sys_cons s = C_idle \<Longrightarrow> spsc_step cap s (s\<lparr>sys_cons := C_load_head\<rparr>)"
| pop_load_head: "sys_cons s = C_load_head \<Longrightarrow>
    spsc_step cap s (s\<lparr>sys_cons := C_load_tail (spsc_head (sys_ring s))\<rparr>)"
| pop_empty: "sys_cons s = C_load_tail head \<Longrightarrow> seen_tail s \<le> t \<Longrightarrow> t \<le> tails s \<Longrightarrow>
    head = of_nat t \<Longrightarrow>
    spsc_step cap s (s\<lparr>sys_cons := C_idle, seen_tail := t\<rparr>)"
| pop_load_tail: "sys_cons s = C_load_tail head \<Longrightarrow> seen_tail s \<le> t \<Longrightarrow> t \<le> tails s \<Longrightarrow>
    head \<noteq> of_nat t \<Longrightarrow>
    spsc_step cap s (s\<lparr>sys_cons := C_read head, seen_tail := t\<rparr>)"
| pop_read: "sys_cons s = C_read head \<Longrightarrow>
    spsc_step cap s (s\<lparr>sys_cons :=
      C_publish head (spsc_buffer (sys_ring s) ! unat (head AND kMask cap))\<rparr>)"
| pop_publish: "sys_cons s = C_publish head out \<Longrightarrow>
    spsc_step cap s (s\<lparr>sys_cons := C_idle, sys_ring := (sys_ring s)\<lparr>spsc_head := head + 1\<rparr>,
      heads := heads s + 1, popped := popped s @ [out]\<rparr>)"

subsection \<open>The invariant of the two threads\<close>

definition spsc_mem_ok :: "size_t \<Rightarrow> 'a spsc_sys \<Rightarrow> bool" where
  "spsc_mem_ok cap s \<longleftrightarrow> pow2_cap cap \<and> length (spsc_buffer (sys_ring s)) = unat cap \<and>
     spsc_head (sys_ring s) = of_nat (heads s) \<and> spsc_tail (sys_ring s) = of_nat (tails s) \<and>
     length (pushed s) = tails s \<and> popped s = take (heads s) (pushed s) \<and>
     seen_head s \<le> heads s \<and> heads s \<le> seen_tail s \<and> seen_tail s \<le> tails s \<and>
     tails s \<le> seen_head s + unat cap"

definition spsc_content_ok :: "size_t \<Rightarrow> 'a spsc_sys \<Rightarrow> bool" where
  "spsc_content_ok cap s \<longleftrightarrow> (\<forall>i. heads s \<le> i \<longrightarrow> i < tails s \<longrightarrow>
     spsc_buffer (sys_ring s) ! (i mod unat cap) = pushed s ! i)"

definition spsc_prod_ok :: "size_t \<Rightarrow> 'a spsc_sys \<Rightarrow> bool" where
  "spsc_prod_ok cap s \<longleftrightarrow> (case sys_prod s of
       P_load_head v t \<Rightarrow> t = of_nat (tails s)
     | P_write v t \<Rightarrow> t = of_nat (tails s) \<and> tails s < seen_head s + unat cap
     | P_publish v t \<Rightarrow> t = of_nat (tails s) \<and> tails s < seen_head s + unat cap \<and>
         spsc_buffer (sys_ring s) ! (tails s mod unat cap) = v
     | _ \<Rightarrow> True)"

definition spsc_cons_ok :: "size_t \<Rightarrow> 'a spsc_sys \<Rightarrow> bool" where
  "spsc_cons_ok cap s \<longleftrightarrow> (case sys_cons s of
       C_load_tail h \<Rightarrow> h = of_nat (heads s)
     | C_read h \<Rightarrow> h = of_nat (heads s) \<and> heads s < seen_tail s
     | C_publish h x \<Rightarrow> h = of_nat (heads s) \<and> heads s < seen_tail s \<and> x = pushed s ! heads s
     | _ \<Rightarrow> True)"

definition spsc_sys_inv :: "size_t \<Rightarrow> 'a spsc_sys \<Rightarrow> bool" where
  "spsc_sys_inv cap s \<longleftrightarrow> spsc_mem_ok cap s \<and> spsc_content_ok cap s \<and>
     spsc_prod_ok cap s \<and> spsc_cons_ok cap s"

lemmas spsc_sys_defs = spsc_sys_inv_def spsc_mem_ok_def spsc_content_ok_def spsc_prod_ok_def
  spsc_cons_ok_def

lemma spsc_start_inv: "spsc_start cap s \<Longrightarrow> spsc_sys_inv cap s"
  by (auto simp: spsc_start_def spsc_sys_defs SpscRing_def)

text \<open>The capacity test on the wrapping cursors decides the real distance.\<close>

lemma spsc_capacity_test:
  assumes "spsc_mem_ok cap s" and "seen_head s \<le> h" and "h \<le> heads s"
  shows "(of_nat (tails s) :: size_t) - of_nat h \<ge> cap \<longleftrightarrow> h + unat cap \<le> tails s"
proof -
  have le: "h \<le> tails s" and d: "tails s - h \<le> unat cap"
    using assms by (auto simp: spsc_mem_ok_def)
  have "tails s - h < 2 ^ 64" using d unat_lt_64 [of cap] by simp
  then have "unat ((of_nat (tails s) :: size_t) - of_nat h) = tails s - h"
    using le by (rule unat_cursor_diff [rotated])
  then show ?thesis using le by (auto simp: word_le_nat_alt)
qed

lemma spsc_empty_test:
  assumes "spsc_mem_ok cap s" and "seen_tail s \<le> t" and "t \<le> tails s"
  shows "(of_nat (heads s) :: size_t) = of_nat t \<longleftrightarrow> heads s = t"
proof -
  have le: "heads s \<le> t" and "t - heads s \<le> unat cap"
    using assms by (auto simp: spsc_mem_ok_def)
  then have "t - heads s < 2 ^ 64" using unat_lt_64 [of cap] by simp
  with le show ?thesis using of_nat_cursor_eq by metis
qed

lemma spsc_write_inv:
  assumes inv: "spsc_sys_inv cap s" and pc: "sys_prod s = P_write v tail"
  shows "spsc_sys_inv cap (s\<lparr>sys_prod := P_publish v tail, sys_ring := (sys_ring s)
      \<lparr>spsc_buffer := (spsc_buffer (sys_ring s))[unat (tail AND kMask cap) := v]\<rparr>\<rparr>)"
proof -
  have p: "pow2_cap cap" and t: "tail = of_nat (tails s)" "tails s < seen_head s + unat cap"
    and len: "length (spsc_buffer (sys_ring s)) = unat cap" and sh: "seen_head s \<le> heads s"
    using inv pc by (auto simp: spsc_sys_defs)
  have "tails s mod unat cap \<noteq> i mod unat cap" if "heads s \<le> i" "i < tails s" for i
    using mod_window_neq [of i "tails s" "unat cap"] that t(2) sh by simp
  with inv pc len pow2_cap_pos [OF p] show ?thesis
    by (auto simp: spsc_sys_defs kMask_index [OF p] nth_list_update_neq split: spsc_consumer.splits)
qed

lemma spsc_publish_inv:
  assumes inv: "spsc_sys_inv cap s" and pc: "sys_prod s = P_publish v tail"
  shows "spsc_sys_inv cap (s\<lparr>sys_prod := P_idle, sys_ring := (sys_ring s)\<lparr>spsc_tail := tail + 1\<rparr>,
      tails := tails s + 1, pushed := pushed s @ [v]\<rparr>)"
  using assms by (auto simp: spsc_sys_defs nth_append less_Suc_eq split: spsc_consumer.splits)

lemma spsc_step_inv:
  assumes "spsc_sys_inv cap s" and "spsc_step cap s t"
  shows "spsc_sys_inv cap t"
  using assms(2,1)
proof cases
  case (push_full v tail h)
  then show ?thesis using assms(1) spsc_capacity_test [of cap s h]
    by (auto simp: spsc_sys_defs split: spsc_consumer.splits)
next
  case (push_load_head v tail h)
  then show ?thesis using assms(1) spsc_capacity_test [of cap s h]
    by (auto simp: spsc_sys_defs split: spsc_consumer.splits)
next
  case (pop_load_tail head t')
  then show ?thesis using assms(1) spsc_empty_test [of cap s t']
    by (auto simp: spsc_sys_defs split: spsc_producer.splits)
next
  case (pop_read head)
  then have "unat (head AND kMask cap) = heads s mod unat cap"
    using assms(1) kMask_index by (auto simp: spsc_sys_defs)
  with pop_read assms(1) show ?thesis
    by (auto simp: spsc_sys_defs split: spsc_producer.splits)
next
  case (pop_publish head out)
  then show ?thesis using assms(1)
    by (auto simp: spsc_sys_defs take_Suc_conv_app_nth split: spsc_producer.splits)
next
  case (push_write v tail)
  then show ?thesis using assms(1) spsc_write_inv by simp
next
  case (push_publish v tail)
  then show ?thesis using assms(1) spsc_publish_inv by simp
qed (auto simp: spsc_sys_defs split: spsc_producer.splits spsc_consumer.splits)

subsection \<open>The two threads implement the atomic queue\<close>

definition spsc_abs :: "'a spsc_sys \<Rightarrow> 'a fifo" where
  "spsc_abs s = \<lparr>fifo_queue = drop (heads s) (pushed s), fifo_in = pushed s, fifo_out = popped s\<rparr>"

lemma spsc_publish_enq:
  assumes inv: "spsc_sys_inv cap s" and pc: "sys_prod s = P_publish v tail"
  shows "fifo_step (unat cap) (spsc_abs s) (spsc_abs (s\<lparr>sys_prod := P_idle,
    sys_ring := (sys_ring s)\<lparr>spsc_tail := tail + 1\<rparr>, tails := tails s + 1, pushed := pushed s @ [v]\<rparr>))"
proof -
  have "length (drop (heads s) (pushed s)) < unat cap" and "heads s \<le> length (pushed s)"
    using inv pc by (auto simp: spsc_sys_defs)
  then show ?thesis
    using fifo_enq [of "drop (heads s) (pushed s)" "unat cap" "pushed s" "popped s" v]
    by (simp add: spsc_abs_def)
qed

lemma spsc_publish_deq:
  assumes inv: "spsc_sys_inv cap s" and pc: "sys_cons s = C_publish head out"
  shows "fifo_step (unat cap) (spsc_abs s) (spsc_abs (s\<lparr>sys_cons := C_idle,
    sys_ring := (sys_ring s)\<lparr>spsc_head := head + 1\<rparr>, heads := heads s + 1, popped := popped s @ [out]\<rparr>))"
proof -
  have "drop (heads s) (pushed s) = out # drop (Suc (heads s)) (pushed s)"
    using inv pc by (auto simp: spsc_sys_defs Cons_nth_drop_Suc)
  then show ?thesis
    using fifo_deq [of "unat cap" out "drop (Suc (heads s)) (pushed s)" "pushed s" "popped s"]
    by (simp add: spsc_abs_def)
qed

interpretation spsc_threads: forward_simulation "spsc_start cap" "spsc_step cap" "spsc_sys_inv cap"
  spsc_abs fifo_start "fifo_step (unat cap)" for cap
proof unfold_locales
  fix s t :: "'a spsc_sys"
  show "spsc_start cap s \<Longrightarrow> spsc_sys_inv cap s" by (rule spsc_start_inv)
  show "spsc_sys_inv cap s \<Longrightarrow> spsc_step cap s t \<Longrightarrow> spsc_sys_inv cap t" by (rule spsc_step_inv)
  show "spsc_start cap s \<Longrightarrow> fifo_start (spsc_abs s)"
    by (auto simp: spsc_start_def spsc_abs_def fifo_start_def)
  assume inv: "spsc_sys_inv cap s" and st: "spsc_step cap s t"
  show "spsc_abs t = spsc_abs s \<or> fifo_step (unat cap) (spsc_abs s) (spsc_abs t)"
    using st
  proof cases
    case (push_publish v tail)
    with spsc_publish_enq [OF inv] show ?thesis by simp
  next
    case (pop_publish head out)
    with spsc_publish_deq [OF inv] show ?thesis by simp
  qed (simp_all add: spsc_abs_def)
qed

subsection \<open>A call that runs alone is the sequential operation\<close>

abbreviation spsc_reach :: "size_t \<Rightarrow> 'a spsc_sys \<Rightarrow> bool" where
  "spsc_reach cap \<equiv> reach (spsc_start cap) (spsc_step cap)"

lemma spsc_solo_to_write:
  assumes r: "spsc_reach cap s" and pc: "sys_prod s = P_idle"
    and room: "\<not> spsc_tail (sys_ring s) - spsc_head (sys_ring s) \<ge> cap"
  shows "spsc_reach cap (s\<lparr>sys_prod := P_write v (spsc_tail (sys_ring s)), seen_head := heads s\<rparr>)"
proof -
  have inv: "spsc_sys_inv cap s" by (rule spsc_threads.reach_inv [OF r])
  have "spsc_reach cap (s\<lparr>sys_prod := P_load_tail v\<rparr>)"
    using reach_step [OF r push_call [of s cap v, OF pc]] .
  from reach_step [OF this push_load_tail [of _ v]]
  have 2: "spsc_reach cap (s\<lparr>sys_prod := P_load_head v (spsc_tail (sys_ring s))\<rparr>)" by simp
  from reach_step [OF 2 push_load_head [of _ v "spsc_tail (sys_ring s)" "heads s"]] inv room
  show ?thesis by (simp add: spsc_sys_defs)
qed

lemma spsc_solo_push:
  assumes r: "spsc_reach cap s" and pc: "sys_prod s = P_idle"
    and room: "\<not> spsc_tail (sys_ring s) - spsc_head (sys_ring s) \<ge> cap"
  shows "spsc_reach cap (s\<lparr>sys_ring := snd (spsc_try_push cap (sys_ring s) v),
    sys_prod := P_idle, tails := tails s + 1, seen_head := heads s, pushed := pushed s @ [v]\<rparr>)"
proof -
  from reach_step [OF spsc_solo_to_write [OF r pc room, of v] push_write [of _ v]]
  have 1: "spsc_reach cap (s\<lparr>sys_prod := P_publish v (spsc_tail (sys_ring s)), seen_head := heads s,
    sys_ring := (sys_ring s)\<lparr>spsc_buffer := (spsc_buffer (sys_ring s))
      [unat (spsc_tail (sys_ring s) AND kMask cap) := v]\<rparr>\<rparr>)"
    by (cases s) simp
  from reach_step [OF 1 push_publish [of _ v]] room show ?thesis
    by (cases s) (simp add: spsc_try_push_def Let_def)
qed

lemma spsc_solo_to_read:
  assumes r: "spsc_reach cap s" and pc: "sys_cons s = C_idle"
    and item: "spsc_head (sys_ring s) \<noteq> spsc_tail (sys_ring s)"
  shows "spsc_reach cap (s\<lparr>sys_cons := C_read (spsc_head (sys_ring s)), seen_tail := tails s\<rparr>)"
proof -
  have inv: "spsc_sys_inv cap s" by (rule spsc_threads.reach_inv [OF r])
  have "spsc_reach cap (s\<lparr>sys_cons := C_load_head\<rparr>)"
    using reach_step [OF r pop_call [of s cap, OF pc]] .
  from reach_step [OF this pop_load_head]
  have 2: "spsc_reach cap (s\<lparr>sys_cons := C_load_tail (spsc_head (sys_ring s))\<rparr>)" by simp
  from reach_step [OF 2 pop_load_tail [of _ "spsc_head (sys_ring s)" "tails s"]] inv item
  show ?thesis by (simp add: spsc_sys_defs)
qed

lemma spsc_solo_pop:
  assumes r: "spsc_reach cap s" and pc: "sys_cons s = C_idle"
    and pop: "spsc_try_pop cap (sys_ring s) = (Some x, ring')"
  shows "spsc_reach cap (s\<lparr>sys_ring := ring', sys_cons := C_idle,
    heads := heads s + 1, seen_tail := tails s, popped := popped s @ [x]\<rparr>)"
proof -
  have item: "spsc_head (sys_ring s) \<noteq> spsc_tail (sys_ring s)"
    using pop by (auto simp: spsc_try_pop_def)
  from reach_step [OF spsc_solo_to_read [OF r pc item] pop_read]
  have 1: "spsc_reach cap (s\<lparr>sys_cons := C_publish (spsc_head (sys_ring s))
    (spsc_buffer (sys_ring s) ! unat (spsc_head (sys_ring s) AND kMask cap)), seen_tail := tails s\<rparr>)"
    by (cases s) simp
  from reach_step [OF 1 pop_publish] pop item show ?thesis
    by (cases s) (auto simp: spsc_try_pop_def Let_def)
qed

lemma spsc_sys_items:
  assumes "spsc_sys_inv cap s"
  shows "spsc_items cap (sys_ring s) = drop (heads s) (pushed s)"
proof (rule nth_equalityI)
  have p: "pow2_cap cap" and le: "heads s \<le> tails s" "tails s - heads s \<le> unat cap"
    and cur: "spsc_head (sys_ring s) = of_nat (heads s)" "spsc_tail (sys_ring s) = of_nat (tails s)"
    using assms by (auto simp: spsc_sys_defs)
  have "tails s - heads s < 2 ^ 64" using le(2) unat_lt_64 [of cap] by simp
  then have cnt: "spsc_count (sys_ring s) = tails s - heads s"
    using unat_cursor_diff [OF le(1)] by (simp add: spsc_count_def cur)
  then show len: "length (spsc_items cap (sys_ring s)) = length (drop (heads s) (pushed s))"
    using assms by (auto simp: length_spsc_items spsc_sys_defs)
  fix i assume "i < length (spsc_items cap (sys_ring s))"
  then have i: "i < tails s - heads s" by (simp add: length_spsc_items cnt)
  have "(unat (of_nat (heads s) :: size_t) + i) mod unat cap = (heads s + i) mod unat cap"
    using unat_of_nat_64_mod [OF p, of "heads s"] by (metis mod_add_left_eq)
  with i assms show "spsc_items cap (sys_ring s) ! i = drop (heads s) (pushed s) ! i"
    by (auto simp: spsc_items_def cnt cur spsc_sys_defs)
qed

subsection \<open>Progress\<close>

text \<open>How many accesses a call still has to make.\<close>

fun prod_rank :: "'a spsc_producer \<Rightarrow> nat" where
  "prod_rank P_idle = 0"
| "prod_rank (P_load_tail v) = 4"
| "prod_rank (P_load_head v t) = 3"
| "prod_rank (P_write v t) = 2"
| "prod_rank (P_publish v t) = 1"

fun cons_rank :: "'a spsc_consumer \<Rightarrow> nat" where
  "cons_rank C_idle = 0"
| "cons_rank C_load_head = 4"
| "cons_rank (C_load_tail h) = 3"
| "cons_rank (C_read h) = 2"
| "cons_rank (C_publish h x) = 1"

lemma spsc_step_rank:
  "spsc_step cap s t \<Longrightarrow>
     sys_cons t = sys_cons s \<and> (prod_rank (sys_prod t) < prod_rank (sys_prod s) \<or>
       sys_prod s = P_idle \<and> (\<exists>v. sys_prod t = P_load_tail v)) \<or>
     sys_prod t = sys_prod s \<and> (cons_rank (sys_cons t) < cons_rank (sys_cons s) \<or>
       sys_cons s = C_idle \<and> sys_cons t = C_load_head)"
  by (erule spsc_step.cases) simp_all

lemma spsc_prod_enabled:
  assumes "spsc_sys_inv cap s" and "sys_prod s \<noteq> P_idle"
  shows "\<exists>t. spsc_step cap s t \<and> prod_rank (sys_prod t) < prod_rank (sys_prod s)"
proof (cases "sys_prod s")
  case (P_load_head v tl)
  have ok: "seen_head s \<le> heads s" using assms(1) by (simp add: spsc_sys_defs)
  show ?thesis
  proof (cases "tl - of_nat (heads s) \<ge> cap")
    case True
    from push_full [OF P_load_head ok order_refl True] P_load_head show ?thesis by fastforce
  next
    case False
    from push_load_head [OF P_load_head ok order_refl False] P_load_head show ?thesis by fastforce
  qed
next
  case (P_load_tail v)
  from push_load_tail [OF P_load_tail, of cap] P_load_tail show ?thesis by fastforce
next
  case (P_write v tl)
  from push_write [OF P_write, of cap] P_write show ?thesis by fastforce
next
  case (P_publish v tl)
  from push_publish [OF P_publish, of cap] P_publish show ?thesis by fastforce
qed (use assms in simp)

lemma spsc_cons_enabled:
  assumes "spsc_sys_inv cap s" and "sys_cons s \<noteq> C_idle"
  shows "\<exists>t. spsc_step cap s t \<and> cons_rank (sys_cons t) < cons_rank (sys_cons s)"
proof (cases "sys_cons s")
  case (C_load_tail hd)
  have ok: "seen_tail s \<le> tails s" using assms(1) by (simp add: spsc_sys_defs)
  show ?thesis
  proof (cases "hd = of_nat (tails s)")
    case True
    from pop_empty [OF C_load_tail ok order_refl True, of cap] C_load_tail show ?thesis by fastforce
  next
    case False
    from pop_load_tail [OF C_load_tail ok order_refl False, of cap] C_load_tail show ?thesis by fastforce
  qed
next
  case C_load_head
  from pop_load_head [OF C_load_head, of cap] C_load_head show ?thesis by fastforce
next
  case (C_read hd)
  from pop_read [OF C_read, of cap] C_read show ?thesis by fastforce
next
  case (C_publish hd x)
  from pop_publish [OF C_publish, of cap] C_publish show ?thesis by fastforce
qed (use assms in simp)

section \<open>Properties\<close>

text \<open>\<open>try_push\<close> on a well-formed ring, cursors wrapped around or not, returns true
  exactly when the ring holds fewer than \<open>Capacity\<close> values; it then appends the value, and
  otherwise changes nothing; the ring stays well formed.\<close>

lemma spsc_try_push_spec:
  assumes "spsc_inv cap r" and "spsc_try_push cap r v = (b, r')"
  shows "spsc_inv cap r' \<and> (b \<longleftrightarrow> length (spsc_items cap r) < unat cap) \<and>
    spsc_items cap r' = (if b then spsc_items cap r @ [v] else spsc_items cap r) \<and>
    (\<not> b \<longrightarrow> r' = r)"
proof (cases "length (spsc_items cap r) < unat cap")
  case True
  with spsc_push_room [OF assms(1) True, of v] assms(2) show ?thesis by auto
next
  case False
  then have full: "length (spsc_items cap r) = unat cap"
    using spsc_count_le [OF assms(1)] by (simp add: length_spsc_items)
  with spsc_push_full [OF assms(1) full, of v] assms show ?thesis by simp
qed

definition wrapped_ring :: "nat spsc_ring" where
  "wrapped_ring = \<lparr>spsc_head = - 2, spsc_tail = - 1, spsc_buffer = [10, 11, 12, 13]\<rparr>"

lemma wrapped_ring_ok: "spsc_inv 4 wrapped_ring" "spsc_items 4 wrapped_ring = [12]"
  by (simp_all add: wrapped_ring_def spsc_inv_def pow2_cap_def capacity_assert_def
      spsc_items_def spsc_count_def)

text \<open>\<open>try_pop\<close> on a well-formed ring returns the oldest value and removes it, and
  returns false, changing nothing, exactly when the ring is empty.\<close>

lemma spsc_try_pop_spec:
  assumes "spsc_inv cap r" and "spsc_try_pop cap r = (res, r')"
  shows "spsc_inv cap r' \<and>
    (case spsc_items cap r of [] \<Rightarrow> res = None \<and> r' = r
     | x # xs \<Rightarrow> res = Some x \<and> spsc_items cap r' = xs)"
  using spsc_pop_empty [OF assms(1)] spsc_pop_item [OF assms(1)] assms
  by (cases "spsc_items cap r") fastforce+

text \<open>(C17) The two calls on a well-formed ring, cursors wrapped around or not. \<open>try_push\<close> returns true
  exactly when the ring holds fewer than \<open>Capacity\<close> values; it then appends the value, and otherwise
  changes nothing. \<open>try_pop\<close> returns the oldest value and removes it, and returns false, changing
  nothing, exactly when the ring is empty. The ring stays well formed.\<close>

theorem spsc_calls_spec:
  assumes "spsc_inv cap r"
  shows "(case spsc_try_push cap r v of (b, r') \<Rightarrow> spsc_inv cap r' \<and> (b \<longleftrightarrow> length (spsc_items cap r) < unat cap) \<and>
      spsc_items cap r' = (if b then spsc_items cap r @ [v] else spsc_items cap r) \<and> (\<not> b \<longrightarrow> r' = r)) \<and>
    (case spsc_try_pop cap r of (res, r') \<Rightarrow> spsc_inv cap r' \<and>
      (case spsc_items cap r of [] \<Rightarrow> res = None \<and> r' = r | x # xs \<Rightarrow> res = Some x \<and> spsc_items cap r' = xs))"
  using spsc_try_push_spec [OF assms, of v] spsc_try_pop_spec [OF assms]
  by (cases "spsc_try_push cap r v"; cases "spsc_try_pop cap r") simp

theorem spsc_calls_spec_witness:
  "spsc_items 4 (snd (spsc_try_push 4 wrapped_ring 20)) = [12, 20] \<and>
   fst (spsc_try_pop 4 wrapped_ring) = Some 12 \<and> spsc_items 4 (snd (spsc_try_pop 4 wrapped_ring)) = []"
  using spsc_calls_spec [OF wrapped_ring_ok(1), of 20] wrapped_ring_ok(2) by (simp add: split_beta)

text \<open>(C13) With one producer and one consumer running at any speeds, and loads of the other
  side's cursor possibly out of date, the values popped are a prefix of the values pushed, in
  order and without loss or duplication, and what lies between is exactly the content of the
  ring, at most \<open>Capacity\<close> values.\<close>

theorem spsc_threads_fifo:
  assumes "spsc_reach cap s"
  shows "pushed s = popped s @ spsc_items cap (sys_ring s) \<and>
    length (spsc_items cap (sys_ring s)) \<le> unat cap"
proof -
  have inv: "spsc_sys_inv cap s" by (rule spsc_threads.reach_inv [OF assms])
  then have "popped s = take (heads s) (pushed s)"
    and "length (drop (heads s) (pushed s)) \<le> unat cap"
    by (auto simp: spsc_sys_defs)
  then show ?thesis by (simp add: spsc_sys_items [OF inv])
qed

text \<open>A concrete run: two values pushed, then a third push stops before its write while a
  pop stops before its read.\<close>

definition demo0 :: "nat spsc_sys" where
  "demo0 = \<lparr>sys_ring = SpscRing 4 0, sys_prod = P_idle, sys_cons = C_idle, heads = 0, tails = 0,
     seen_head = 0, seen_tail = 0, pushed = [], popped = []\<rparr>"

definition demo1 :: "nat spsc_sys" where
  "demo1 = demo0\<lparr>sys_ring := snd (spsc_try_push 4 (sys_ring demo0) 7), tails := 1, pushed := [7]\<rparr>"

lemma demo1_reach: "spsc_reach 4 demo1"
proof -
  have "spsc_start 4 demo0"
    by (auto simp: spsc_start_def demo0_def pow2_cap_def capacity_assert_def)
  then have "spsc_reach 4 demo0" by (rule reach_start)
  from spsc_solo_push [OF this, of 7] show ?thesis
    by (simp add: demo0_def demo1_def SpscRing_def spsc_try_push_def Let_def)
qed

lemma demo_both_inside:
  "\<exists>s :: nat spsc_sys. spsc_reach 4 s \<and> sys_prod s = P_write 8 1 \<and> sys_cons s = C_read 0"
proof -
  have 1: "spsc_reach 4 (demo1\<lparr>sys_prod := P_write 8 1, seen_head := 0\<rparr>)"
    using spsc_solo_to_write [OF demo1_reach, of 8]
    by (simp add: demo1_def demo0_def SpscRing_def spsc_try_push_def Let_def word_le_nat_alt)
  let ?s = "demo1\<lparr>sys_prod := P_write 8 1, seen_head := 0, sys_cons := C_read 0, seen_tail := 1\<rparr>"
  from spsc_solo_to_read [OF 1] have "spsc_reach 4 ?s"
    by (simp add: demo1_def demo0_def SpscRing_def spsc_try_push_def Let_def)
  then show ?thesis by (intro exI [of _ ?s]) simp
qed

theorem spsc_threads_fifo_witness:
  "pushed demo1 = popped demo1 @ spsc_items 4 (sys_ring demo1) \<and> pushed demo1 = [7]"
  using spsc_threads_fifo [OF demo1_reach] by (simp add: demo1_def)



text \<open>(C15) The two threads never touch the same element of \<open>buffer_\<close> at the same time:
  while the producer is about to write its slot and the consumer about to read its own, the
  slots differ, so the plain accesses do not race.\<close>

theorem spsc_threads_race_free:
  assumes "spsc_reach cap s" and "sys_prod s = P_write v t" and "sys_cons s = C_read h"
  shows "unat (t AND kMask cap) \<noteq> unat (h AND kMask cap)"
proof -
  have inv: "spsc_sys_inv cap s" by (rule spsc_threads.reach_inv [OF assms(1)])
  with assms(2,3) have "t = of_nat (tails s)" "h = of_nat (heads s)" "heads s < tails s"
    "tails s < heads s + unat cap" "pow2_cap cap"
    by (auto simp: spsc_sys_defs)
  then show ?thesis using mod_window_neq [of "heads s" "tails s" "unat cap"]
    by (simp add: kMask_index)
qed

theorem spsc_threads_race_free_witness:
  "\<exists>s :: nat spsc_sys. spsc_reach 4 s \<and> sys_prod s = P_write 8 1 \<and> sys_cons s = C_read 0 \<and>
     unat ((1::size_t) AND kMask 4) \<noteq> unat ((0::size_t) AND kMask 4)"
proof -
  obtain s :: "nat spsc_sys" where s: "spsc_reach 4 s" "sys_prod s = P_write 8 1" "sys_cons s = C_read 0"
    using demo_both_inside by blast
  with spsc_threads_race_free [OF s] show ?thesis by blast
qed

text \<open>(C16) Both calls are wait-free. Every step of the two threads is an access of a call in progress,
  which brings this call strictly closer to its return and leaves the other thread where it is, or the
  start of a call by an idle thread, which leaves the other thread where it is; so no access repeats
  and no call waits for the other thread. A call in progress always has such an access, and at most
  four accesses follow the start of a call.\<close>

theorem spsc_calls_wait_free:
  assumes "spsc_reach cap s"
  shows "(sys_prod s \<noteq> P_idle \<longrightarrow> (\<exists>t. spsc_step cap s t \<and> prod_rank (sys_prod t) < prod_rank (sys_prod s))) \<and>
    (sys_cons s \<noteq> C_idle \<longrightarrow> (\<exists>t. spsc_step cap s t \<and> cons_rank (sys_cons t) < cons_rank (sys_cons s))) \<and>
    (\<forall>t. spsc_step cap s t \<longrightarrow>
       sys_cons t = sys_cons s \<and> (prod_rank (sys_prod t) < prod_rank (sys_prod s) \<or>
         sys_prod s = P_idle \<and> (\<exists>v. sys_prod t = P_load_tail v)) \<or>
       sys_prod t = sys_prod s \<and> (cons_rank (sys_cons t) < cons_rank (sys_cons s) \<or>
         sys_cons s = C_idle \<and> sys_cons t = C_load_head)) \<and>
    prod_rank (sys_prod s) \<le> 4 \<and> cons_rank (sys_cons s) \<le> 4"
proof -
  have inv: "spsc_sys_inv cap s" by (rule spsc_threads.reach_inv [OF assms])
  have "prod_rank (sys_prod s) \<le> 4" "cons_rank (sys_cons s) \<le> 4"
    by (cases "sys_prod s"; simp) (cases "sys_cons s"; simp)
  then show ?thesis
    using spsc_prod_enabled [OF inv] spsc_cons_enabled [OF inv] spsc_step_rank by blast
qed

theorem spsc_calls_wait_free_witness:
  "\<exists>s :: nat spsc_sys. spsc_reach 4 s \<and> sys_prod s = P_write 8 1 \<and> sys_cons s = C_read 0 \<and>
     (\<exists>t. spsc_step 4 s t \<and> prod_rank (sys_prod t) < 2) \<and> (\<exists>t. spsc_step 4 s t \<and> cons_rank (sys_cons t) < 2) \<and>
     \<not> spsc_step 4 s s"
proof -
  obtain s :: "nat spsc_sys" where s: "spsc_reach 4 s" "sys_prod s = P_write 8 1" "sys_cons s = C_read 0"
    using demo_both_inside by blast
  show ?thesis using spsc_calls_wait_free [OF s(1)] s by (intro exI [of _ s]) auto
qed

text \<open>A burst pushed into a fresh ring and popped again comes out in order, truncated to
  what fits; nothing is left behind.\<close>

lemma spsc_burst_fifo:
  assumes "pow2_cap cap"
  shows "\<exists>bs r' r''. push_many (\<lambda>r v. Some (spsc_try_push cap r v)) (SpscRing cap d) xs = Some (bs, r') \<and>
    pop_many (\<lambda>r. Some (spsc_try_pop cap r)) (length xs) r' = Some (take (unat cap) xs, r'') \<and>
    spsc_inv cap r'' \<and> spsc_items cap r'' = []"
  using spsc.push_then_pop [OF SpscRing_inv [OF assms] SpscRing_items] by simp

end
