(* ===== verification/Mpmc_Ring.thy ===== *)
theory Mpmc_Ring
  imports Bounded_Queue
begin

text \<open>
  \<open>ringio::detail::MpmcRing<T, Capacity>\<close> (include/ringio/detail/mpmc_ring.hpp), Vyukov's
  bounded queue. The first part is the ring as one thread sees it: both calls with their retry
  loops, at 64-bit width, with the signed difference of the source (undefined where it leaves
  \<open>intptr_t\<close>) and with spurious failures of \<open>compare_exchange_weak\<close>. A call that loops
  for ever, or that has undefined behaviour, has the value \<open>None\<close>.
\<close>

section \<open>The ring and its operations\<close>

record 'a slot =
  slot_sequence :: size_t
  slot_value :: 'a

record 'a mpmc_ring =
  mpmc_slots :: "'a slot list"
  enqueue_pos :: size_t
  dequeue_pos :: size_t

definition MpmcRing :: "size_t \<Rightarrow> 'a \<Rightarrow> 'a mpmc_ring" where
  "MpmcRing cap dflt =
     \<lparr>mpmc_slots = map (\<lambda>i. \<lparr>slot_sequence = of_nat i, slot_value = dflt\<rparr>) [0..<unat cap],
      enqueue_pos = 0, dequeue_pos = 0\<rparr>"

text \<open>\<open>static_cast<intptr_t>(a) - static_cast<intptr_t>(b)\<close>: a signed 64-bit subtraction,
  undefined when the mathematical difference does not fit.\<close>

definition seq_diff :: "size_t \<Rightarrow> size_t \<Rightarrow> int option" where
  "seq_diff a b = (let d = sint a - sint b in
     if - (2 ^ 63) \<le> d \<and> d < 2 ^ 63 then Some d else None)"

partial_function (option) mpmc_push_loop ::
    "size_t \<Rightarrow> bool list \<Rightarrow> 'a mpmc_ring \<Rightarrow> 'a \<Rightarrow> size_t \<Rightarrow> (bool \<times> 'a mpmc_ring) option" where
  "mpmc_push_loop cap ws r v pos =
     (if length (mpmc_slots r) \<le> unat (pos AND kMask cap) then None
      else case seq_diff (slot_sequence (mpmc_slots r ! unat (pos AND kMask cap))) pos of
        None \<Rightarrow> None
      | Some diff \<Rightarrow>
          if diff = 0 then
            (if enqueue_pos r = pos \<and> \<not> spurious ws
             then Some (True, r\<lparr>enqueue_pos := pos + 1, mpmc_slots := (mpmc_slots r)
               [unat (pos AND kMask cap) := \<lparr>slot_sequence = pos + 1, slot_value = v\<rparr>]\<rparr>)
             else mpmc_push_loop cap (tl ws) r v (enqueue_pos r))
          else if diff < 0 then Some (False, r)
          else mpmc_push_loop cap ws r v (enqueue_pos r))"

definition mpmc_try_push ::
    "size_t \<Rightarrow> bool list \<Rightarrow> 'a mpmc_ring \<Rightarrow> 'a \<Rightarrow> (bool \<times> 'a mpmc_ring) option" where
  "mpmc_try_push cap ws r v = mpmc_push_loop cap ws r v (enqueue_pos r)"

partial_function (option) mpmc_pop_loop ::
    "size_t \<Rightarrow> bool list \<Rightarrow> 'a mpmc_ring \<Rightarrow> size_t \<Rightarrow> ('a option \<times> 'a mpmc_ring) option" where
  "mpmc_pop_loop cap ws r pos =
     (if length (mpmc_slots r) \<le> unat (pos AND kMask cap) then None
      else case seq_diff (slot_sequence (mpmc_slots r ! unat (pos AND kMask cap))) (pos + 1) of
        None \<Rightarrow> None
      | Some diff \<Rightarrow>
          if diff = 0 then
            (if dequeue_pos r = pos \<and> \<not> spurious ws
             then Some (Some (slot_value (mpmc_slots r ! unat (pos AND kMask cap))),
               r\<lparr>dequeue_pos := pos + 1, mpmc_slots := (mpmc_slots r)
                 [unat (pos AND kMask cap) := (mpmc_slots r ! unat (pos AND kMask cap))
                   \<lparr>slot_sequence := pos + cap\<rparr>]\<rparr>)
             else mpmc_pop_loop cap (tl ws) r (dequeue_pos r))
          else if diff < 0 then Some (None, r)
          else mpmc_pop_loop cap ws r (dequeue_pos r))"

definition mpmc_try_pop ::
    "size_t \<Rightarrow> bool list \<Rightarrow> 'a mpmc_ring \<Rightarrow> ('a option \<times> 'a mpmc_ring) option" where
  "mpmc_try_pop cap ws r = mpmc_pop_loop cap ws r (dequeue_pos r)"

definition mpmc_capacity :: "size_t \<Rightarrow> size_t" where
  "mpmc_capacity cap = cap"

section \<open>Tickets, invariant and content\<close>

text \<open>The cursors number the calls (tickets); ticket \<open>t\<close> uses slot \<open>t mod Capacity\<close>.\<close>

definition slot_at :: "size_t \<Rightarrow> 'a mpmc_ring \<Rightarrow> nat \<Rightarrow> 'a slot" where
  "slot_at cap r t = mpmc_slots r ! (t mod unat cap)"

abbreviation seq_at :: "size_t \<Rightarrow> 'a mpmc_ring \<Rightarrow> nat \<Rightarrow> nat" where
  "seq_at cap r t \<equiv> unat (slot_sequence (slot_at cap r t))"

definition mpmc_shape :: "size_t \<Rightarrow> 'a mpmc_ring \<Rightarrow> bool" where
  "mpmc_shape cap r \<longleftrightarrow> pow2_cap cap \<and> 2 \<le> unat cap \<and> length (mpmc_slots r) = unat cap \<and>
     unat (enqueue_pos r) + unat cap < 2 ^ 63"

definition mpmc_inv :: "size_t \<Rightarrow> 'a mpmc_ring \<Rightarrow> bool" where
  "mpmc_inv cap r \<longleftrightarrow> mpmc_shape cap r \<and>
     unat (dequeue_pos r) \<le> unat (enqueue_pos r) \<and>
     unat (enqueue_pos r) \<le> unat (dequeue_pos r) + unat cap \<and>
     (\<forall>t. unat (dequeue_pos r) \<le> t \<longrightarrow> t < unat (enqueue_pos r) \<longrightarrow> seq_at cap r t = t + 1) \<and>
     (\<forall>t. unat (enqueue_pos r) \<le> t \<longrightarrow> t < unat (dequeue_pos r) + unat cap \<longrightarrow> seq_at cap r t = t)"

definition mpmc_items :: "size_t \<Rightarrow> 'a mpmc_ring \<Rightarrow> 'a list" where
  "mpmc_items cap r =
     map (\<lambda>t. slot_value (slot_at cap r t)) [unat (dequeue_pos r)..<unat (enqueue_pos r)]"

definition mpmc_can_issue :: "size_t \<Rightarrow> 'a mpmc_ring \<Rightarrow> nat \<Rightarrow> bool" where
  "mpmc_can_issue cap r n \<longleftrightarrow> unat (enqueue_pos r) + n + unat cap < 2 ^ 63"

lemma length_mpmc_items:
  "length (mpmc_items cap r) = unat (enqueue_pos r) - unat (dequeue_pos r)"
  by (simp add: mpmc_items_def)

lemma uint_small: "unat (w :: size_t) < 2 ^ 63 \<Longrightarrow> uint w < 2 ^ 63"
  by (metis of_nat_less_iff of_nat_numeral of_nat_power uint_nat)

lemma sint_small:
  assumes "unat (w :: size_t) < 2 ^ 63"
  shows "sint w = uint w"
proof -
  have "uint w < 2 ^ 63" using assms by (rule uint_small)
  moreover have "- (2 ^ 63) \<le> uint w" by (rule order_trans [OF _ uint_ge_0]) simp
  ultimately have "signed_take_bit 63 (uint w) = uint w"
    by (intro signed_take_bit_int_eq_self)
  then show ?thesis by (simp add: sint_uint)
qed

lemma seq_diff_small:
  assumes "unat a < 2 ^ 63" and "unat b < 2 ^ 63"
  obtains d where "seq_diff a b = Some d" and "d = 0 \<longleftrightarrow> unat a = unat b"
    and "d < 0 \<longleftrightarrow> unat a < unat b"
proof
  show "seq_diff a b = Some (int (unat a) - int (unat b))"
    using uint_small [OF assms(1)] uint_small [OF assms(2)] uint_ge_0 [of a] uint_ge_0 [of b]
    unfolding seq_diff_def sint_small [OF assms(1)] sint_small [OF assms(2)] Let_def uint_nat
    by (smt (verit))
qed linarith+

lemma unat_suc_small: "unat w < 2 ^ 63 \<Longrightarrow> unat (w + 1 :: size_t) = unat w + 1"
  by (simp add: unat_word_ariths)

lemma unat_add_small: "unat w + unat c < 2 ^ 63 \<Longrightarrow> unat (w + c :: size_t) = unat w + unat c"
  by (simp add: unat_word_ariths)

lemma mpmc_index:
  assumes "mpmc_shape cap r"
  shows "unat (pos AND kMask cap) = unat pos mod unat cap"
    and "unat (pos AND kMask cap) < length (mpmc_slots r)"
  using assms by (simp_all add: mpmc_shape_def unat_and_kMask pow2_cap_pos)

text \<open>One iteration of each loop, in terms of the ticket's sequence number.\<close>

lemma push_loop_step:
  assumes sh: "mpmc_shape cap r" and "unat pos < 2 ^ 63" and "seq_at cap r (unat pos) < 2 ^ 63"
  shows "mpmc_push_loop cap ws r v pos =
     (if seq_at cap r (unat pos) = unat pos then
        (if enqueue_pos r = pos \<and> \<not> spurious ws
         then Some (True, r\<lparr>enqueue_pos := pos + 1, mpmc_slots := (mpmc_slots r)
           [unat pos mod unat cap := \<lparr>slot_sequence = pos + 1, slot_value = v\<rparr>]\<rparr>)
         else mpmc_push_loop cap (tl ws) r v (enqueue_pos r))
      else if seq_at cap r (unat pos) < unat pos then Some (False, r)
      else mpmc_push_loop cap ws r v (enqueue_pos r))"
proof -
  obtain d where "seq_diff (slot_sequence (slot_at cap r (unat pos))) pos = Some d"
    "d = 0 \<longleftrightarrow> seq_at cap r (unat pos) = unat pos" "d < 0 \<longleftrightarrow> seq_at cap r (unat pos) < unat pos"
    using seq_diff_small [OF assms(3,2)] by blast
  then show ?thesis using mpmc_index [OF sh, of pos]
    by (subst mpmc_push_loop.simps) (simp add: slot_at_def)
qed

lemma pop_loop_step:
  assumes sh: "mpmc_shape cap r" and "unat pos + 1 < 2 ^ 63" and "seq_at cap r (unat pos) < 2 ^ 63"
  shows "mpmc_pop_loop cap ws r pos =
     (if seq_at cap r (unat pos) = unat pos + 1 then
        (if dequeue_pos r = pos \<and> \<not> spurious ws
         then Some (Some (slot_value (slot_at cap r (unat pos))), r\<lparr>dequeue_pos := pos + 1,
           mpmc_slots := (mpmc_slots r)[unat pos mod unat cap :=
             (slot_at cap r (unat pos))\<lparr>slot_sequence := pos + cap\<rparr>]\<rparr>)
         else mpmc_pop_loop cap (tl ws) r (dequeue_pos r))
      else if seq_at cap r (unat pos) < unat pos + 1 then Some (None, r)
      else mpmc_pop_loop cap ws r (dequeue_pos r))"
proof -
  have suc: "unat (pos + 1) = unat pos + 1" using assms(2) by (intro unat_suc_small) simp
  obtain d where "seq_diff (slot_sequence (slot_at cap r (unat pos))) (pos + 1) = Some d"
    "d = 0 \<longleftrightarrow> seq_at cap r (unat pos) = unat pos + 1"
    "d < 0 \<longleftrightarrow> seq_at cap r (unat pos) < unat pos + 1"
    using seq_diff_small [OF assms(3), of "pos + 1"] assms(2) suc by auto
  then show ?thesis using mpmc_index [OF sh, of pos]
    by (subst mpmc_pop_loop.simps) (simp add: slot_at_def)
qed

section \<open>Sequential behaviour\<close>

lemma slot_at_update:
  assumes "length (mpmc_slots r) = unat cap" and "0 < unat cap"
  shows "slot_at cap (r\<lparr>enqueue_pos := e, mpmc_slots := (mpmc_slots r)[t0 mod unat cap := x]\<rparr>) t =
      (if t mod unat cap = t0 mod unat cap then x else slot_at cap r t)"
    and "slot_at cap (r\<lparr>dequeue_pos := e, mpmc_slots := (mpmc_slots r)[t0 mod unat cap := x]\<rparr>) t =
      (if t mod unat cap = t0 mod unat cap then x else slot_at cap r t)"
    and "slot_at cap (r\<lparr>mpmc_slots := (mpmc_slots r)[t0 mod unat cap := x]\<rparr>) t =
      (if t mod unat cap = t0 mod unat cap then x else slot_at cap r t)"
  using assms by (auto simp: slot_at_def nth_list_update)

lemma mpmc_inv_shape: "mpmc_inv cap r \<Longrightarrow> mpmc_shape cap r"
  by (simp add: mpmc_inv_def)

lemma mpmc_shape_len:
  "mpmc_shape cap r \<Longrightarrow> length (mpmc_slots r) = unat cap \<and> 0 < unat cap \<and> 2 \<le> unat cap"
  by (auto simp: mpmc_shape_def)

lemma mpmc_items_limit: "mpmc_inv cap r \<Longrightarrow> length (mpmc_items cap r) \<le> unat cap"
  by (auto simp: length_mpmc_items mpmc_inv_def)

lemma MpmcRing_inv:
  assumes "pow2_cap cap" and "2 \<le> unat cap" and "unat cap < 2 ^ 63"
  shows "mpmc_inv cap (MpmcRing cap d)"
proof -
  have "unat (of_nat t :: size_t) = t" if "t < unat cap" for t
    using that unat_lt_64 [of cap] by (simp add: unat_of_nat)
  with assms show ?thesis
    by (simp add: mpmc_inv_def mpmc_shape_def MpmcRing_def slot_at_def)
qed

lemma MpmcRing_items: "mpmc_items cap (MpmcRing cap d) = []"
  by (simp add: mpmc_items_def MpmcRing_def)

lemma mpmc_push_full:
  assumes inv: "mpmc_inv cap r" and full: "length (mpmc_items cap r) = unat cap"
  shows "mpmc_try_push cap ws r v = Some (False, r)"
proof -
  let ?E = "unat (enqueue_pos r)" and ?D = "unat (dequeue_pos r)" and ?C = "unat cap"
  have sh: "mpmc_shape cap r" by (rule mpmc_inv_shape [OF inv])
  have E: "?E = ?D + ?C" and C: "2 \<le> ?C"
    using inv full mpmc_shape_len [OF sh] by (auto simp: length_mpmc_items mpmc_inv_def)
  have "seq_at cap r ?E = seq_at cap r ?D" by (simp add: slot_at_def E)
  also have "\<dots> = ?D + 1" using inv C by (auto simp: mpmc_inv_def E)
  finally have q: "seq_at cap r ?E = ?D + 1" .
  have "?E < 2 ^ 63" using sh by (simp add: mpmc_shape_def)
  with q C E show ?thesis
    unfolding mpmc_try_push_def by (subst push_loop_step [OF sh]) simp_all
qed

lemma push_loop_claims:
  assumes sh: "mpmc_shape cap r"
    and q: "seq_at cap r (unat (enqueue_pos r)) = unat (enqueue_pos r)"
  shows "mpmc_push_loop cap ws r v (enqueue_pos r) =
    Some (True, r\<lparr>enqueue_pos := enqueue_pos r + 1, mpmc_slots := (mpmc_slots r)
      [unat (enqueue_pos r) mod unat cap := \<lparr>slot_sequence = enqueue_pos r + 1, slot_value = v\<rparr>]\<rparr>)"
proof -
  have lt: "unat (enqueue_pos r) < 2 ^ 63" using sh by (simp add: mpmc_shape_def)
  show ?thesis
    by (induction ws; subst push_loop_step [OF sh]) (use lt q in \<open>simp_all add: spurious_def\<close>)
qed

lemma mpmc_push_room:
  assumes inv: "mpmc_inv cap r" and room: "length (mpmc_items cap r) < unat cap"
    and issue: "mpmc_can_issue cap r (Suc n)"
  shows "\<exists>r'. mpmc_try_push cap ws r v = Some (True, r') \<and> mpmc_inv cap r' \<and>
    mpmc_items cap r' = mpmc_items cap r @ [v] \<and> mpmc_can_issue cap r' n"
proof -
  let ?E = "unat (enqueue_pos r)" and ?D = "unat (dequeue_pos r)" and ?C = "unat cap"
  let ?r' = "r\<lparr>enqueue_pos := enqueue_pos r + 1, mpmc_slots := (mpmc_slots r)
      [?E mod ?C := \<lparr>slot_sequence = enqueue_pos r + 1, slot_value = v\<rparr>]\<rparr>"
  have sh: "mpmc_shape cap r" by (rule mpmc_inv_shape [OF inv])
  note len = mpmc_shape_len [OF sh]
  have ED: "?D \<le> ?E" "?E < ?D + ?C" using inv room by (auto simp: length_mpmc_items mpmc_inv_def)
  then have q: "seq_at cap r ?E = ?E" using inv by (auto simp: mpmc_inv_def)
  have call: "mpmc_try_push cap ws r v = Some (True, ?r')"
    unfolding mpmc_try_push_def by (rule push_loop_claims [OF sh q])
  have suc: "unat (enqueue_pos r + 1) = ?E + 1"
    using sh by (intro unat_suc_small) (simp add: mpmc_shape_def)
  have other: "slot_at cap ?r' t = slot_at cap r t" if "?D \<le> t" "t < ?D + ?C" "t \<noteq> ?E" for t
    using that ED len mod_window_neq [of t ?E ?C] mod_window_neq [of ?E t ?C]
    by (subst slot_at_update(1)) (auto simp: neq_iff)
  have own: "slot_at cap ?r' ?E = \<lparr>slot_sequence = enqueue_pos r + 1, slot_value = v\<rparr>"
    using len by (subst slot_at_update(1)) auto
  have shape: "mpmc_shape cap ?r'"
    using sh issue suc by (simp add: mpmc_shape_def mpmc_can_issue_def)
  have full: "seq_at cap ?r' t = t + 1" if "?D \<le> t" "t < ?E + 1" for t
    using that inv ED suc own other by (cases "t = ?E") (auto simp: mpmc_inv_def)
  have free: "seq_at cap ?r' t = t" if "?E + 1 \<le> t" "t < ?D + ?C" for t
    using that inv ED other by (auto simp: mpmc_inv_def)
  have inv': "mpmc_inv cap ?r'"
    unfolding mpmc_inv_def using shape full free ED suc by auto
  have "mpmc_items cap ?r' = mpmc_items cap r @ [v]"
    unfolding mpmc_items_def using ED suc other own by (auto intro!: nth_equalityI)
  with call inv' issue suc show ?thesis by (auto simp: mpmc_can_issue_def)
qed

lemma mpmc_pop_empty:
  assumes inv: "mpmc_inv cap r" and e: "mpmc_items cap r = []"
  shows "mpmc_try_pop cap ws r = Some (None, r)"
proof -
  let ?E = "unat (enqueue_pos r)" and ?D = "unat (dequeue_pos r)" and ?C = "unat cap"
  have sh: "mpmc_shape cap r" by (rule mpmc_inv_shape [OF inv])
  have ED: "?D = ?E" using inv e by (auto simp: mpmc_items_def mpmc_inv_def)
  then have "seq_at cap r ?D = ?D" "?D + 1 < 2 ^ 63"
    using inv mpmc_shape_len [OF sh] by (auto simp: mpmc_inv_def mpmc_shape_def)
  then show ?thesis unfolding mpmc_try_pop_def
    by (subst pop_loop_step [OF sh]) simp_all
qed

lemma pop_loop_claims:
  assumes sh: "mpmc_shape cap r" and lt: "unat (dequeue_pos r) + 1 < 2 ^ 63"
    and q: "seq_at cap r (unat (dequeue_pos r)) = unat (dequeue_pos r) + 1"
  shows "mpmc_pop_loop cap ws r (dequeue_pos r) =
    Some (Some (slot_value (slot_at cap r (unat (dequeue_pos r)))), r\<lparr>dequeue_pos := dequeue_pos r + 1,
      mpmc_slots := (mpmc_slots r)[unat (dequeue_pos r) mod unat cap :=
        (slot_at cap r (unat (dequeue_pos r)))\<lparr>slot_sequence := dequeue_pos r + cap\<rparr>]\<rparr>)"
  by (induction ws; subst pop_loop_step [OF sh lt]) (use lt q in \<open>simp_all add: spurious_def\<close>)

lemma mpmc_pop_item:
  assumes inv: "mpmc_inv cap r" and it: "mpmc_items cap r = x # xs"
  shows "\<exists>r'. mpmc_try_pop cap ws r = Some (Some x, r') \<and> mpmc_inv cap r' \<and>
    mpmc_items cap r' = xs \<and> (\<forall>n. mpmc_can_issue cap r n \<longrightarrow> mpmc_can_issue cap r' n)"
proof -
  let ?E = "unat (enqueue_pos r)" and ?D = "unat (dequeue_pos r)" and ?C = "unat cap"
  let ?r' = "r\<lparr>dequeue_pos := dequeue_pos r + 1, mpmc_slots := (mpmc_slots r)
      [?D mod ?C := (slot_at cap r ?D)\<lparr>slot_sequence := dequeue_pos r + cap\<rparr>]\<rparr>"
  have sh: "mpmc_shape cap r" by (rule mpmc_inv_shape [OF inv])
  note len = mpmc_shape_len [OF sh]
  have DE: "?D < ?E" "?E \<le> ?D + ?C" "?E + ?C < 2 ^ 63"
    using inv it length_mpmc_items [of cap r] by (auto simp: mpmc_inv_def mpmc_shape_def)
  then have q: "seq_at cap r ?D = ?D + 1" and lt: "?D + 1 < 2 ^ 63" using inv by (auto simp: mpmc_inv_def)
  have call: "mpmc_try_pop cap ws r = Some (Some (slot_value (slot_at cap r ?D)), ?r')"
    unfolding mpmc_try_pop_def by (rule pop_loop_claims [OF sh lt q])
  have suc: "unat (dequeue_pos r + 1) = ?D + 1" using lt by (intro unat_suc_small) simp
  have rel: "unat (dequeue_pos r + cap) = ?D + ?C" using DE by (intro unat_add_small) simp
  have other: "slot_at cap ?r' t = slot_at cap r t" if "?D < t" "t < ?D + ?C" for t
    using that len mod_window_neq [of ?D t ?C] by (subst slot_at_update(2)) auto
  have own: "slot_at cap ?r' (?D + ?C) = (slot_at cap r ?D)\<lparr>slot_sequence := dequeue_pos r + cap\<rparr>"
    using len by (subst slot_at_update(2)) auto
  have full: "seq_at cap ?r' t = t + 1" if "?D + 1 \<le> t" "t < ?E" for t
    using that inv DE other by (auto simp: mpmc_inv_def)
  have free: "seq_at cap ?r' t = t" if "?E \<le> t" "t < ?D + 1 + ?C" for t
    using that inv DE other own rel by (cases "t = ?D + ?C") (auto simp: mpmc_inv_def)
  have inv': "mpmc_inv cap ?r'"
    unfolding mpmc_inv_def using sh full free DE suc by (auto simp: mpmc_shape_def)
  have items: "mpmc_items cap r = slot_value (slot_at cap r ?D) # map (\<lambda>t. slot_value (slot_at cap r t)) [Suc ?D..<?E]"
    using DE by (simp add: mpmc_items_def upt_conv_Cons)
  have "mpmc_items cap ?r' = map (\<lambda>t. slot_value (slot_at cap r t)) [Suc ?D..<?E]"
    unfolding mpmc_items_def using DE suc other by (auto intro!: map_cong)
  with call inv' items it show ?thesis by (auto simp: mpmc_can_issue_def)
qed

interpretation mpmc: bounded_queue "mpmc_try_pop cap ws" "mpmc_items cap" "mpmc_inv cap"
  "mpmc_can_issue cap" "mpmc_try_push cap ws" "unat cap" for cap ws
proof unfold_locales
  fix r :: "'a mpmc_ring" and x :: 'a and xs :: "'a list" and n :: nat
  assume inv: "mpmc_inv cap r"
  show "mpmc_items cap r = [] \<Longrightarrow> mpmc_try_pop cap ws r = Some (None, r)"
    by (rule mpmc_pop_empty [OF inv])
  show "mpmc_items cap r = x # xs \<Longrightarrow> \<exists>r'. mpmc_try_pop cap ws r = Some (Some x, r') \<and>
      mpmc_inv cap r' \<and> mpmc_items cap r' = xs \<and>
      (\<forall>n. mpmc_can_issue cap r n \<longrightarrow> mpmc_can_issue cap r' n)"
    by (rule mpmc_pop_item [OF inv])
  show "length (mpmc_items cap r) \<le> unat cap" by (rule mpmc_items_limit [OF inv])
  show "length (mpmc_items cap r) = unat cap \<Longrightarrow> mpmc_try_push cap ws r x = Some (False, r)"
    by (rule mpmc_push_full [OF inv])
  show "length (mpmc_items cap r) < unat cap \<Longrightarrow> mpmc_can_issue cap r (Suc n) \<Longrightarrow>
      \<exists>r'. mpmc_try_push cap ws r x = Some (True, r') \<and> mpmc_inv cap r' \<and>
        mpmc_items cap r' = mpmc_items cap r @ [x] \<and> mpmc_can_issue cap r' n"
    by (rule mpmc_push_room [OF inv])
qed (simp add: mpmc_can_issue_def)

section \<open>The smallest capacities\<close>

text \<open>A ring of capacity 1 after two pushes.\<close>

definition one_slot_ring :: "size_t \<Rightarrow> size_t \<Rightarrow> 'a \<Rightarrow> 'a mpmc_ring" where
  "one_slot_ring e q v =
     \<lparr>mpmc_slots = [\<lparr>slot_sequence = q, slot_value = v\<rparr>], enqueue_pos = e, dequeue_pos = 0\<rparr>"

lemma one_slot_push:
  "mpmc_push_loop 1 ws (one_slot_ring e e a) v e = Some (True, one_slot_ring (e + 1) (e + 1) v)"
  by (induction ws; subst mpmc_push_loop.simps)
    (simp_all add: one_slot_ring_def kMask_def seq_diff_def spurious_def)

lemma one_slot_pop_stuck:
  assumes "mpmc_pop_loop cap ws r pos = Some y"
  shows "\<not> (cap = 1 \<and> pos = 0 \<and> r = one_slot_ring e 2 v)"
proof (rule mpmc_pop_loop.raw_induct [where
      P = "\<lambda>cap ws r pos y. \<not> (cap = 1 \<and> pos = 0 \<and> r = one_slot_ring e 2 v)", OF _ assms])
  fix f :: "size_t \<Rightarrow> bool list \<Rightarrow> 'a mpmc_ring \<Rightarrow> size_t \<Rightarrow> ('a option \<times> 'a mpmc_ring) option"
    and cap :: size_t and ws :: "bool list" and r :: "'a mpmc_ring" and pos :: size_t
    and y :: "'a option \<times> 'a mpmc_ring"
  assume IH: "\<And>cap ws r pos y. f cap ws r pos = Some y \<Longrightarrow>
      \<not> (cap = 1 \<and> pos = 0 \<and> r = one_slot_ring e 2 v)"
    and eq: "(if length (mpmc_slots r) \<le> unat (pos AND kMask cap) then None
      else case seq_diff (slot_sequence (mpmc_slots r ! unat (pos AND kMask cap))) (pos + 1) of
        None \<Rightarrow> None
      | Some diff \<Rightarrow>
          if diff = 0 then
            (if dequeue_pos r = pos \<and> \<not> spurious ws
             then Some (Some (slot_value (mpmc_slots r ! unat (pos AND kMask cap))),
               r\<lparr>dequeue_pos := pos + 1, mpmc_slots := (mpmc_slots r)
                 [unat (pos AND kMask cap) := (mpmc_slots r ! unat (pos AND kMask cap))
                   \<lparr>slot_sequence := pos + cap\<rparr>]\<rparr>)
             else f cap (tl ws) r (dequeue_pos r))
          else if diff < 0 then Some (None, r)
          else f cap ws r (dequeue_pos r)) = Some y"
  show "\<not> (cap = 1 \<and> pos = 0 \<and> r = one_slot_ring e 2 v)"
  proof
    assume s: "cap = 1 \<and> pos = 0 \<and> r = one_slot_ring e 2 v"
    with eq have "f 1 ws (one_slot_ring e 2 v) 0 = Some y"
      by (simp add: one_slot_ring_def kMask_def seq_diff_def)
    from IH [OF this] show False by simp
  qed
qed

section \<open>Properties\<close>

text \<open>\<open>try_push\<close> on a quiescent, well-formed ring of capacity at least 2 always
  returns, whatever spurious failures the exchange suffers: true with the value appended when
  fewer than \<open>Capacity\<close> values are held, false with nothing changed otherwise.\<close>

lemma mpmc_try_push_spec:
  assumes "mpmc_inv cap r" and "mpmc_can_issue cap r 1"
  shows "\<exists>b r'. mpmc_try_push cap ws r v = Some (b, r') \<and> mpmc_inv cap r' \<and>
    (b \<longleftrightarrow> length (mpmc_items cap r) < unat cap) \<and>
    mpmc_items cap r' = (if b then mpmc_items cap r @ [v] else mpmc_items cap r) \<and>
    (\<not> b \<longrightarrow> r' = r)"
proof (cases "length (mpmc_items cap r) < unat cap")
  case True
  with mpmc_push_room [OF assms(1) True, of 0 ws v] assms(2) show ?thesis by auto
next
  case False
  with mpmc_items_limit [OF assms(1)] have "length (mpmc_items cap r) = unat cap" by simp
  with mpmc_push_full [OF assms(1), of ws v] assms(1) show ?thesis by auto
qed

lemma two_slots_ok: "mpmc_inv 2 (MpmcRing 2 (0::nat))"
  by (rule MpmcRing_inv) (simp_all add: pow2_cap_def capacity_assert_def)

text \<open>\<open>try_pop\<close> on a quiescent, well-formed ring of capacity at least 2 always
  returns: the oldest value, removed, or false with nothing changed when the ring is empty.\<close>

lemma mpmc_try_pop_spec:
  assumes "mpmc_inv cap r"
  shows "\<exists>res r'. mpmc_try_pop cap ws r = Some (res, r') \<and> mpmc_inv cap r' \<and>
    (case mpmc_items cap r of [] \<Rightarrow> res = None \<and> r' = r
     | x # xs \<Rightarrow> res = Some x \<and> mpmc_items cap r' = xs)"
proof (cases "mpmc_items cap r")
  case Nil
  with mpmc_pop_empty [OF assms] assms show ?thesis by simp
next
  case (Cons x xs)
  from mpmc_pop_item [OF assms Cons, of ws] Cons show ?thesis by fastforce
qed

text \<open>(C18) The two calls on a quiescent, well-formed ring of capacity at least 2 always return,
  whatever spurious failures the exchanges suffer. \<open>try_push\<close> returns true with the value appended
  when fewer than \<open>Capacity\<close> values are held, and false with nothing changed otherwise. \<open>try_pop\<close> returns
  the oldest value, removed, or false with nothing changed when the ring is empty.\<close>

theorem mpmc_calls_spec:
  assumes "mpmc_inv cap r" and "mpmc_can_issue cap r 1"
  shows "(\<exists>b r'. mpmc_try_push cap ws r v = Some (b, r') \<and> mpmc_inv cap r' \<and>
      (b \<longleftrightarrow> length (mpmc_items cap r) < unat cap) \<and>
      mpmc_items cap r' = (if b then mpmc_items cap r @ [v] else mpmc_items cap r) \<and> (\<not> b \<longrightarrow> r' = r)) \<and>
    (\<exists>res r'. mpmc_try_pop cap ws r = Some (res, r') \<and> mpmc_inv cap r' \<and>
      (case mpmc_items cap r of [] \<Rightarrow> res = None \<and> r' = r
       | x # xs \<Rightarrow> res = Some x \<and> mpmc_items cap r' = xs))"
  using mpmc_try_push_spec [OF assms] mpmc_try_pop_spec [OF assms(1)] by (rule conjI)

theorem mpmc_calls_spec_witness:
  "(\<exists>r'. mpmc_try_push 2 [True, True] (MpmcRing 2 (0::nat)) 7 = Some (True, r') \<and> mpmc_items 2 r' = [7]) \<and>
   mpmc_try_pop 2 [True, True] (MpmcRing 2 (0::nat)) = Some (None, MpmcRing 2 0)"
proof -
  have "mpmc_can_issue 2 (MpmcRing 2 (0::nat)) 1" by (simp add: mpmc_can_issue_def MpmcRing_def)
  from mpmc_calls_spec [OF two_slots_ok this, of "[True, True]" 7] show ?thesis
    by (auto simp: MpmcRing_items)
qed

text \<open>A burst pushed into a fresh ring by one thread and popped again comes out in order,
  truncated to the capacity, under every pattern of spurious failures.\<close>

lemma mpmc_burst_fifo:
  assumes "pow2_cap cap" and "2 \<le> unat cap" and "length xs + unat cap < 2 ^ 63"
  shows "\<exists>bs r' r''. push_many (mpmc_try_push cap ws) (MpmcRing cap d) xs = Some (bs, r') \<and>
    pop_many (mpmc_try_pop cap ws) (length xs) r' = Some (take (unat cap) xs, r'') \<and>
    mpmc_inv cap r'' \<and> mpmc_items cap r'' = []"
proof -
  have inv: "mpmc_inv cap (MpmcRing cap d)" using assms by (intro MpmcRing_inv) auto
  have "mpmc_can_issue cap (MpmcRing cap d) (length xs)"
    using assms(3) by (simp add: mpmc_can_issue_def MpmcRing_def)
  from mpmc.push_then_pop [OF inv MpmcRing_items this] show ?thesis .
qed

text \<open>One slot: the second push overwrites the first value, and the pop that follows retries for ever.\<close>

lemma mpmc_one_slot:
  "\<exists>r1 r2. mpmc_try_push 1 ws (MpmcRing 1 d) a = Some (True, r1) \<and>
      mpmc_try_push 1 ws r1 b = Some (True, r2) \<and>
      map slot_value (mpmc_slots r2) = [b] \<and>
      seq_diff (slot_sequence (mpmc_slots r2 ! 0)) (dequeue_pos r2 + 1) = Some 1 \<and>
      mpmc_try_pop 1 ws' r2 = None"
proof -
  have r0: "MpmcRing 1 d = one_slot_ring 0 0 d"
    by (simp add: MpmcRing_def one_slot_ring_def)
  have "mpmc_try_push 1 ws (MpmcRing 1 d) a = Some (True, one_slot_ring 1 1 a)"
    using one_slot_push [of ws 0 d a] by (simp add: mpmc_try_push_def r0) (simp add: one_slot_ring_def)
  moreover have "mpmc_try_push 1 ws (one_slot_ring 1 1 a) b = Some (True, one_slot_ring 2 2 b)"
    using one_slot_push [of ws 1 a b] by (simp add: mpmc_try_push_def) (simp add: one_slot_ring_def)
  moreover have "mpmc_pop_loop 1 ws' (one_slot_ring 2 2 b) 0 = None"
    using one_slot_pop_stuck [of 1 ws' "one_slot_ring 2 2 b" 0 _ 2 b]
    by (cases "mpmc_pop_loop 1 ws' (one_slot_ring 2 2 b) 0") auto
  then have "mpmc_try_pop 1 ws' (one_slot_ring 2 2 b) = None"
    by (simp add: mpmc_try_pop_def one_slot_ring_def)
  ultimately show ?thesis
    by (intro conjI exI [of _ "one_slot_ring 1 1 a"] exI [of _ "one_slot_ring 2 2 b"])
      (simp_all add: one_slot_ring_def seq_diff_def)
qed

text \<open>(C19) The capacity check accepts 0 and 1, but no such ring is a queue. With capacity 1 a second
  push succeeds and overwrites the first value, and a \<open>try_pop\<close> that follows never returns, because
  the sequence number stays ahead of the cursor (difference 1) at every retry. With capacity 0 every
  call indexes an empty array.\<close>

theorem mpmc_small_capacity_broken:
  "capacity_assert 1 \<and>
   (\<exists>r1 r2. mpmc_try_push 1 ws (MpmcRing 1 d) a = Some (True, r1) \<and>
      mpmc_try_push 1 ws r1 b = Some (True, r2) \<and>
      map slot_value (mpmc_slots r2) = [b] \<and>
      seq_diff (slot_sequence (mpmc_slots r2 ! 0)) (dequeue_pos r2 + 1) = Some 1 \<and>
      mpmc_try_pop 1 ws' r2 = None) \<and>
   capacity_assert 0 \<and> mpmc_try_push 0 ws (MpmcRing 0 d) a = None \<and>
   mpmc_try_pop 0 ws (MpmcRing 0 d) = None"
proof (intro conjI mpmc_one_slot)
  show "mpmc_try_push 0 ws (MpmcRing 0 d) a = None" "mpmc_try_pop 0 ws (MpmcRing 0 d) = None"
    by (simp_all add: mpmc_try_push_def mpmc_try_pop_def mpmc_push_loop.simps mpmc_pop_loop.simps MpmcRing_def)
qed (simp_all add: capacity_assert_def)

end
