(* ===== verification/Ring_Equivalence.thy ===== *)
theory Ring_Equivalence
  imports Spsc_Ring Mpmc_Ring
begin

text \<open>
  The two rings are interchangeable as the queue of the engine: used from one thread, any sequence
  of calls gives the same results on a \<open>SpscRing\<close> and a \<open>MpmcRing\<close> of the same capacity. Both are
  compared with \<open>list_run\<close>, through their interpretations of \<open>bounded_queue\<close>.
\<close>

definition spsc_run :: "size_t \<Rightarrow> 'a queue_call list \<Rightarrow> 'a spsc_ring \<Rightarrow> ('a queue_return list \<times> 'a spsc_ring) option" where
  "spsc_run cap = queue_run (\<lambda>q x. Some (spsc_try_push cap q x)) (\<lambda>q. Some (spsc_try_pop cap q))"

definition mpmc_run :: "size_t \<Rightarrow> bool list \<Rightarrow> 'a queue_call list \<Rightarrow> 'a mpmc_ring \<Rightarrow> ('a queue_return list \<times> 'a mpmc_ring) option" where
  "mpmc_run cap ws = queue_run (mpmc_try_push cap ws) (mpmc_try_pop cap ws)"

lemma spsc_run_list:
  assumes "spsc_inv cap q"
  shows "map_option fst (spsc_run cap cs q) = Some (fst (list_run (unat cap) cs (spsc_items cap q)))"
  using spsc.queue_run_list [OF assms, of cs] by (auto simp: spsc_run_def)

lemma mpmc_run_list:
  assumes "mpmc_inv cap q" and "mpmc_can_issue cap q (length cs)"
  shows "map_option fst (mpmc_run cap ws cs q) = Some (fst (list_run (unat cap) cs (mpmc_items cap q)))"
  using mpmc.queue_run_list [OF assms] by (auto simp: mpmc_run_def)

text \<open>(C8) From one thread the two rings cannot be told apart: every sequence of \<open>try_push\<close> and
  \<open>try_pop\<close> calls returns the same results on a fresh \<open>SpscRing\<close> and on a fresh \<open>MpmcRing\<close>, namely
  those of a list cut off at the capacity, as long as the sequence is shorter than the signed range
  of the counters of \<open>MpmcRing\<close>, and under every pattern of spurious failures.\<close>

theorem rings_equivalent:
  assumes "pow2_cap cap" and "2 \<le> unat cap" and "length cs + unat cap < 2 ^ 63"
  shows "map_option fst (spsc_run cap cs (SpscRing cap d)) = Some (fst (list_run (unat cap) cs [])) \<and>
    map_option fst (mpmc_run cap ws cs (MpmcRing cap e)) = Some (fst (list_run (unat cap) cs []))"
proof -
  have "mpmc_inv cap (MpmcRing cap e)" using assms by (intro MpmcRing_inv) auto
  moreover have "mpmc_can_issue cap (MpmcRing cap e) (length cs)"
    using assms(3) by (simp add: mpmc_can_issue_def MpmcRing_def)
  ultimately have "map_option fst (mpmc_run cap ws cs (MpmcRing cap e)) = Some (fst (list_run (unat cap) cs []))"
    by (simp add: mpmc_run_list MpmcRing_items)
  with spsc_run_list [OF SpscRing_inv [OF assms(1)], of cs d]
  show ?thesis by (simp add: SpscRing_items)
qed

theorem rings_equivalent_witness:
  "map_option fst (mpmc_run 2 [True] [Call_push 1, Call_push 2, Call_push 3, Call_pop] (MpmcRing 2 (0 :: nat))) =
     Some [Ret_push True, Ret_push True, Ret_push False, Ret_pop (Some 1)] \<and>
   map_option fst (spsc_run 2 [Call_push 1, Call_push 2, Call_push 3, Call_pop] (SpscRing 2 (0 :: nat))) =
     Some [Ret_push True, Ret_push True, Ret_push False, Ret_pop (Some 1)]"
  using rings_equivalent [of 2 "[Call_push 1, Call_push 2, Call_push 3, Call_pop]" "0 :: nat" "[True]" 0]
  by (simp add: pow2_cap_def capacity_assert_def)

end
