(* ===== verification/Mpmc_Threads.thy ===== *)
theory Mpmc_Threads
  imports Mpmc_Ring "HOL-Library.Multiset"
begin

text \<open>
  \<open>MpmcRing\<close> under any number of concurrent callers: \<open>try_push\<close> and \<open>try_pop\<close> split
  at their atomic accesses, one program counter per thread. Loads may be out of date: a load of
  a cursor or of a sequence number, all of which only grow, may return any smaller value, and a
  failed \<open>compare_exchange_weak\<close> (spurious or not) reloads the cursor the same way. Only a
  successful exchange is known to have seen the newest cursor. Results are stated for runs of
  fewer than \<open>2 ^ 63 - Capacity\<close> pushes, where the signed difference of the source is
  defined.
\<close>

section \<open>The step relation\<close>

datatype 'a mpmc_pc =
    M_idle
  | M_push_load 'a
  | M_push_seq 'a size_t
  | M_push_cas 'a size_t
  | M_push_write 'a size_t
  | M_push_publish 'a size_t
  | M_pop_load
  | M_pop_seq size_t
  | M_pop_cas size_t
  | M_pop_read size_t
  | M_pop_publish size_t 'a

text \<open>\<open>hist\<close> lists the values of the successful enqueue exchanges, so the value of ticket
  \<open>t\<close> is \<open>hist ! t\<close>; \<open>taken\<close> counts the successful dequeue exchanges; \<open>got\<close>
  records ticket and value of every pop that returned true. All three are auxiliary.\<close>

record 'a mpmc_sys =
  m_ring :: "'a mpmc_ring"
  m_pcs :: "nat \<Rightarrow> 'a mpmc_pc"
  m_hist :: "'a list"
  m_taken :: nat
  m_got :: "(nat \<times> 'a) list"

definition set_pc :: "nat \<Rightarrow> 'a mpmc_pc \<Rightarrow> 'a mpmc_sys \<Rightarrow> 'a mpmc_sys" where
  "set_pc p pc s = s\<lparr>m_pcs := (m_pcs s)(p := pc)\<rparr>"

definition put_slot :: "size_t \<Rightarrow> size_t \<Rightarrow> 'a slot \<Rightarrow> 'a mpmc_ring \<Rightarrow> 'a mpmc_ring" where
  "put_slot cap pos x r = r\<lparr>mpmc_slots := (mpmc_slots r)[unat (pos AND kMask cap) := x]\<rparr>"

definition get_slot :: "size_t \<Rightarrow> size_t \<Rightarrow> 'a mpmc_ring \<Rightarrow> 'a slot" where
  "get_slot cap pos r = mpmc_slots r ! unat (pos AND kMask cap)"

definition mpmc_start :: "size_t \<Rightarrow> 'a mpmc_sys \<Rightarrow> bool" where
  "mpmc_start cap s \<longleftrightarrow> pow2_cap cap \<and> 2 \<le> unat cap \<and> (\<exists>d. s =
     \<lparr>m_ring = MpmcRing cap d, m_pcs = (\<lambda>_. M_idle), m_hist = [], m_taken = 0, m_got = []\<rparr>)"

inductive mpmc_step :: "size_t \<Rightarrow> 'a mpmc_sys \<Rightarrow> 'a mpmc_sys \<Rightarrow> bool" for cap :: size_t where
  m_push_call: "m_pcs s p = M_idle \<Longrightarrow> mpmc_step cap s (set_pc p (M_push_load v) s)"
| m_push_load: "m_pcs s p = M_push_load v \<Longrightarrow> pos \<le> enqueue_pos (m_ring s) \<Longrightarrow>
    mpmc_step cap s (set_pc p (M_push_seq v pos) s)"
| m_push_claimable: "m_pcs s p = M_push_seq v pos \<Longrightarrow>
    sq \<le> slot_sequence (get_slot cap pos (m_ring s)) \<Longrightarrow> seq_diff sq pos = Some 0 \<Longrightarrow>
    mpmc_step cap s (set_pc p (M_push_cas v pos) s)"
| m_push_full: "m_pcs s p = M_push_seq v pos \<Longrightarrow>
    sq \<le> slot_sequence (get_slot cap pos (m_ring s)) \<Longrightarrow> seq_diff sq pos = Some d \<Longrightarrow> d < 0 \<Longrightarrow>
    mpmc_step cap s (set_pc p M_idle s)"
| m_push_retry: "m_pcs s p = M_push_seq v pos \<Longrightarrow>
    sq \<le> slot_sequence (get_slot cap pos (m_ring s)) \<Longrightarrow> seq_diff sq pos = Some d \<Longrightarrow> d > 0 \<Longrightarrow>
    mpmc_step cap s (set_pc p (M_push_load v) s)"
| m_push_cas_fail: "m_pcs s p = M_push_cas v pos \<Longrightarrow> pos' \<le> enqueue_pos (m_ring s) \<Longrightarrow>
    mpmc_step cap s (set_pc p (M_push_seq v pos') s)"
| m_push_cas_ok: "m_pcs s p = M_push_cas v pos \<Longrightarrow> enqueue_pos (m_ring s) = pos \<Longrightarrow>
    mpmc_step cap s (set_pc p (M_push_write v pos)
      (s\<lparr>m_ring := (m_ring s)\<lparr>enqueue_pos := pos + 1\<rparr>, m_hist := m_hist s @ [v]\<rparr>))"
| m_push_write: "m_pcs s p = M_push_write v pos \<Longrightarrow>
    mpmc_step cap s (set_pc p (M_push_publish v pos)
      (s\<lparr>m_ring := put_slot cap pos ((get_slot cap pos (m_ring s))\<lparr>slot_value := v\<rparr>) (m_ring s)\<rparr>))"
| m_push_publish: "m_pcs s p = M_push_publish v pos \<Longrightarrow>
    mpmc_step cap s (set_pc p M_idle
      (s\<lparr>m_ring := put_slot cap pos ((get_slot cap pos (m_ring s))\<lparr>slot_sequence := pos + 1\<rparr>) (m_ring s)\<rparr>))"
| m_pop_call: "m_pcs s p = M_idle \<Longrightarrow> mpmc_step cap s (set_pc p M_pop_load s)"
| m_pop_load: "m_pcs s p = M_pop_load \<Longrightarrow> pos \<le> dequeue_pos (m_ring s) \<Longrightarrow>
    mpmc_step cap s (set_pc p (M_pop_seq pos) s)"
| m_pop_claimable: "m_pcs s p = M_pop_seq pos \<Longrightarrow>
    sq \<le> slot_sequence (get_slot cap pos (m_ring s)) \<Longrightarrow> seq_diff sq (pos + 1) = Some 0 \<Longrightarrow>
    mpmc_step cap s (set_pc p (M_pop_cas pos) s)"
| m_pop_empty: "m_pcs s p = M_pop_seq pos \<Longrightarrow>
    sq \<le> slot_sequence (get_slot cap pos (m_ring s)) \<Longrightarrow> seq_diff sq (pos + 1) = Some d \<Longrightarrow> d < 0 \<Longrightarrow>
    mpmc_step cap s (set_pc p M_idle s)"
| m_pop_retry: "m_pcs s p = M_pop_seq pos \<Longrightarrow>
    sq \<le> slot_sequence (get_slot cap pos (m_ring s)) \<Longrightarrow> seq_diff sq (pos + 1) = Some d \<Longrightarrow> d > 0 \<Longrightarrow>
    mpmc_step cap s (set_pc p M_pop_load s)"
| m_pop_cas_fail: "m_pcs s p = M_pop_cas pos \<Longrightarrow> pos' \<le> dequeue_pos (m_ring s) \<Longrightarrow>
    mpmc_step cap s (set_pc p (M_pop_seq pos') s)"
| m_pop_cas_ok: "m_pcs s p = M_pop_cas pos \<Longrightarrow> dequeue_pos (m_ring s) = pos \<Longrightarrow>
    mpmc_step cap s (set_pc p (M_pop_read pos)
      (s\<lparr>m_ring := (m_ring s)\<lparr>dequeue_pos := pos + 1\<rparr>, m_taken := m_taken s + 1\<rparr>))"
| m_pop_read: "m_pcs s p = M_pop_read pos \<Longrightarrow>
    mpmc_step cap s (set_pc p (M_pop_publish pos (slot_value (get_slot cap pos (m_ring s)))) s)"
| m_pop_publish: "m_pcs s p = M_pop_publish pos out \<Longrightarrow>
    mpmc_step cap s (set_pc p M_idle
      (s\<lparr>m_ring := put_slot cap pos ((get_slot cap pos (m_ring s))\<lparr>slot_sequence := pos + cap\<rparr>) (m_ring s),
         m_got := m_got s @ [(unat pos, out)]\<rparr>))"

section \<open>The invariant\<close>

text \<open>The life of a ticket: not yet claimed, claimed by a writer, published, claimed by a
  reader, handed on to the ticket one capacity later.\<close>

datatype phase = Fresh | Writing nat | Ready | Reading nat | Released

fun w_claim :: "'a mpmc_pc \<Rightarrow> nat option" where
  "w_claim (M_push_write v pos) = Some (unat pos)"
| "w_claim (M_push_publish v pos) = Some (unat pos)"
| "w_claim _ = None"

fun r_claim :: "'a mpmc_pc \<Rightarrow> nat option" where
  "r_claim (M_pop_read pos) = Some (unat pos)"
| "r_claim (M_pop_publish pos out) = Some (unat pos)"
| "r_claim _ = None"

definition m_seq :: "size_t \<Rightarrow> 'a mpmc_sys \<Rightarrow> nat \<Rightarrow> nat" where
  "m_seq cap s t = seq_at cap (m_ring s) t"

definition m_val :: "size_t \<Rightarrow> 'a mpmc_sys \<Rightarrow> nat \<Rightarrow> 'a" where
  "m_val cap s t = slot_value (slot_at cap (m_ring s) t)"

definition cursors_ok :: "size_t \<Rightarrow> 'a mpmc_sys \<Rightarrow> bool" where
  "cursors_ok cap s \<longleftrightarrow> mpmc_shape cap (m_ring s) \<and>
     unat (enqueue_pos (m_ring s)) = length (m_hist s) \<and>
     unat (dequeue_pos (m_ring s)) = m_taken s \<and> m_taken s \<le> length (m_hist s)"

definition phases_ok :: "size_t \<Rightarrow> (nat \<Rightarrow> phase) \<Rightarrow> 'a mpmc_sys \<Rightarrow> bool" where
  "phases_ok cap ph s \<longleftrightarrow>
     (\<forall>t. ph t = Fresh \<longleftrightarrow> length (m_hist s) \<le> t) \<and>
     (\<forall>t. ph t = Released \<or> (\<exists>p. ph t = Reading p) \<longleftrightarrow> t < m_taken s) \<and>
     (\<forall>t. t + unat cap < length (m_hist s) \<longrightarrow> ph t = Released)"

fun phase_seq :: "nat \<Rightarrow> nat \<Rightarrow> phase \<Rightarrow> nat" where
  "phase_seq c t Fresh = t"
| "phase_seq c t (Writing p) = t"
| "phase_seq c t Ready = t + 1"
| "phase_seq c t (Reading p) = t + 1"
| "phase_seq c t Released = t + c"

definition slots_ok :: "size_t \<Rightarrow> (nat \<Rightarrow> phase) \<Rightarrow> 'a mpmc_sys \<Rightarrow> bool" where
  "slots_ok cap ph s \<longleftrightarrow>
     (\<forall>t. t < length (m_hist s) \<longrightarrow> length (m_hist s) \<le> t + unat cap \<longrightarrow>
        m_seq cap s t = phase_seq (unat cap) t (ph t)) \<and>
     (\<forall>t. length (m_hist s) \<le> t \<longrightarrow> t < unat cap \<longrightarrow> m_seq cap s t = t) \<and>
     (\<forall>t. ph t = Ready \<or> (\<exists>p. ph t = Reading p) \<longrightarrow> m_val cap s t = m_hist s ! t)"

definition owners_ok :: "(nat \<Rightarrow> phase) \<Rightarrow> 'a mpmc_sys \<Rightarrow> bool" where
  "owners_ok ph s \<longleftrightarrow>
     (\<forall>t p. ph t = Writing p \<longleftrightarrow> w_claim (m_pcs s p) = Some t) \<and>
     (\<forall>t p. ph t = Reading p \<longleftrightarrow> r_claim (m_pcs s p) = Some t)"

fun pc_ok :: "size_t \<Rightarrow> 'a mpmc_sys \<Rightarrow> 'a mpmc_pc \<Rightarrow> bool" where
  "pc_ok cap s (M_push_seq v pos) \<longleftrightarrow> unat pos \<le> length (m_hist s)"
| "pc_ok cap s (M_push_cas v pos) \<longleftrightarrow> unat pos \<le> length (m_hist s) \<and> unat pos \<le> m_seq cap s (unat pos)"
| "pc_ok cap s (M_push_write v pos) \<longleftrightarrow> m_hist s ! unat pos = v"
| "pc_ok cap s (M_push_publish v pos) \<longleftrightarrow> m_hist s ! unat pos = v \<and> m_val cap s (unat pos) = v"
| "pc_ok cap s (M_pop_seq pos) \<longleftrightarrow> unat pos \<le> m_taken s"
| "pc_ok cap s (M_pop_cas pos) \<longleftrightarrow> unat pos \<le> m_taken s \<and> unat pos + 1 \<le> m_seq cap s (unat pos)"
| "pc_ok cap s (M_pop_publish pos out) \<longleftrightarrow> m_hist s ! unat pos = out"
| "pc_ok cap s _ \<longleftrightarrow> True"

definition got_ok :: "(nat \<Rightarrow> phase) \<Rightarrow> 'a mpmc_sys \<Rightarrow> bool" where
  "got_ok ph s \<longleftrightarrow> distinct (map fst (m_got s)) \<and>
     (\<forall>t. t \<in> fst ` set (m_got s) \<longleftrightarrow> ph t = Released) \<and>
     (\<forall>(t, x) \<in> set (m_got s). x = m_hist s ! t)"

definition mpmc_sys_inv :: "size_t \<Rightarrow> (nat \<Rightarrow> phase) \<Rightarrow> 'a mpmc_sys \<Rightarrow> bool" where
  "mpmc_sys_inv cap ph s \<longleftrightarrow> cursors_ok cap s \<and> phases_ok cap ph s \<and> slots_ok cap ph s \<and>
     owners_ok ph s \<and> (\<forall>p. pc_ok cap s (m_pcs s p)) \<and> got_ok ph s"

definition in_range :: "size_t \<Rightarrow> 'a mpmc_sys \<Rightarrow> bool" where
  "in_range cap s \<longleftrightarrow> length (m_hist s) + unat cap < 2 ^ 63"

section \<open>Frame facts\<close>

lemma slot_at_cursors [simp]:
  "slot_at cap (r\<lparr>enqueue_pos := e\<rparr>) t = slot_at cap r t"
  "slot_at cap (r\<lparr>dequeue_pos := e\<rparr>) t = slot_at cap r t"
  by (simp_all add: slot_at_def)

lemma set_pc_simps [simp]:
  "m_ring (set_pc p pc s) = m_ring s" "m_hist (set_pc p pc s) = m_hist s"
  "m_taken (set_pc p pc s) = m_taken s" "m_got (set_pc p pc s) = m_got s"
  "m_pcs (set_pc p pc s) = (m_pcs s)(p := pc)"
  by (simp_all add: set_pc_def)

lemma m_seq_set_pc [simp]: "m_seq cap (set_pc p pc s) = m_seq cap s"
  and m_val_set_pc [simp]: "m_val cap (set_pc p pc s) = m_val cap s"
  by (simp_all add: m_seq_def m_val_def fun_eq_iff)

lemma pc_ok_set_pc [simp]: "pc_ok cap (set_pc p pc s) x = pc_ok cap s x"
  by (cases x) simp_all

lemma inv_set_pc:
  assumes "mpmc_sys_inv cap ph s" and "pc_ok cap s pc"
    and "w_claim pc = w_claim (m_pcs s p)" and "r_claim pc = r_claim (m_pcs s p)"
  shows "mpmc_sys_inv cap ph (set_pc p pc s)"
  using assms
  by (auto simp: mpmc_sys_inv_def cursors_ok_def phases_ok_def slots_ok_def owners_ok_def got_ok_def)

lemma get_slot_eq:
  "mpmc_shape cap r \<Longrightarrow> get_slot cap pos r = slot_at cap r (unat pos)"
  by (simp add: get_slot_def slot_at_def mpmc_index)

lemma slot_at_mod: "t mod unat cap = t' mod unat cap \<Longrightarrow> slot_at cap r t = slot_at cap r t'"
  by (simp add: slot_at_def)

lemma put_slot_at:
  assumes "mpmc_shape cap r"
  shows "slot_at cap (put_slot cap pos x r) t =
    (if t mod unat cap = unat pos mod unat cap then x else slot_at cap r t)"
  using mpmc_shape_len [OF assms] mpmc_index(1) [OF assms, of pos]
  by (simp add: put_slot_def slot_at_update(3))

lemma put_slot_shape:
  "mpmc_shape cap (put_slot cap pos x r) = mpmc_shape cap r"
  "enqueue_pos (put_slot cap pos x r) = enqueue_pos r"
  "dequeue_pos (put_slot cap pos x r) = dequeue_pos r"
  by (simp_all add: put_slot_def mpmc_shape_def)

lemma inv_bounds:
  assumes "mpmc_sys_inv cap ph s"
  shows "2 \<le> unat cap" and "length (m_hist s) + unat cap < 2 ^ 63"
    and "m_taken s \<le> length (m_hist s)" and "length (m_hist s) \<le> m_taken s + unat cap"
proof -
  show "2 \<le> unat cap" "length (m_hist s) + unat cap < 2 ^ 63" "m_taken s \<le> length (m_hist s)"
    using assms by (auto simp: mpmc_sys_inv_def cursors_ok_def mpmc_shape_def)
  show "length (m_hist s) \<le> m_taken s + unat cap"
  proof (rule ccontr)
    assume "\<not> ?thesis"
    then have "ph (m_taken s) = Released"
      using assms by (auto simp: mpmc_sys_inv_def phases_ok_def)
    then show False using assms by (auto simp: mpmc_sys_inv_def phases_ok_def)
  qed
qed

lemma m_seq_wrap: "m_seq cap s (t + unat cap) = m_seq cap s t"
  by (simp add: m_seq_def slot_at_def)

text \<open>The slot of the next ticket: never further than that ticket.\<close>

lemma next_slot:
  assumes inv: "mpmc_sys_inv cap ph s"
  defines "E \<equiv> length (m_hist s)"
  shows "m_seq cap s E \<le> E"
    and "m_seq cap s E = E \<Longrightarrow> unat cap \<le> E \<Longrightarrow> ph (E - unat cap) = Released"
proof -
  have "m_seq cap s E \<le> E \<and> (m_seq cap s E = E \<longrightarrow> unat cap \<le> E \<longrightarrow> ph (E - unat cap) = Released)"
  proof (cases "E < unat cap")
    case True
    then show ?thesis using inv by (auto simp: mpmc_sys_inv_def slots_ok_def E_def)
  next
    case False
    let ?t = "E - unat cap"
    have t: "?t < E" "E \<le> ?t + unat cap" "?t + unat cap = E" "?t + 1 < E"
      using False inv_bounds(1) [OF inv] by auto
    have eq: "m_seq cap s E = phase_seq (unat cap) ?t (ph ?t)"
      using inv t m_seq_wrap [of cap s ?t] by (auto simp: mpmc_sys_inv_def slots_ok_def E_def)
    have nf: "ph ?t \<noteq> Fresh" using inv t(1) by (auto simp: mpmc_sys_inv_def phases_ok_def E_def)
    show ?thesis using eq t nf by (cases "ph ?t") auto
  qed
  then show "m_seq cap s E \<le> E"
    and "m_seq cap s E = E \<Longrightarrow> unat cap \<le> E \<Longrightarrow> ph (E - unat cap) = Released" by auto
qed

text \<open>Tickets that are claimed or published, but not released, lie in one window of
  \<open>Capacity\<close> tickets and so own different slots.\<close>

lemma live_ticket:
  assumes "mpmc_sys_inv cap ph s" and "ph t \<noteq> Fresh" and "ph t \<noteq> Released"
  shows "t < length (m_hist s)" and "length (m_hist s) \<le> t + unat cap"
proof -
  show "t < length (m_hist s)"
    using assms by (auto simp: mpmc_sys_inv_def phases_ok_def not_le)
  show "length (m_hist s) \<le> t + unat cap"
    using assms by (intro leI) (auto simp: mpmc_sys_inv_def phases_ok_def)
qed

lemma live_slots_differ:
  assumes "mpmc_sys_inv cap ph s" and "ph t \<noteq> Fresh" and "ph t \<noteq> Released"
    and "t' < length (m_hist s)" and "length (m_hist s) \<le> t' + unat cap" and "t \<noteq> t'"
  shows "t' mod unat cap \<noteq> t mod unat cap"
  using live_ticket [OF assms(1-3)] assms(4-6) mod_window_neq [of t t' "unat cap"]
    mod_window_neq [of t' t "unat cap"] by (auto simp: neq_iff)

lemma unused_slots_differ:
  assumes "mpmc_sys_inv cap ph s" and "ph t \<noteq> Fresh"
    and "length (m_hist s) \<le> t'" and "t' < unat cap"
  shows "t' mod unat cap \<noteq> t mod unat cap"
proof -
  have "t < length (m_hist s)" using assms by (auto simp: mpmc_sys_inv_def phases_ok_def not_le)
  with assms(3,4) show ?thesis by simp
qed

lemma claim_phase:
  assumes "mpmc_sys_inv cap ph s"
  shows "w_claim (m_pcs s p) = Some t \<Longrightarrow> ph t = Writing p"
    and "r_claim (m_pcs s p) = Some t \<Longrightarrow> ph t = Reading p"
  using assms by (auto simp: mpmc_sys_inv_def owners_ok_def)

lemma claim_unique:
  assumes "mpmc_sys_inv cap ph s"
  shows "ph t = Writing p \<Longrightarrow> w_claim (m_pcs s q) = Some t \<Longrightarrow> q = p"
    and "ph t = Writing p \<Longrightarrow> r_claim (m_pcs s q) \<noteq> Some t"
    and "ph t = Reading p \<Longrightarrow> r_claim (m_pcs s q) = Some t \<Longrightarrow> q = p"
    and "ph t = Reading p \<Longrightarrow> w_claim (m_pcs s q) \<noteq> Some t"
  using claim_phase [OF assms, of q t] by auto

lemma unread_phase:
  assumes "mpmc_sys_inv cap ph s" and "ph t = Writing p \<or> ph t = Ready"
  shows "\<not> t < m_taken s"
proof
  assume "t < m_taken s"
  then have "ph t = Released \<or> (\<exists>p. ph t = Reading p)"
    using assms(1) by (simp add: mpmc_sys_inv_def phases_ok_def)
  with assms(2) show False by auto
qed

lemma claim_lt:
  assumes "mpmc_sys_inv cap ph s" and "w_claim (m_pcs s q) = Some t \<or> r_claim (m_pcs s q) = Some t"
  shows "t < length (m_hist s)"
  using assms claim_phase [OF assms(1), of q t] live_ticket(1) [OF assms(1), of t] by auto

lemma got_lt:
  assumes "mpmc_sys_inv cap ph s" and "t \<in> fst ` set (m_got s)"
  shows "t < m_taken s" and "t < length (m_hist s)"
proof -
  have "ph t = Released" using assms by (auto simp: mpmc_sys_inv_def got_ok_def)
  then show "t < m_taken s" using assms(1) by (auto simp: mpmc_sys_inv_def phases_ok_def)
  then show "t < length (m_hist s)" using inv_bounds(3) [OF assms(1)] by simp
qed

lemma inv_pc: "mpmc_sys_inv cap ph s \<Longrightarrow> pc_ok cap s (m_pcs s p)"
  by (simp add: mpmc_sys_inv_def)

lemma inv_shape: "mpmc_sys_inv cap ph s \<Longrightarrow> mpmc_shape cap (m_ring s)"
  by (simp add: mpmc_sys_inv_def cursors_ok_def)

section \<open>Steps that change the ring\<close>

lemma step_push_cas_ok:
  assumes inv: "mpmc_sys_inv cap ph s" and pc: "m_pcs s p = M_push_cas v pos"
    and cur: "enqueue_pos (m_ring s) = pos" and rng: "length (m_hist s) + 1 + unat cap < 2 ^ 63"
  defines "E \<equiv> length (m_hist s)"
  defines "s' \<equiv> set_pc p (M_push_write v pos)
      (s\<lparr>m_ring := (m_ring s)\<lparr>enqueue_pos := pos + 1\<rparr>, m_hist := m_hist s @ [v]\<rparr>)"
  shows "mpmc_sys_inv cap (ph(E := Writing p)) s'"
proof -
  have pos: "unat pos = E" using inv cur by (auto simp: mpmc_sys_inv_def cursors_ok_def E_def)
  have suc: "unat (pos + 1) = E + 1" using rng pos by (subst unat_suc_small) (simp_all add: E_def)
  have sq: "m_seq cap s E = E"
    using next_slot(1) [OF inv] inv_pc [OF inv, of p] pos by (simp add: pc E_def)
  have fr: "ph E = Fresh" and notaken: "\<not> E < m_taken s"
    using inv by (auto simp: mpmc_sys_inv_def phases_ok_def cursors_ok_def E_def)
  have fields: "m_seq cap s' = m_seq cap s" "m_val cap s' = m_val cap s"
    "m_hist s' = m_hist s @ [v]" "m_taken s' = m_taken s" "m_got s' = m_got s"
    "m_pcs s' = (m_pcs s)(p := M_push_write v pos)" "m_ring s' = (m_ring s)\<lparr>enqueue_pos := pos + 1\<rparr>"
    by (simp_all add: s'_def m_seq_def m_val_def fun_eq_iff)
  have 1: "cursors_ok cap s'"
    using inv rng suc by (auto simp: mpmc_sys_inv_def cursors_ok_def mpmc_shape_def fields E_def)
  have old: "ph t = Released" if "t + unat cap < E + 1" for t
  proof (cases "t + unat cap = E")
    case True
    then have "t = E - unat cap" "unat cap \<le> E" by auto
    then show ?thesis using next_slot(2) [OF inv] sq by (simp add: E_def)
  qed (use that inv in \<open>auto simp: mpmc_sys_inv_def phases_ok_def E_def\<close>)
  have 2: "phases_ok cap (ph(E := Writing p)) s'"
    using inv old fr notaken inv_bounds(1) [OF inv]
    by (auto simp: mpmc_sys_inv_def phases_ok_def fields E_def)
  have hist: "(m_hist s @ [v]) ! t = m_hist s ! t" if "ph t = Ready \<or> (\<exists>q. ph t = Reading q)" for t
    using live_ticket(1) [OF inv, of t] that by (auto simp: nth_append)
  have 3: "slots_ok cap (ph(E := Writing p)) s'"
    using inv sq hist by (auto simp: mpmc_sys_inv_def slots_ok_def fields E_def)
  have noE: "w_claim (m_pcs s q) \<noteq> Some E" "r_claim (m_pcs s q) \<noteq> Some E" for q
    using claim_phase [OF inv, of q E] fr by auto
  have 4: "owners_ok (ph(E := Writing p)) s'"
    using inv noE pos by (auto simp: mpmc_sys_inv_def owners_ok_def fields pc)
  have "pc_ok cap s' (m_pcs s q)" for q
    using inv_pc [OF inv, of q] claim_lt [OF inv, of q]
    by (cases "m_pcs s q") (auto simp: fields nth_append)
  then have 5: "\<forall>q. pc_ok cap s' (m_pcs s' q)" using pos by (auto simp: fields E_def)
  have 6: "got_ok (ph(E := Writing p)) s'"
    using inv fr got_lt(2) [OF inv] by (force simp: mpmc_sys_inv_def got_ok_def fields nth_append E_def)
  from 1 2 3 4 5 6 show ?thesis by (simp add: mpmc_sys_inv_def)
qed

lemma step_push_write:
  assumes inv: "mpmc_sys_inv cap ph s" and pc: "m_pcs s p = M_push_write v pos"
  defines "s' \<equiv> set_pc p (M_push_publish v pos)
      (s\<lparr>m_ring := put_slot cap pos ((get_slot cap pos (m_ring s))\<lparr>slot_value := v\<rparr>) (m_ring s)\<rparr>)"
  shows "mpmc_sys_inv cap ph s'"
proof -
  let ?t = "unat pos"
  note sh = inv_shape [OF inv]
  have ph: "ph ?t = Writing p" using claim_phase(1) [OF inv, of p ?t] by (simp add: pc)
  have seqs: "m_seq cap s' = m_seq cap s"
    by (auto simp: s'_def m_seq_def put_slot_at [OF sh] get_slot_eq [OF sh] fun_eq_iff) (metis slot_at_mod)
  have vals: "m_val cap s' t = (if t mod unat cap = ?t mod unat cap then v else m_val cap s t)" for t
    by (auto simp: s'_def m_val_def put_slot_at [OF sh])
  have fields: "m_hist s' = m_hist s" "m_taken s' = m_taken s" "m_got s' = m_got s"
    "m_pcs s' = (m_pcs s)(p := M_push_publish v pos)"
    by (simp_all add: s'_def)
  have 1: "cursors_ok cap s'"
    using inv by (auto simp: mpmc_sys_inv_def cursors_ok_def s'_def put_slot_shape)
  have keep: "m_val cap s' t = m_val cap s t" if "ph t \<noteq> Fresh" "ph t \<noteq> Released" "t \<noteq> ?t" for t
    using live_slots_differ [OF inv, of ?t t] live_ticket [OF inv that(1,2)] that(3) ph
    by (simp add: vals)
  have "m_val cap s' t = m_hist s ! t" if "ph t = Ready \<or> (\<exists>q. ph t = Reading q)" for t
    using that keep [of t] ph inv by (cases "t = ?t") (auto simp: mpmc_sys_inv_def slots_ok_def)
  then have 3: "slots_ok cap ph s'"
    using inv by (auto simp: mpmc_sys_inv_def slots_ok_def fields seqs)
  have keep': "m_val cap s' t = m_val cap s t" if "q \<noteq> p" "w_claim (m_pcs s q) = Some t" for q t
    using claim_phase(1) [OF inv that(2)] ph that(1) by (intro keep) auto
  have "pc_ok cap s' (m_pcs s q)" if "q \<noteq> p" for q
    using inv_pc [OF inv, of q] keep' [OF that] by (cases "m_pcs s q") (simp_all add: fields seqs)
  then have 5: "\<forall>q. pc_ok cap s' (m_pcs s' q)"
    using inv_pc [OF inv, of p] by (auto simp: fields vals pc)
  have 4: "owners_ok ph s'" and 2: "phases_ok cap ph s'" and 6: "got_ok ph s'"
    using inv by (auto simp: mpmc_sys_inv_def owners_ok_def phases_ok_def got_ok_def fields pc)
  from 1 2 3 4 5 6 show ?thesis by (simp add: mpmc_sys_inv_def)
qed

text \<open>Storing a new sequence number for a live ticket moves no other ticket's slot.\<close>

lemma store_seq:
  fixes q pos cap :: size_t
  assumes inv: "mpmc_sys_inv cap ph s" and live: "ph (unat pos) \<noteq> Fresh" "ph (unat pos) \<noteq> Released"
  defines "r' \<equiv> put_slot cap pos ((get_slot cap pos (m_ring s))\<lparr>slot_sequence := q\<rparr>) (m_ring s)"
  shows "slot_value (slot_at cap r' t) = slot_value (slot_at cap (m_ring s) t)"
    and "seq_at cap r' t = (if t mod unat cap = unat pos mod unat cap then unat q else m_seq cap s t)"
    and "t < length (m_hist s) \<Longrightarrow> length (m_hist s) \<le> t + unat cap \<Longrightarrow>
      seq_at cap r' t = (if t = unat pos then unat q else m_seq cap s t)"
    and "length (m_hist s) \<le> t \<Longrightarrow> t < unat cap \<Longrightarrow> seq_at cap r' t = m_seq cap s t"
proof -
  note sh = inv_shape [OF inv]
  show "slot_value (slot_at cap r' t) = slot_value (slot_at cap (m_ring s) t)"
    by (auto simp: r'_def put_slot_at [OF sh] get_slot_eq [OF sh]) (metis slot_at_mod)
  show seq: "seq_at cap r' t = (if t mod unat cap = unat pos mod unat cap then unat q else m_seq cap s t)"
    by (simp add: r'_def put_slot_at [OF sh] m_seq_def)
  show "t < length (m_hist s) \<Longrightarrow> length (m_hist s) \<le> t + unat cap \<Longrightarrow>
      seq_at cap r' t = (if t = unat pos then unat q else m_seq cap s t)"
    using live_slots_differ [OF inv live, of t] seq by auto
  show "length (m_hist s) \<le> t \<Longrightarrow> t < unat cap \<Longrightarrow> seq_at cap r' t = m_seq cap s t"
    using unused_slots_differ [OF inv live(1), of t] seq by auto
qed

lemma store_seq_grows:
  fixes q pos cap :: size_t
  assumes inv: "mpmc_sys_inv cap ph s" and live: "ph (unat pos) \<noteq> Fresh" "ph (unat pos) \<noteq> Released"
    and up: "m_seq cap s (unat pos) \<le> unat q"
  shows "m_seq cap s t \<le>
    seq_at cap (put_slot cap pos ((get_slot cap pos (m_ring s))\<lparr>slot_sequence := q\<rparr>) (m_ring s)) t"
proof -
  have "m_seq cap s t = m_seq cap s (unat pos)" if "t mod unat cap = unat pos mod unat cap"
    using that by (simp add: m_seq_def slot_at_def)
  with up show ?thesis by (simp add: store_seq(2) [OF inv live])
qed

lemma step_push_publish:
  assumes inv: "mpmc_sys_inv cap ph s" and pc: "m_pcs s p = M_push_publish v pos"
  defines "s' \<equiv> set_pc p M_idle
      (s\<lparr>m_ring := put_slot cap pos ((get_slot cap pos (m_ring s))\<lparr>slot_sequence := pos + 1\<rparr>) (m_ring s)\<rparr>)"
  shows "mpmc_sys_inv cap (ph(unat pos := Ready)) s'"
proof -
  let ?t = "unat pos" and ?ph = "ph(unat pos := Ready)"
  have ph: "ph ?t = Writing p" using claim_phase(1) [OF inv, of p ?t] by (simp add: pc)
  then have live: "ph ?t \<noteq> Fresh" "ph ?t \<noteq> Released" by simp_all
  note win = live_ticket [OF inv live]
  have suc: "unat (pos + 1) = ?t + 1"
    using win inv_bounds(2) [OF inv] by (intro unat_suc_small) simp
  have now: "m_seq cap s ?t = ?t" using inv win ph by (auto simp: mpmc_sys_inv_def slots_ok_def)
  note st = store_seq [OF inv live, where q = "pos + 1", unfolded suc]
  have fields: "m_hist s' = m_hist s" "m_taken s' = m_taken s" "m_got s' = m_got s"
    "m_pcs s' = (m_pcs s)(p := M_idle)" "m_val cap s' = m_val cap s"
    by (simp_all add: s'_def m_val_def st(1) fun_eq_iff)
  have grow: "m_seq cap s t \<le> m_seq cap s' t" for t
    using store_seq_grows [OF inv live, where q = "pos + 1"] now suc by (simp add: s'_def m_seq_def)
  have 1: "cursors_ok cap s'"
    using inv by (auto simp: mpmc_sys_inv_def cursors_ok_def s'_def put_slot_shape)
  have own: "m_val cap s ?t = m_hist s ! ?t" using inv_pc [OF inv, of p] by (simp add: pc)
  have sw: "m_seq cap s' t = (if t = ?t then ?t + 1 else m_seq cap s t)"
    if "t < length (m_hist s)" "length (m_hist s) \<le> t + unat cap" for t
    using st(3) [OF that] by (simp add: s'_def m_seq_def)
  have su: "m_seq cap s' t = m_seq cap s t" if "length (m_hist s) \<le> t" "t < unat cap" for t
    using st(4) [OF that] by (simp add: s'_def m_seq_def)
  have 3: "slots_ok cap ?ph s'"
    using inv own sw su by (auto simp: mpmc_sys_inv_def slots_ok_def fields)
  have 2: "phases_ok cap ?ph s'"
    using inv ph win unread_phase [OF inv, of ?t p]
    by (auto simp: mpmc_sys_inv_def phases_ok_def fields)
  have 4: "owners_ok ?ph s'"
    using inv claim_unique(1,2) [OF inv ph]
    by (auto simp: mpmc_sys_inv_def owners_ok_def fields pc)
  have "pc_ok cap s' (m_pcs s q)" for q
    using inv_pc [OF inv, of q] grow
    by (cases "m_pcs s q") (auto simp: fields intro: order_trans)
  then have 5: "\<forall>q. pc_ok cap s' (m_pcs s' q)" by (simp add: fields)
  have 6: "got_ok ?ph s'" using inv ph by (auto simp: mpmc_sys_inv_def got_ok_def fields)
  from 1 2 3 4 5 6 show ?thesis by (simp add: mpmc_sys_inv_def)
qed

lemma step_pop_publish:
  assumes inv: "mpmc_sys_inv cap ph s" and pc: "m_pcs s p = M_pop_publish pos out"
  defines "s' \<equiv> set_pc p M_idle
      (s\<lparr>m_ring := put_slot cap pos ((get_slot cap pos (m_ring s))\<lparr>slot_sequence := pos + cap\<rparr>) (m_ring s),
         m_got := m_got s @ [(unat pos, out)]\<rparr>)"
  shows "mpmc_sys_inv cap (ph(unat pos := Released)) s'"
proof -
  let ?t = "unat pos" and ?ph = "ph(unat pos := Released)"
  have ph: "ph ?t = Reading p" using claim_phase(2) [OF inv, of p ?t] by (simp add: pc)
  then have live: "ph ?t \<noteq> Fresh" "ph ?t \<noteq> Released" by simp_all
  note win = live_ticket [OF inv live]
  have suc: "unat (pos + cap) = ?t + unat cap"
    using win inv_bounds(2) [OF inv] by (intro unat_add_small) simp
  have now: "m_seq cap s ?t = ?t + 1" using inv win ph by (auto simp: mpmc_sys_inv_def slots_ok_def)
  note st = store_seq [OF inv live, where q = "pos + cap", unfolded suc]
  have fields: "m_hist s' = m_hist s" "m_taken s' = m_taken s" "m_got s' = m_got s @ [(?t, out)]"
    "m_pcs s' = (m_pcs s)(p := M_idle)" "m_val cap s' = m_val cap s"
    by (simp_all add: s'_def m_val_def st(1) fun_eq_iff)
  have grow: "m_seq cap s t \<le> m_seq cap s' t" for t
    using store_seq_grows [OF inv live, where q = "pos + cap"] now suc inv_bounds(1) [OF inv]
    by (simp add: s'_def m_seq_def)
  have 1: "cursors_ok cap s'"
    using inv by (auto simp: mpmc_sys_inv_def cursors_ok_def s'_def put_slot_shape)
  have sw: "m_seq cap s' t = (if t = ?t then ?t + unat cap else m_seq cap s t)"
    if "t < length (m_hist s)" "length (m_hist s) \<le> t + unat cap" for t
    using st(3) [OF that] by (simp add: s'_def m_seq_def)
  have su: "m_seq cap s' t = m_seq cap s t" if "length (m_hist s) \<le> t" "t < unat cap" for t
    using st(4) [OF that] by (simp add: s'_def m_seq_def)
  have 3: "slots_ok cap ?ph s'"
    using inv sw su by (auto simp: mpmc_sys_inv_def slots_ok_def fields)
  have 2: "phases_ok cap ?ph s'"
    using inv ph win unread_phase [OF inv, of ?t p]
    by (auto simp: mpmc_sys_inv_def phases_ok_def fields)
  have 4: "owners_ok ?ph s'"
    using inv claim_unique(3,4) [OF inv ph]
    by (auto simp: mpmc_sys_inv_def owners_ok_def fields pc)
  have "pc_ok cap s' (m_pcs s q)" for q
    using inv_pc [OF inv, of q] grow
    by (cases "m_pcs s q") (auto simp: fields intro: order_trans)
  then have 5: "\<forall>q. pc_ok cap s' (m_pcs s' q)" by (simp add: fields)
  have 6: "got_ok ?ph s'"
    using inv ph inv_pc [OF inv, of p] by (auto simp: mpmc_sys_inv_def got_ok_def fields pc)
  from 1 2 3 4 5 6 show ?thesis by (simp add: mpmc_sys_inv_def)
qed

lemma step_pop_cas_ok:
  assumes inv: "mpmc_sys_inv cap ph s" and pc: "m_pcs s p = M_pop_cas pos"
    and cur: "dequeue_pos (m_ring s) = pos"
  defines "s' \<equiv> set_pc p (M_pop_read pos)
      (s\<lparr>m_ring := (m_ring s)\<lparr>dequeue_pos := pos + 1\<rparr>, m_taken := m_taken s + 1\<rparr>)"
  shows "m_taken s < length (m_hist s) \<and> mpmc_sys_inv cap (ph(m_taken s := Reading p)) s'"
proof -
  let ?D = "m_taken s" and ?ph = "ph(m_taken s := Reading p)"
  note bd = inv_bounds [OF inv]
  have pos: "unat pos = ?D" using inv cur by (auto simp: mpmc_sys_inv_def cursors_ok_def)
  have sq: "?D + 1 \<le> m_seq cap s ?D" using inv_pc [OF inv, of p] pos by (simp add: pc)
  have lt: "?D < length (m_hist s)"
    using next_slot(1) [OF inv] sq bd(3) by (cases "?D = length (m_hist s)") auto
  have suc: "unat (pos + 1) = ?D + 1" using lt bd(2) pos by (subst unat_suc_small) simp_all
  have nd: "ph ?D \<noteq> Released" "\<And>q. ph ?D \<noteq> Reading q" "ph ?D \<noteq> Fresh"
    using inv lt by (auto simp: mpmc_sys_inv_def phases_ok_def not_le)
  have "m_seq cap s ?D = phase_seq (unat cap) ?D (ph ?D)"
    using inv lt bd(4) by (auto simp: mpmc_sys_inv_def slots_ok_def)
  with sq nd have ready: "ph ?D = Ready" by (cases "ph ?D") auto
  have fields: "m_seq cap s' = m_seq cap s" "m_val cap s' = m_val cap s"
    "m_hist s' = m_hist s" "m_taken s' = m_taken s + 1" "m_got s' = m_got s"
    "m_pcs s' = (m_pcs s)(p := M_pop_read pos)" "m_ring s' = (m_ring s)\<lparr>dequeue_pos := pos + 1\<rparr>"
    by (simp_all add: s'_def m_seq_def m_val_def fun_eq_iff)
  have 1: "cursors_ok cap s'"
    using inv lt suc by (auto simp: mpmc_sys_inv_def cursors_ok_def mpmc_shape_def fields)
  have 2: "phases_ok cap ?ph s'"
    using inv ready lt bd by (auto simp: mpmc_sys_inv_def phases_ok_def fields less_Suc_eq)
  have 3: "slots_ok cap ?ph s'"
    using inv ready by (auto simp: mpmc_sys_inv_def slots_ok_def fields)
  have noD: "w_claim (m_pcs s q) \<noteq> Some ?D" "r_claim (m_pcs s q) \<noteq> Some ?D" for q
    using claim_phase [OF inv, of q ?D] ready by auto
  have 4: "owners_ok ?ph s'"
    using inv noD pos by (auto simp: mpmc_sys_inv_def owners_ok_def fields pc)
  have "pc_ok cap s' (m_pcs s q)" for q
    using inv_pc [OF inv, of q] by (cases "m_pcs s q") (auto simp: fields)
  then have 5: "\<forall>q. pc_ok cap s' (m_pcs s' q)" by (simp add: fields)
  have 6: "got_ok ?ph s'" using inv ready by (auto simp: mpmc_sys_inv_def got_ok_def fields)
  from lt 1 2 3 4 5 6 show ?thesis by (simp add: mpmc_sys_inv_def)
qed

section \<open>Every step keeps the invariant\<close>

lemma seq_diff_0: "seq_diff a b = Some 0 \<Longrightarrow> a = b"
  by (auto simp: seq_diff_def Let_def split: if_splits intro: signed_word_eqI)

lemma loaded_le:
  assumes "mpmc_sys_inv cap ph s"
  shows "pos \<le> enqueue_pos (m_ring s) \<Longrightarrow> unat pos \<le> length (m_hist s)"
    and "pos \<le> dequeue_pos (m_ring s) \<Longrightarrow> unat pos \<le> m_taken s"
    and "sq \<le> slot_sequence (get_slot cap pos (m_ring s)) \<Longrightarrow> unat sq \<le> m_seq cap s (unat pos)"
  using assms inv_shape [OF assms]
  by (auto simp: mpmc_sys_inv_def cursors_ok_def word_le_nat_alt m_seq_def get_slot_eq)

lemma pop_claimable_seq:
  assumes inv: "mpmc_sys_inv cap ph s" and pc: "m_pcs s p = M_pop_seq pos"
    and "sq \<le> slot_sequence (get_slot cap pos (m_ring s))" and "seq_diff sq (pos + 1) = Some 0"
  shows "pc_ok cap s (M_pop_cas pos)"
proof -
  have le: "unat pos \<le> m_taken s" using inv_pc [OF inv, of p] by (simp add: pc)
  then have "unat (pos + 1) = unat pos + 1"
    using inv_bounds [OF inv] by (intro unat_suc_small) simp
  then show ?thesis using le loaded_le(3) [OF inv assms(3)] seq_diff_0 [OF assms(4)] by simp
qed

lemma mpmc_step_inv:
  assumes inv: "mpmc_sys_inv cap ph s" and st: "mpmc_step cap s t" and rng: "in_range cap t"
  shows "\<exists>ph'. mpmc_sys_inv cap ph' t"
  using st
proof cases
  case (m_push_cas_ok p v pos)
  then show ?thesis using step_push_cas_ok [OF inv, of p v pos] rng by (auto simp: in_range_def)
next
  case (m_push_write p v pos)
  then show ?thesis using step_push_write [OF inv, of p v pos] by auto
next
  case (m_push_publish p v pos)
  then show ?thesis using step_push_publish [OF inv, of p v pos] by auto
next
  case (m_pop_cas_ok p pos)
  then show ?thesis using step_pop_cas_ok [OF inv, of p pos] by auto
next
  case (m_pop_publish p pos out)
  then show ?thesis using step_pop_publish [OF inv, of p pos out] by auto
next
  case (m_pop_read p pos)
  then have "ph (unat pos) = Reading p" using claim_phase(2) [OF inv, of p "unat pos"] by simp
  then have "m_val cap s (unat pos) = m_hist s ! unat pos"
    using inv by (auto simp: mpmc_sys_inv_def slots_ok_def)
  then show ?thesis using m_pop_read inv inv_shape [OF inv]
    by (intro exI [of _ ph]) (auto intro!: inv_set_pc simp: get_slot_eq m_val_def)
next
  case (m_push_claimable p v pos sq)
  then have "pc_ok cap s (M_push_cas v pos)"
    using inv_pc [OF inv, of p] loaded_le(3) [OF inv, of sq pos] seq_diff_0 [of sq pos] by simp
  with m_push_claimable inv show ?thesis by (intro exI [of _ ph]) (auto intro!: inv_set_pc)
next
  case (m_pop_claimable p pos sq)
  with pop_claimable_seq [OF inv, of p pos sq] inv show ?thesis
    by (intro exI [of _ ph]) (auto intro!: inv_set_pc)
qed (use inv loaded_le [OF inv] in \<open>(intro exI [of _ ph], auto intro!: inv_set_pc)+\<close>)

lemma mpmc_start_inv:
  assumes "mpmc_start cap s" and "in_range cap s"
  shows "mpmc_sys_inv cap (\<lambda>_. Fresh) s"
proof -
  from assms(1) obtain d where c: "pow2_cap cap" "2 \<le> unat cap"
    and s: "s = \<lparr>m_ring = MpmcRing cap d, m_pcs = (\<lambda>_. M_idle), m_hist = [], m_taken = 0, m_got = []\<rparr>"
    by (auto simp: mpmc_start_def)
  have "unat cap < 2 ^ 63" using assms(2) by (simp add: in_range_def s)
  from MpmcRing_inv [OF c this, of d] have r: "mpmc_inv cap (MpmcRing cap d)" .
  then have "seq_at cap (MpmcRing cap d) t = t" if "t < unat cap" for t
    using that by (auto simp: mpmc_inv_def MpmcRing_def)
  with r show ?thesis
    by (auto simp: mpmc_sys_inv_def cursors_ok_def phases_ok_def slots_ok_def owners_ok_def got_ok_def
        m_seq_def s mpmc_inv_def) (auto simp: MpmcRing_def)
qed

section \<open>Runs inside the counter range implement the atomic queue\<close>

text \<open>The history read as a queue; \<open>mpmc_represents\<close> below ties it to the ring, the threads and the results.\<close>

definition mpmc_abs :: "'a mpmc_sys \<Rightarrow> 'a fifo" where
  "mpmc_abs s = \<lparr>fifo_queue = drop (m_taken s) (m_hist s), fifo_in = m_hist s,
     fifo_out = take (m_taken s) (m_hist s)\<rparr>"

definition mpmc_start_in :: "size_t \<Rightarrow> 'a mpmc_sys \<Rightarrow> bool" where
  "mpmc_start_in cap s \<longleftrightarrow> mpmc_start cap s \<and> in_range cap s"

definition mpmc_step_in :: "size_t \<Rightarrow> 'a mpmc_sys \<Rightarrow> 'a mpmc_sys \<Rightarrow> bool" where
  "mpmc_step_in cap s t \<longleftrightarrow> mpmc_step cap s t \<and> in_range cap t"

definition mpmc_ok :: "size_t \<Rightarrow> 'a mpmc_sys \<Rightarrow> bool" where
  "mpmc_ok cap s \<longleftrightarrow> (\<exists>ph. mpmc_sys_inv cap ph s)"

text \<open>The value the threads and the ring hold for a ticket: with the writer until it is in the slot, in the
  slot until it is read, with the reader until its call returns, and in the results of the calls.\<close>

inductive ticket_value :: "size_t \<Rightarrow> 'a mpmc_sys \<Rightarrow> nat \<Rightarrow> 'a \<Rightarrow> bool" for cap :: size_t and s :: "'a mpmc_sys" where
  tv_writing: "m_pcs s p = M_push_write v pos \<Longrightarrow> ticket_value cap s (unat pos) v"
| tv_written: "m_pcs s p = M_push_publish v pos \<Longrightarrow>
    ticket_value cap s (unat pos) (slot_value (get_slot cap pos (m_ring s)))"
| tv_ready: "dequeue_pos (m_ring s) \<le> pos \<Longrightarrow> pos < enqueue_pos (m_ring s) \<Longrightarrow>
    slot_sequence (get_slot cap pos (m_ring s)) = pos + 1 \<Longrightarrow>
    ticket_value cap s (unat pos) (slot_value (get_slot cap pos (m_ring s)))"
| tv_reading: "m_pcs s p = M_pop_read pos \<Longrightarrow>
    ticket_value cap s (unat pos) (slot_value (get_slot cap pos (m_ring s)))"
| tv_read: "m_pcs s p = M_pop_publish pos out \<Longrightarrow> ticket_value cap s (unat pos) out"
| tv_returned: "(t, x) \<in> set (m_got s) \<Longrightarrow> ticket_value cap s t x"







lemma mpmc_abs_step:
  assumes "mpmc_ok cap s" and "mpmc_step_in cap s t"
  shows "mpmc_abs t = mpmc_abs s \<or> fifo_step (unat cap) (mpmc_abs s) (mpmc_abs t)"
proof -
  obtain ph where inv: "mpmc_sys_inv cap ph s" using assms(1) by (auto simp: mpmc_ok_def)
  have st: "mpmc_step cap s t" and rng: "in_range cap t" using assms(2) by (auto simp: mpmc_step_in_def)
  note bd = inv_bounds [OF inv]
  from st show ?thesis
  proof cases
    case (m_push_cas_ok p v pos)
    from step_push_cas_ok [OF inv m_push_cas_ok(2,3)] rng m_push_cas_ok(1)
    have "length (m_hist s) + 1 \<le> m_taken s + unat cap"
      using inv_bounds(4) by (fastforce simp: in_range_def)
    then show ?thesis
      using m_push_cas_ok(1) bd fifo_enq [of "drop (m_taken s) (m_hist s)" "unat cap" "m_hist s"]
      by (simp add: mpmc_abs_def)
  next
    case (m_pop_cas_ok p pos)
    from step_pop_cas_ok [OF inv m_pop_cas_ok(2,3)] have "m_taken s < length (m_hist s)" by simp
    then show ?thesis
      using m_pop_cas_ok(1) fifo_deq [of "unat cap" "m_hist s ! m_taken s" "drop (Suc (m_taken s)) (m_hist s)"]
      by (simp add: mpmc_abs_def Cons_nth_drop_Suc take_Suc_conv_app_nth)
  qed (auto simp: mpmc_abs_def)
qed

interpretation mpmc_threads: forward_simulation "mpmc_start_in cap" "mpmc_step_in cap" "mpmc_ok cap"
  mpmc_abs fifo_start "fifo_step (unat cap)" for cap
proof unfold_locales
  fix s t :: "'a mpmc_sys"
  show "mpmc_start_in cap s \<Longrightarrow> mpmc_ok cap s"
    using mpmc_start_inv by (auto simp: mpmc_start_in_def mpmc_ok_def)
  show "mpmc_ok cap s \<Longrightarrow> mpmc_step_in cap s t \<Longrightarrow> mpmc_ok cap t"
    using mpmc_step_inv by (auto simp: mpmc_step_in_def mpmc_ok_def)
  show "mpmc_start_in cap s \<Longrightarrow> fifo_start (mpmc_abs s)"
    by (auto simp: mpmc_start_in_def mpmc_start_def mpmc_abs_def fifo_start_def)
  show "mpmc_ok cap s \<Longrightarrow> mpmc_step_in cap s t \<Longrightarrow>
      mpmc_abs t = mpmc_abs s \<or> fifo_step (unat cap) (mpmc_abs s) (mpmc_abs t)"
    by (rule mpmc_abs_step)
qed

abbreviation mpmc_reach :: "size_t \<Rightarrow> 'a mpmc_sys \<Rightarrow> bool" where
  "mpmc_reach cap \<equiv> reach (mpmc_start cap) (mpmc_step cap)"

lemma mpmc_hist_grows: "mpmc_step cap s t \<Longrightarrow> length (m_hist s) \<le> length (m_hist t)"
  by (erule mpmc_step.cases) simp_all

lemma mpmc_reach_in:
  assumes "mpmc_reach cap s" and "in_range cap s"
  shows "reach (mpmc_start_in cap) (mpmc_step_in cap) s"
  using assms
proof (induction rule: reach.induct)
  case (reach_start s)
  then show ?case by (intro reach.reach_start) (simp add: mpmc_start_in_def)
next
  case (reach_step s t)
  then have "in_range cap s" using mpmc_hist_grows [of cap s t] by (simp add: in_range_def)
  with reach_step show ?case
    by (auto intro: reach.reach_step [of _ _ s] simp: mpmc_step_in_def)
qed

lemma mpmc_reach_inv:
  assumes "mpmc_reach cap s" and "in_range cap s"
  obtains ph where "mpmc_sys_inv cap ph s"
  using mpmc_threads.reach_inv [OF mpmc_reach_in [OF assms]] by (auto simp: mpmc_ok_def)

section \<open>Calls that run alone\<close>

lemma set_pc_collapse:
  "set_pc p a (set_pc p b s) = set_pc p a s"
  "set_pc p a ((set_pc p b s)\<lparr>m_ring := r\<rparr>) = set_pc p a (s\<lparr>m_ring := r\<rparr>)"
  "set_pc p a ((set_pc p b s)\<lparr>m_ring := r, m_hist := h\<rparr>) = set_pc p a (s\<lparr>m_ring := r, m_hist := h\<rparr>)"
  "set_pc p a ((set_pc p b s)\<lparr>m_ring := r, m_taken := k\<rparr>) = set_pc p a (s\<lparr>m_ring := r, m_taken := k\<rparr>)"
  "set_pc p a ((set_pc p b s)\<lparr>m_ring := r, m_got := g\<rparr>) = set_pc p a (s\<lparr>m_ring := r, m_got := g\<rparr>)"
  by (simp_all add: set_pc_def)

lemma seq_diff_refl: "seq_diff a a = Some 0"
  by (simp add: seq_diff_def)

lemma solo_to_write:
  assumes r: "mpmc_reach cap s" and pc: "m_pcs s p = M_idle"
    and free: "slot_sequence (get_slot cap (enqueue_pos (m_ring s)) (m_ring s)) = enqueue_pos (m_ring s)"
  shows "mpmc_reach cap (set_pc p (M_push_write v (enqueue_pos (m_ring s)))
    (s\<lparr>m_ring := (m_ring s)\<lparr>enqueue_pos := enqueue_pos (m_ring s) + 1\<rparr>, m_hist := m_hist s @ [v]\<rparr>))"
proof -
  let ?e = "enqueue_pos (m_ring s)"
  have "mpmc_reach cap (set_pc p (M_push_load v) s)"
    by (rule reach_step [OF r m_push_call [of s p, OF pc]])
  from reach_step [OF this m_push_load [of _ p v ?e]]
  have 2: "mpmc_reach cap (set_pc p (M_push_seq v ?e) s)" by (simp add: set_pc_collapse)
  from reach_step [OF 2 m_push_claimable [of _ p v ?e ?e]] free
  have 3: "mpmc_reach cap (set_pc p (M_push_cas v ?e) s)"
    by (simp add: set_pc_collapse seq_diff_refl)
  from reach_step [OF 3 m_push_cas_ok [of _ p v ?e]] show ?thesis
    by (simp add: set_pc_collapse)
qed

lemma solo_to_read:
  assumes r: "mpmc_reach cap s" and pc: "m_pcs s p = M_idle"
    and full: "slot_sequence (get_slot cap (dequeue_pos (m_ring s)) (m_ring s)) = dequeue_pos (m_ring s) + 1"
  shows "mpmc_reach cap (set_pc p (M_pop_read (dequeue_pos (m_ring s)))
    (s\<lparr>m_ring := (m_ring s)\<lparr>dequeue_pos := dequeue_pos (m_ring s) + 1\<rparr>, m_taken := m_taken s + 1\<rparr>))"
proof -
  let ?e = "dequeue_pos (m_ring s)"
  have "mpmc_reach cap (set_pc p M_pop_load s)"
    by (rule reach_step [OF r m_pop_call [of s p, OF pc]])
  from reach_step [OF this m_pop_load [of _ p ?e]]
  have 2: "mpmc_reach cap (set_pc p (M_pop_seq ?e) s)" by (simp add: set_pc_collapse)
  from reach_step [OF 2 m_pop_claimable [of _ p ?e "?e + 1"]] full
  have 3: "mpmc_reach cap (set_pc p (M_pop_cas ?e) s)"
    by (simp add: set_pc_collapse seq_diff_refl)
  from reach_step [OF 3 m_pop_cas_ok [of _ p ?e]] show ?thesis
    by (simp add: set_pc_collapse)
qed

lemma finish_push:
  assumes r: "mpmc_reach cap s" and pc: "m_pcs s p = M_push_write v pos"
  shows "mpmc_reach cap (set_pc p M_idle (s\<lparr>m_ring := put_slot cap pos
    ((get_slot cap pos (put_slot cap pos ((get_slot cap pos (m_ring s))\<lparr>slot_value := v\<rparr>) (m_ring s)))
      \<lparr>slot_sequence := pos + 1\<rparr>)
    (put_slot cap pos ((get_slot cap pos (m_ring s))\<lparr>slot_value := v\<rparr>) (m_ring s))\<rparr>))"
  using reach_step [OF reach_step [OF r m_push_write [OF pc]] m_push_publish [of _ p v pos]]
  by (simp add: set_pc_def)

lemma finish_pop:
  assumes r: "mpmc_reach cap s" and pc: "m_pcs s p = M_pop_read pos"
  shows "mpmc_reach cap (set_pc p M_idle (s\<lparr>m_ring := put_slot cap pos
      ((get_slot cap pos (m_ring s))\<lparr>slot_sequence := pos + cap\<rparr>) (m_ring s),
      m_got := m_got s @ [(unat pos, slot_value (get_slot cap pos (m_ring s)))]\<rparr>))"
  using reach_step [OF reach_step [OF r m_pop_read [OF pc]] m_pop_publish [of _ p pos]]
  by (simp add: set_pc_def)

text \<open>A concrete run on two slots: thread 0 pushes 7, thread 1 pops it.\<close>

definition mdemo0 :: "nat mpmc_sys" where
  "mdemo0 = \<lparr>m_ring = MpmcRing 2 0, m_pcs = (\<lambda>_. M_idle), m_hist = [], m_taken = 0, m_got = []\<rparr>"

lemma two_slot_ring: "MpmcRing 2 (0::nat) =
  \<lparr>mpmc_slots = [\<lparr>slot_sequence = 0, slot_value = 0\<rparr>, \<lparr>slot_sequence = 1, slot_value = 0\<rparr>],
   enqueue_pos = 0, dequeue_pos = 0\<rparr>"
  by (simp add: MpmcRing_def upt_rec)

lemma const_upd: "(\<lambda>_. c)(p := c) = (\<lambda>_. c)"
  by auto

lemmas mdemo_simps = const_upd two_slot_ring mdemo0_def put_slot_def get_slot_def kMask_def set_pc_def

lemma mdemo0_reach: "mpmc_reach 2 mdemo0"
  by (rule reach_start) (auto simp: mpmc_start_def mdemo0_def pow2_cap_def capacity_assert_def)

definition mdemo1 :: "nat mpmc_sys" where
  "mdemo1 = \<lparr>m_ring =
     \<lparr>mpmc_slots = [\<lparr>slot_sequence = 1, slot_value = 7\<rparr>, \<lparr>slot_sequence = 1, slot_value = 0\<rparr>],
      enqueue_pos = 1, dequeue_pos = 0\<rparr>,
     m_pcs = (\<lambda>_. M_idle), m_hist = [7], m_taken = 0, m_got = []\<rparr>"

lemma mdemo1_reach: "mpmc_reach 2 mdemo1"
proof -
  have "mpmc_reach 2 (mdemo0\<lparr>m_ring := (m_ring mdemo0)\<lparr>enqueue_pos := 1\<rparr>, m_hist := [7],
      m_pcs := (\<lambda>_. M_idle)(0 := M_push_write 7 0)\<rparr>)"
    using solo_to_write [OF mdemo0_reach, of 0 7] by (simp add: mdemo_simps)
  from finish_push [OF this, of 0 7 0] show ?thesis by (simp add: mdemo_simps mdemo1_def)
qed

definition mdemo2 :: "nat mpmc_sys" where
  "mdemo2 = \<lparr>m_ring =
     \<lparr>mpmc_slots = [\<lparr>slot_sequence = 2, slot_value = 7\<rparr>, \<lparr>slot_sequence = 1, slot_value = 0\<rparr>],
      enqueue_pos = 1, dequeue_pos = 1\<rparr>,
     m_pcs = (\<lambda>_. M_idle), m_hist = [7], m_taken = 1, m_got = [(0, 7)]\<rparr>"

lemma mdemo2_reach: "mpmc_reach 2 mdemo2"
proof -
  have "mpmc_reach 2 (mdemo1\<lparr>m_ring := (m_ring mdemo1)\<lparr>dequeue_pos := 1\<rparr>, m_taken := 1,
      m_pcs := (\<lambda>_. M_idle)(1 := M_pop_read 0)\<rparr>)"
    using solo_to_read [OF mdemo1_reach, of 1] by (simp add: mdemo_simps mdemo1_def)
  from finish_pop [OF this, of 1 0] show ?thesis by (simp add: mdemo_simps mdemo1_def mdemo2_def)
qed

section \<open>Properties\<close>

lemma map_nth_take: "k \<le> length xs \<Longrightarrow> map ((!) xs) [0..<k] = take k xs"
  by (auto intro: nth_equalityI)

lemma got_values:
  assumes "got_ok ph s"
  shows "mset (map snd (m_got s)) = image_mset ((!) (m_hist s)) (mset_set (fst ` set (m_got s)))"
proof -
  have "map snd (m_got s) = map ((!) (m_hist s)) (map fst (m_got s))"
    using assms by (auto simp: got_ok_def)
  moreover have "mset (map fst (m_got s)) = mset_set (fst ` set (m_got s))"
    using assms mset_set_set [of "map fst (m_got s)"] by (simp add: got_ok_def)
  ultimately show ?thesis by (metis mset_map)
qed

lemma take_values: "k \<le> length xs \<Longrightarrow> mset (take k xs) = image_mset ((!) xs) (mset_set {..<k})"
proof -
  assume "k \<le> length xs"
  then have "mset (take k xs) = image_mset ((!) xs) (mset [0..<k])"
    by (metis map_nth_take mset_map)
  moreover have "mset [0..<k] = mset_set {..<k}" by (simp add: mset_upt atLeast0LessThan)
  ultimately show ?thesis by simp
qed

text \<open>When every call has returned, nothing is lost: the values delivered are exactly the
  values of the claimed dequeue tickets, the rest sits in the ring in ticket order, and the ring
  satisfies the invariant of the sequential operations.\<close>

lemma mpmc_quiescent_complete:
  assumes "mpmc_reach cap s" and "in_range cap s" and "\<forall>p. m_pcs s p = M_idle"
  shows "mset (map snd (m_got s)) = mset (take (m_taken s) (m_hist s)) \<and>
    mpmc_items cap (m_ring s) = drop (m_taken s) (m_hist s) \<and> mpmc_inv cap (m_ring s)"
proof -
  obtain ph where inv: "mpmc_sys_inv cap ph s" using mpmc_reach_inv [OF assms(1,2)] .
  note bd = inv_bounds [OF inv]
  have cur: "unat (enqueue_pos (m_ring s)) = length (m_hist s)" "unat (dequeue_pos (m_ring s)) = m_taken s"
    using inv by (auto simp: mpmc_sys_inv_def cursors_ok_def)
  have idle: "ph t \<noteq> Writing p" "ph t \<noteq> Reading p" for t p
    using inv assms(3) by (auto simp: mpmc_sys_inv_def owners_ok_def)
  have rel: "ph t = Released \<longleftrightarrow> t < m_taken s" for t
    using inv idle by (auto simp: mpmc_sys_inv_def phases_ok_def)
  have rdy: "ph t = Ready" if "m_taken s \<le> t" "t < length (m_hist s)" for t
    using inv that idle rel [of t] by (cases "ph t") (auto simp: mpmc_sys_inv_def phases_ok_def)
  have "fst ` set (m_got s) = {..<m_taken s}"
    using inv rel by (auto simp: mpmc_sys_inv_def got_ok_def)
  then have 1: "mset (map snd (m_got s)) = mset (take (m_taken s) (m_hist s))"
    using inv bd(3) by (metis got_values take_values mpmc_sys_inv_def)
  have seq: "m_seq cap s t = phase_seq (unat cap) t (ph t)"
    if "t < length (m_hist s)" "length (m_hist s) \<le> t + unat cap" for t
    using inv that by (simp add: mpmc_sys_inv_def slots_ok_def)
  have full: "m_seq cap s t = t + 1" if "m_taken s \<le> t" "t < length (m_hist s)" for t
    using seq [of t] rdy [OF that] that bd(4) by simp
  have free: "m_seq cap s t = t" if "length (m_hist s) \<le> t" "t < m_taken s + unat cap" for t
  proof (cases "t < unat cap")
    case True
    then show ?thesis using inv that by (simp add: mpmc_sys_inv_def slots_ok_def)
  next
    case False
    have "ph (t - unat cap) = Released" using rel [of "t - unat cap"] that False by auto
    then show ?thesis using seq [of "t - unat cap"] m_seq_wrap [of cap s "t - unat cap"] that False bd
      by auto
  qed
  have 2: "mpmc_inv cap (m_ring s)"
    using full free bd cur inv_shape [OF inv] by (auto simp: mpmc_inv_def m_seq_def)
  have "m_val cap s t = m_hist s ! t" if "m_taken s \<le> t" "t < length (m_hist s)" for t
    using inv rdy [OF that] by (simp add: mpmc_sys_inv_def slots_ok_def)
  then have "mpmc_items cap (m_ring s) = drop (m_taken s) (m_hist s)"
    using bd by (auto simp: mpmc_items_def cur m_val_def intro!: nth_equalityI)
  with 1 2 show ?thesis by simp
qed

text \<open>(C9) With any number of producers and consumers, every value a pop returned is the value
  of its own ticket, no ticket is returned twice, and the returned values are among the first
  claimed ones: nothing is delivered twice, invented or mixed up. And nothing is lost: when every call
  has returned, the values delivered are exactly the values of the claimed dequeue tickets, the rest
  sits in the ring in ticket order, and the ring satisfies the invariant of the sequential operations.\<close>

theorem mpmc_threads_exactly_once:
  assumes "mpmc_reach cap s" and "in_range cap s"
  shows "distinct (map fst (m_got s)) \<and>
    (\<forall>(t, x) \<in> set (m_got s). t < m_taken s \<and> m_taken s \<le> length (m_hist s) \<and> x = m_hist s ! t) \<and>
    mset (map snd (m_got s)) \<subseteq># mset (take (m_taken s) (m_hist s)) \<and>
    ((\<forall>p. m_pcs s p = M_idle) \<longrightarrow> mset (map snd (m_got s)) = mset (take (m_taken s) (m_hist s)) \<and>
       mpmc_items cap (m_ring s) = drop (m_taken s) (m_hist s) \<and> mpmc_inv cap (m_ring s))"
proof -
  obtain ph where inv: "mpmc_sys_inv cap ph s" using mpmc_reach_inv [OF assms] .
  then have g: "got_ok ph s" by (simp add: mpmc_sys_inv_def)
  have sub: "fst ` set (m_got s) \<subseteq> {..<m_taken s}" using got_lt(1) [OF inv] by auto
  have "mset (map snd (m_got s)) \<subseteq># mset (take (m_taken s) (m_hist s))"
    using sub inv_bounds(3) [OF inv]
    by (simp only: got_values [OF g] take_values)
      (intro image_mset_subseteq_mono subset_imp_msubset_mset_set, auto)
  moreover have "\<forall>(t, x) \<in> set (m_got s). t < m_taken s \<and> m_taken s \<le> length (m_hist s) \<and> x = m_hist s ! t"
    using g sub inv_bounds(3) [OF inv] by (fastforce simp: got_ok_def)
  moreover have "distinct (map fst (m_got s))" using g by (simp add: got_ok_def)
  ultimately show ?thesis using mpmc_quiescent_complete [OF assms] by blast
qed

theorem mpmc_threads_exactly_once_witness:
  "distinct (map fst (m_got mdemo2)) \<and> mset (map snd (m_got mdemo2)) = {#7#} \<and> mpmc_items 2 (m_ring mdemo2) = []"
  using mpmc_threads_exactly_once [OF mdemo2_reach] by (simp add: in_range_def mdemo2_def)



text \<open>(C11) The plain accesses to \<open>slot.value\<close> do not race: two threads that are about to
  write or read a slot's value are never at the same slot.\<close>

theorem mpmc_threads_race_free:
  assumes "mpmc_reach cap s" and "in_range cap s" and "p \<noteq> q"
    and "m_pcs s p = M_push_write v pos \<or> m_pcs s p = M_pop_read pos"
    and "m_pcs s q = M_push_write w pos' \<or> m_pcs s q = M_pop_read pos'"
  shows "unat (pos AND kMask cap) \<noteq> unat (pos' AND kMask cap)"
proof -
  obtain ph where inv: "mpmc_sys_inv cap ph s" using mpmc_reach_inv [OF assms(1,2)] .
  have 1: "ph (unat pos) = Writing p \<or> ph (unat pos) = Reading p"
    using assms(4) claim_phase [OF inv, of p "unat pos"] by auto
  have 2: "ph (unat pos') = Writing q \<or> ph (unat pos') = Reading q"
    using assms(5) claim_phase [OF inv, of q "unat pos'"] by auto
  have ne: "unat pos \<noteq> unat pos'"
    using 1 2 \<open>p \<noteq> q\<close> by auto
  have "unat pos' mod unat cap \<noteq> unat pos mod unat cap"
    using 1 2 ne live_ticket [OF inv, of "unat pos'"] by (intro live_slots_differ [OF inv]) auto
  then show ?thesis using mpmc_index(1) [OF inv_shape [OF inv]] by simp
qed

theorem mpmc_threads_race_free_witness:
  "\<exists>s :: nat mpmc_sys. mpmc_reach 2 s \<and> m_pcs s 0 = M_push_write 8 1 \<and> m_pcs s 1 = M_pop_read 0 \<and>
     unat ((1::size_t) AND kMask 2) \<noteq> unat ((0::size_t) AND kMask 2)"
proof -
  have 1: "mpmc_reach 2 (mdemo1\<lparr>m_ring := (m_ring mdemo1)\<lparr>enqueue_pos := 2\<rparr>, m_hist := [7, 8],
      m_pcs := (\<lambda>_. M_idle)(0 := M_push_write 8 1)\<rparr>)"
    using solo_to_write [OF mdemo1_reach, of 0 8] by (simp add: mdemo_simps mdemo1_def)
  let ?s = "mdemo1\<lparr>m_ring := (m_ring mdemo1)\<lparr>enqueue_pos := 2, dequeue_pos := 1\<rparr>, m_hist := [7, 8],
      m_taken := 1, m_pcs := (\<lambda>_. M_idle)(0 := M_push_write 8 1, 1 := M_pop_read 0)\<rparr>"
  have r: "mpmc_reach 2 ?s" using solo_to_read [OF 1, of 1] by (simp add: mdemo_simps mdemo1_def)
  have "in_range 2 ?s" by (simp add: in_range_def)
  from mpmc_threads_race_free [OF r this, of 0 1 8 1 0 0] r show ?thesis
    by (intro exI [of _ ?s]) simp
qed

end
