(* ===== verification/Index_Pool.thy ===== *)
theory Index_Pool
  imports Ringio_Prelude "HOL-Library.Multiset"
begin

text \<open>
  The contract of a pool of indices (the public interface of \<open>ringio::BufferPool\<close>): \<open>acquire\<close>
  hands out a free index or \<open>invalid\<close>, \<open>release\<close> takes one back that is checked out. Both
  take a schedule of spurious exchange failures, and \<open>None\<close> is a call without a defined result.
  A client is a list of calls; it only releases what it holds.
\<close>

locale index_pool =
  fixes acquire :: "'w \<Rightarrow> 'p \<Rightarrow> ('i \<times> 'p) option"
    and release :: "'w \<Rightarrow> 'p \<Rightarrow> 'i \<Rightarrow> 'p option"
    and free :: "'p \<Rightarrow> 'i list"
    and univ :: "'p \<Rightarrow> 'i set"
    and inv :: "'p \<Rightarrow> bool"
    and invalid :: 'i
  assumes acquire_empty: "inv p \<Longrightarrow> free p = [] \<Longrightarrow> acquire w p = Some (invalid, p)"
    and acquire_first: "inv p \<Longrightarrow> free p = x # xs \<Longrightarrow>
      \<exists>p'. acquire w p = Some (x, p') \<and> inv p' \<and> free p' = xs \<and> univ p' = univ p"
    and release_held: "inv p \<Longrightarrow> x \<in> univ p \<Longrightarrow> x \<notin> set (free p) \<Longrightarrow>
      \<exists>p'. release w p x = Some p' \<and> inv p' \<and> free p' = x # free p \<and> univ p' = univ p"
    and free_distinct: "inv p \<Longrightarrow> distinct (free p)"
    and free_univ: "inv p \<Longrightarrow> set (free p) \<subseteq> univ p"
    and invalid_univ: "inv p \<Longrightarrow> invalid \<notin> univ p"

section \<open>Clients of a pool\<close>

text \<open>\<open>Rel w k\<close> releases the \<open>k\<close>-th held index, if there is one.\<close>

datatype 'w pool_op = Acq 'w | Rel 'w nat

fun pool_run :: "('w \<Rightarrow> 'p \<Rightarrow> ('i \<times> 'p) option) \<Rightarrow> ('w \<Rightarrow> 'p \<Rightarrow> 'i \<Rightarrow> 'p option) \<Rightarrow> 'i \<Rightarrow>
    'w pool_op list \<Rightarrow> 'i list \<Rightarrow> 'p \<Rightarrow> ('i list \<times> 'p) option" where
  "pool_run acq rel invalid [] held p = Some (held, p)"
| "pool_run acq rel invalid (Acq w # ops) held p =
     (case acq w p of None \<Rightarrow> None
      | Some (i, p') \<Rightarrow> pool_run acq rel invalid ops (if i = invalid then held else i # held) p')"
| "pool_run acq rel invalid (Rel w k # ops) held p =
     (if length held \<le> k then pool_run acq rel invalid ops held p
      else case rel w p (held ! k) of None \<Rightarrow> None
      | Some p' \<Rightarrow> pool_run acq rel invalid ops (take k held @ drop (Suc k) held) p')"

definition pool_ledger :: "'i list \<Rightarrow> 'i list \<Rightarrow> 'i set \<Rightarrow> bool" where
  "pool_ledger held fr u \<longleftrightarrow> distinct (held @ fr) \<and> set (held @ fr) = u"

lemma pool_ledger_acquire:
  "pool_ledger held (x # xs) u \<Longrightarrow> pool_ledger (x # held) xs u"
  by (auto simp: pool_ledger_def)

lemma pool_ledger_release:
  assumes "pool_ledger held fr u" and "k < length held"
  shows "pool_ledger (take k held @ drop (Suc k) held) (held ! k # fr) u"
proof -
  have "mset (take k held @ drop (Suc k) held) + {#held ! k#} = mset held"
    using assms(2) id_take_nth_drop [of k held] by (metis mset.simps(2) mset_append union_mset_add_mset_right add_mset_add_single)
  then have "mset ((take k held @ drop (Suc k) held) @ held ! k # fr) = mset (held @ fr)"
    by (metis add_mset_add_single mset.simps(2) mset_append union_mset_add_mset_left union_mset_add_mset_right)
  with assms(1) show ?thesis unfolding pool_ledger_def by (metis mset_eq_imp_distinct_iff mset_eq_setD)
qed

context index_pool
begin

lemma pool_run_ledger:
  assumes "inv p" and "pool_ledger held (free p) (univ p)"
  shows "\<exists>held' p'. pool_run acquire release invalid ops held p = Some (held', p') \<and> inv p' \<and>
    univ p' = univ p \<and> pool_ledger held' (free p') (univ p)"
  using assms
proof (induction ops arbitrary: held p)
  case Nil
  then show ?case by simp
next
  case (Cons a ops)
  show ?case
  proof (cases a)
    case (Acq w)
    show ?thesis
    proof (cases "free p")
      case Nil
      with Cons Acq acquire_empty [of p w] show ?thesis by simp
    next
      case (Cons x xs)
      from acquire_first [OF \<open>inv p\<close> this, of w] obtain p' where
        p': "acquire w p = Some (x, p')" "inv p'" "free p' = xs" "univ p' = univ p" by blast
      have "x \<noteq> invalid"
        using free_univ [OF \<open>inv p\<close>] invalid_univ [OF \<open>inv p\<close>] Cons by auto
      moreover have "pool_ledger (x # held) (free p') (univ p')"
        using Cons.prems(2) p' Cons pool_ledger_acquire [of held x xs "univ p"] by simp
      ultimately show ?thesis using Cons.IH [OF p'(2)] Acq p' by fastforce
    qed
  next
    case (Rel w k)
    show ?thesis
    proof (cases "length held \<le> k")
      case True
      with Cons Rel show ?thesis by simp
    next
      case False
      then have h: "held ! k \<in> set held" by simp
      with Cons.prems(2) have "held ! k \<in> univ p" "held ! k \<notin> set (free p)"
        by (auto simp: pool_ledger_def)
      from release_held [OF \<open>inv p\<close> this, of w] obtain p' where
        p': "release w p (held ! k) = Some p'" "inv p'" "free p' = held ! k # free p" "univ p' = univ p"
        by blast
      have "pool_ledger (take k held @ drop (Suc k) held) (free p') (univ p')"
        using pool_ledger_release [OF Cons.prems(2)] False p' by simp
      from Cons.IH [OF p'(2) this] Rel p' False show ?thesis by simp
    qed
  qed
qed

lemma acquire_all:
  assumes "inv p" and "length ws = length (free p)"
  shows "\<exists>p'. pool_run acquire release invalid (map Acq ws) held p = Some (rev (free p) @ held, p') \<and>
    inv p' \<and> free p' = [] \<and> univ p' = univ p"
  using assms
proof (induction ws arbitrary: held p)
  case Nil
  then show ?case by simp
next
  case (Cons w ws)
  then obtain x xs where fr: "free p = x # xs" by (cases "free p") auto
  from acquire_first [OF \<open>inv p\<close> this, of w] obtain p' where
    p': "acquire w p = Some (x, p')" "inv p'" "free p' = xs" "univ p' = univ p" by blast
  have "x \<noteq> invalid" using free_univ [OF \<open>inv p\<close>] invalid_univ [OF \<open>inv p\<close>] fr by auto
  with Cons.IH [OF p'(2), of "x # held"] Cons.prems fr p' show ?case by simp
qed

end

end
