(* ===== verification/Cache_Line.thy ===== *)
theory Cache_Line
  imports Ringio_Prelude
begin

text \<open>
  \<open>ringio::detail::CacheLinePadded\<close> (include/ringio/detail/cache_line.hpp) and what its
  alignment buys: the layout of a class as the compiler computes it from the sizes and alignments
  of its members, and the member lists of the classes that pad their hot atomics. Sizes and
  addresses are natural numbers here, since no object reaches the end of the address space.
\<close>

section \<open>Layout of a class\<close>

record ctype =
  ct_size :: nat
  ct_align :: nat

definition align_up :: "nat \<Rightarrow> nat \<Rightarrow> nat" where
  "align_up n a = (n + a - 1) div a * a"

text \<open>Members are placed in order of declaration, each at the next multiple of its alignment.\<close>

fun member_offsets :: "nat \<Rightarrow> ctype list \<Rightarrow> nat list" where
  "member_offsets off [] = []"
| "member_offsets off (t # ts) =
     align_up off (ct_align t) # member_offsets (align_up off (ct_align t) + ct_size t) ts"

definition ctype_ok :: "ctype \<Rightarrow> bool" where
  "ctype_ok t \<longleftrightarrow> 0 < ct_size t \<and> 0 < ct_align t"

section \<open>The padded wrapper\<close>

definition kCacheLineSize :: nat where
  "kCacheLineSize = 128"

record 'a CacheLinePadded =
  padded_value :: 'a

definition padded_init :: "'a \<Rightarrow> 'a CacheLinePadded" where
  "padded_init v = \<lparr>padded_value = v\<rparr>"

definition padded_get :: "'a CacheLinePadded \<Rightarrow> 'a" where
  "padded_get p = padded_value p"

lemma padded_get_init [simp]: "padded_get (padded_init v) = v"
  by (simp add: padded_get_def padded_init_def)

text \<open>\<open>alignas(kCacheLineSize)\<close>: the alignment is raised and the size rounded up to a multiple
  of it. (The compiler rejects the wrapper for a \<open>T\<close> of stricter alignment.)\<close>

definition padded_ctype :: "ctype \<Rightarrow> ctype" where
  "padded_ctype t = \<lparr>ct_size = align_up (ct_size t) kCacheLineSize, ct_align = kCacheLineSize\<rparr>"

definition atomic_word_ctype :: ctype where
  "atomic_word_ctype = \<lparr>ct_size = 8, ct_align = 8\<rparr>"

text \<open>The data members of the two rings, for elements of type \<open>e\<close>: a slot of
  \<open>MpmcRing\<close> holds the sequence number and the element.\<close>

definition array_ctype :: "nat \<Rightarrow> ctype \<Rightarrow> ctype" where
  "array_ctype n e = \<lparr>ct_size = n * ct_size e, ct_align = ct_align e\<rparr>"

definition spsc_members :: "nat \<Rightarrow> ctype \<Rightarrow> ctype list" where
  "spsc_members cap e =
     [padded_ctype atomic_word_ctype, padded_ctype atomic_word_ctype, array_ctype cap e]"

definition slot_ctype :: "ctype \<Rightarrow> ctype" where
  "slot_ctype e = (let a = max 8 (ct_align e) in
     \<lparr>ct_size = align_up (align_up 8 (ct_align e) + ct_size e) a, ct_align = a\<rparr>)"

definition mpmc_members :: "nat \<Rightarrow> ctype \<Rightarrow> ctype list" where
  "mpmc_members cap e = [array_ctype cap (slot_ctype e),
     padded_ctype atomic_word_ctype, padded_ctype atomic_word_ctype]"

section \<open>Padded members own their lines\<close>

lemma align_up_dvd: "a dvd align_up n a"
  by (simp add: align_up_def)

lemma align_up_ge:
  assumes "0 < a"
  shows "n \<le> align_up n a"
proof -
  have "n + a - 1 = (n + a - 1) div a * a + (n + a - 1) mod a" by simp
  moreover have "(n + a - 1) mod a < a" using assms by simp
  ultimately show ?thesis unfolding align_up_def by linarith
qed

lemma align_up_fit: "0 < n \<Longrightarrow> n \<le> 128 \<Longrightarrow> align_up n 128 = 128"
  by (auto simp: align_up_def div_nat_eqI)

lemma length_member_offsets [simp]: "length (member_offsets off ts) = length ts"
  by (induction ts arbitrary: off) simp_all

lemma member_offsets_ge:
  "\<forall>t\<in>set ts. ctype_ok t \<Longrightarrow> i < length ts \<Longrightarrow> off \<le> member_offsets off ts ! i"
proof (induction ts arbitrary: off i)
  case (Cons t ts)
  then have le: "off \<le> align_up off (ct_align t)" by (intro align_up_ge) (simp add: ctype_ok_def)
  show ?case
  proof (cases i)
    case (Suc i')
    with Cons.prems have "align_up off (ct_align t) + ct_size t
        \<le> member_offsets (align_up off (ct_align t) + ct_size t) ts ! i'"
      by (intro Cons.IH) auto
    with le Suc show ?thesis by simp
  qed (simp add: le)
qed simp

lemma member_offsets_disjoint:
  "\<forall>t\<in>set ts. ctype_ok t \<Longrightarrow> i < j \<Longrightarrow> j < length ts \<Longrightarrow>
   member_offsets off ts ! i + ct_size (ts ! i) \<le> member_offsets off ts ! j"
proof (induction ts arbitrary: off i j)
  case (Cons t ts)
  show ?case
  proof (cases i)
    case 0
    with Cons.prems member_offsets_ge [of ts "j - 1"] show ?thesis by (cases j) auto
  next
    case (Suc i')
    with Cons show ?thesis by (cases j) auto
  qed
qed simp

lemma member_offsets_aligned: "i < length ts \<Longrightarrow> ct_align (ts ! i) dvd member_offsets off ts ! i"
proof (induction ts arbitrary: off i)
  case (Cons t ts)
  then show ?case by (cases i) (auto simp: align_up_dvd)
qed simp

text \<open>An interval that starts and ends on line boundaries shares no line with what is outside.\<close>

lemma line_interval_own:
  fixes a b lo hi :: nat
  assumes "c dvd lo" and "c dvd hi" and "0 < c" and "lo \<le> a" and "a < hi" and "b < lo \<or> hi \<le> b"
  shows "a div c \<noteq> b div c"
proof -
  obtain l h where lh: "lo = c * l" "hi = c * h" using assms(1,2) by (elim dvdE)
  have "l \<le> a div c" "a div c < h"
    using assms lh by (auto simp: less_eq_div_iff_mult_less_eq div_less_iff_less_mult mult.commute)
  moreover have "b div c < l \<or> h \<le> b div c"
    using assms lh by (auto simp: less_eq_div_iff_mult_less_eq div_less_iff_less_mult mult.commute)
  ultimately show ?thesis by linarith
qed

definition in_member :: "nat \<Rightarrow> ctype list \<Rightarrow> nat \<Rightarrow> nat \<Rightarrow> bool" where
  "in_member base ts i a \<longleftrightarrow> i < length ts \<and> base + member_offsets 0 ts ! i \<le> a \<and>
     a < base + member_offsets 0 ts ! i + ct_size (ts ! i)"

lemma padded_own_lines:
  assumes ok: "\<forall>t\<in>set ts. ctype_ok t" and base: "kCacheLineSize dvd base"
    and pad: "ts ! i = padded_ctype t" and ne: "i \<noteq> j"
    and a: "in_member base ts i a" and b: "in_member base ts j b"
  shows "a div kCacheLineSize \<noteq> b div kCacheLineSize"
proof -
  let ?o = "\<lambda>k. member_offsets 0 ts ! k"
  have i: "i < length ts" and j: "j < length ts" using a b by (auto simp: in_member_def)
  have "kCacheLineSize dvd ?o i" using member_offsets_aligned [OF i] pad by (simp add: padded_ctype_def)
  then have lo: "kCacheLineSize dvd base + ?o i" using base by simp
  then have hi: "kCacheLineSize dvd base + ?o i + ct_size (ts ! i)"
    using pad by (simp add: padded_ctype_def align_up_dvd)
  have out: "b < base + ?o i \<or> base + ?o i + ct_size (ts ! i) \<le> b"
    using ne b member_offsets_disjoint [OF ok _ i, of j 0] member_offsets_disjoint [OF ok _ j, of i 0]
    by (cases "i < j") (auto simp: in_member_def)
  show ?thesis using lo hi _ _ _ out
    by (rule line_interval_own) (use a in \<open>auto simp: in_member_def kCacheLineSize_def\<close>)
qed

lemma padded_ctype_ok: "ctype_ok t \<Longrightarrow> ctype_ok (padded_ctype t)"
  using align_up_ge [of kCacheLineSize "ct_size t"]
  by (auto simp: ctype_ok_def padded_ctype_def kCacheLineSize_def)

lemma array_ctype_ok: "0 < n \<Longrightarrow> ctype_ok e \<Longrightarrow> ctype_ok (array_ctype n e)"
  by (simp add: ctype_ok_def array_ctype_def)

lemma slot_ctype_ok: "ctype_ok e \<Longrightarrow> ctype_ok (slot_ctype e)"
  using align_up_ge [of "max 8 (ct_align e)" "align_up 8 (ct_align e) + ct_size e"]
  by (fastforce simp: ctype_ok_def slot_ctype_def Let_def)

lemma atomic_word_ok: "ctype_ok atomic_word_ctype"
  by (simp add: ctype_ok_def atomic_word_ctype_def)

lemmas member_ok = padded_ctype_ok array_ctype_ok slot_ctype_ok atomic_word_ok

section \<open>Properties\<close>

text \<open>A padded member of an object that starts on a line-pair boundary shares no line pair
  with any other member of the object, wherever it is declared; its size is a multiple of the
  line-pair size, and exactly one pair for an object of at most 128 bytes.\<close>

lemma padded_member_isolated:
  assumes "\<forall>t\<in>set ts. ctype_ok t" and "kCacheLineSize dvd base" and "ts ! i = padded_ctype t"
    and "i \<noteq> j" and "in_member base ts i a" and "in_member base ts j b"
  shows "a div kCacheLineSize \<noteq> b div kCacheLineSize \<and>
    ct_size t \<le> ct_size (ts ! i) \<and> kCacheLineSize dvd ct_size (ts ! i) \<and>
    (0 < ct_size t \<longrightarrow> ct_size t \<le> kCacheLineSize \<longrightarrow> ct_size (ts ! i) = kCacheLineSize)"
  using padded_own_lines [OF assms] assms(3)
  by (simp add: padded_ctype_def align_up_ge align_up_dvd align_up_fit kCacheLineSize_def)

text \<open>The pair of 64-byte lines an address lies in, which the spatial prefetcher fetches together.\<close>

definition line_pair :: "nat \<Rightarrow> nat" where
  "line_pair a = a div 64 div 2"

lemma line_pair_kCacheLineSize: "line_pair a = a div kCacheLineSize"
  by (simp add: line_pair_def kCacheLineSize_def div_mult2_eq [symmetric])

text \<open>(C24) In a ring of either kind, for every element type and every capacity above 0, the two
  cursors and the storage are pairwise on different pairs of 64-byte lines, wherever the object is
  (its address is a multiple of the alignment of each of its members): a producer writing its cursor
  never invalidates the line of the consumer's cursor, nor of any element, and neither line is the
  other's neighbour that the prefetcher fetches with it.\<close>

theorem ring_cursors_isolated:
  assumes "0 < cap" and "ctype_ok e" and "\<forall>t \<in> set ts. ct_align t dvd base"
    and "ts = spsc_members cap e \<or> ts = mpmc_members cap e"
    and "i \<noteq> j" and "in_member base ts i a" and "in_member base ts j b"
  shows "line_pair a \<noteq> line_pair b"
proof -
  have ok: "\<forall>t\<in>set ts. ctype_ok t"
    using assms(1,2,4) by (auto simp: spsc_members_def mpmc_members_def member_ok)
  have base: "kCacheLineSize dvd base"
    using assms(3,4) by (auto simp: spsc_members_def mpmc_members_def padded_ctype_def)
  have "ts ! i = padded_ctype atomic_word_ctype \<or> ts ! j = padded_ctype atomic_word_ctype"
    using assms(4-7) by (auto simp: spsc_members_def mpmc_members_def in_member_def less_Suc_eq)
  then show ?thesis unfolding line_pair_kCacheLineSize
    using padded_own_lines [OF ok base _ assms(5,6,7)]
      padded_own_lines [OF ok base _ assms(5) [symmetric] assms(7,6)] by metis
qed

text \<open>The two cursors of a small ring of each kind, at the offsets the layout gives them.\<close>

theorem ring_cursors_isolated_witness:
  "line_pair (4096 + member_offsets 0 (spsc_members 8 \<lparr>ct_size = 4, ct_align = 4\<rparr>) ! 0) \<noteq>
     line_pair (4096 + member_offsets 0 (spsc_members 8 \<lparr>ct_size = 4, ct_align = 4\<rparr>) ! 1) \<and>
   line_pair (4096 + member_offsets 0 (mpmc_members 8 \<lparr>ct_size = 4, ct_align = 4\<rparr>) ! 1) \<noteq>
     line_pair (4096 + member_offsets 0 (mpmc_members 8 \<lparr>ct_size = 4, ct_align = 4\<rparr>) ! 2)"
proof -
  let ?e = "\<lparr>ct_size = 4, ct_align = 4\<rparr>"
  have start: "in_member base ts i (base + member_offsets 0 ts ! i)" if "i < length ts" "ctype_ok (ts ! i)" for base ts i
    using that by (simp add: in_member_def ctype_ok_def)
  note defs = spsc_members_def mpmc_members_def padded_ctype_def atomic_word_ctype_def array_ctype_def
    slot_ctype_def align_up_def kCacheLineSize_def ctype_ok_def
  show ?thesis
    using ring_cursors_isolated [of 8 ?e "spsc_members 8 ?e" 4096 0 1, OF _ _ _ _ _ start start]
      ring_cursors_isolated [of 8 ?e "mpmc_members 8 ?e" 4096 1 2, OF _ _ _ _ _ start start]
    by (simp add: defs)
qed

end
