(* ===== verification/Buffer_Pool.thy ===== *)
theory Buffer_Pool
  imports Index_Pool Cache_Line
begin

text \<open>
  \<open>ringio::BufferPool\<close> (include/ringio/detail/buffer_pool.hpp): construction with every error
  path and the calls it makes into the operating system, destruction, the packed head of the free
  list, \<open>acquire\<close> and \<open>release\<close> with their retry loops, and the geometry of the buffers. The
  operating system and the allocator behind \<open>std::vector\<close> are a parameter, a record of answers.
  The pool under several threads is in the theory \<open>Pool_Threads\<close>.
\<close>

section \<open>The packed head of the free list\<close>

definition kInvalidIndex :: u32 where
  "kInvalidIndex = - 1"

lemma unat_kInvalidIndex: "unat kInvalidIndex = 2 ^ 32 - 1"
  by (simp add: kInvalidIndex_def unsigned_minus_1_eq_mask mask_eq_exp_minus_1)

definition Pack :: "u32 \<Rightarrow> u32 \<Rightarrow> u64" where
  "Pack index tag = push_bit 32 (ucast tag) OR ucast index"

definition UnpackIndex :: "u64 \<Rightarrow> u32" where
  "UnpackIndex packed = ucast packed"

definition UnpackTag :: "u64 \<Rightarrow> u32" where
  "UnpackTag packed = ucast (drop_bit 32 packed)"

lemma UnpackIndex_Pack [simp]: "UnpackIndex (Pack i t) = i"
  by (rule bit_word_eqI) (simp add: UnpackIndex_def Pack_def bit_simps)

lemma UnpackTag_Pack [simp]: "UnpackTag (Pack i t) = t"
  by (rule bit_word_eqI) (auto simp: UnpackTag_def Pack_def bit_simps dest: bit_imp_le_length)

lemma Pack_Unpack [simp]: "Pack (UnpackIndex w) (UnpackTag w) = w"
  by (rule bit_word_eqI) (auto simp: UnpackIndex_def UnpackTag_def Pack_def bit_simps)

lemma Pack_eq_iff: "Pack i t = Pack j u \<longleftrightarrow> i = j \<and> t = u"
  by (metis UnpackIndex_Pack UnpackTag_Pack)

section \<open>The pool\<close>

record iovec =
  iov_base :: addr
  iov_len :: size_t

record BufferPool =
  bp_base :: addr
  bp_buffer_size :: size_t
  bp_buffer_count :: size_t
  bp_locked :: bool
  bp_iovecs :: "iovec list"
  free_head :: "u64 CacheLinePadded"
  free_next :: "u32 list"

text \<open>What the constructor asks of its surroundings: the page size, \<open>posix_memalign\<close> (an error
  number or the block), \<open>mlock\<close> (\<open>Some\<close> error number on failure), and whether a vector
  of so many bytes can be allocated. The calls that allocate, lock, unlock and free are recorded.\<close>

record pool_env =
  env_page_size :: size_t
  env_memalign :: "size_t \<Rightarrow> size_t \<Rightarrow> int + addr"
  env_mlock :: "addr \<Rightarrow> size_t \<Rightarrow> int option"
  env_vector_ok :: "nat \<Rightarrow> bool"

datatype os_call = Memalign addr size_t | Mlock addr size_t | Munlock addr size_t | Free addr

datatype pool_error = Invalid_argument | System_error int | Vector_error

definition pool_fill_step :: "nat \<Rightarrow> BufferPool \<Rightarrow> BufferPool" where
  "pool_fill_step i p = p\<lparr>
     bp_iovecs := bp_iovecs p @ [\<lparr>iov_base = bp_base p + of_nat i * bp_buffer_size p, iov_len = bp_buffer_size p\<rparr>],
     free_next := (free_next p)[i := if i = 0 then kInvalidIndex else of_nat (i - 1)]\<rparr>"

text \<open>The elements of \<open>free_next\<close> take 4 bytes, those of \<open>bp_iovecs\<close> 16. When the
  allocation of \<open>bp_iovecs\<close> throws, the destructor of the pool does not run.\<close>

definition BufferPool_ctor :: "pool_env \<Rightarrow> size_t \<Rightarrow> size_t \<Rightarrow> (pool_error + BufferPool) \<times> os_call list" where
  "BufferPool_ctor env buffer_count buffer_size =
     (if \<not> env_vector_ok env (4 * unat buffer_count) then (Inl Vector_error, [])
      else let p0 = \<lparr>bp_base = 0, bp_buffer_size = buffer_size, bp_buffer_count = buffer_count,
              bp_locked = False, bp_iovecs = [], free_head = padded_init (Pack kInvalidIndex 0),
              free_next = replicate (unat buffer_count) 0\<rparr> in
      if bp_buffer_count p0 = 0 then (Inl Invalid_argument, [])
      else let page_size = env_page_size env in
      if bp_buffer_size p0 = 0 \<or> bp_buffer_size p0 mod page_size \<noteq> 0 then (Inl Invalid_argument, [])
      else let total_size = bp_buffer_size p0 * bp_buffer_count p0 in
      case env_memalign env page_size total_size of
        Inl err \<Rightarrow> (Inl (System_error err), [])
      | Inr base \<Rightarrow>
          (let p1 = p0\<lparr>bp_base := base\<rparr> in
           case env_mlock env (bp_base p1) total_size of
             Some err \<Rightarrow> (Inl (System_error err), [Memalign base total_size, Free (bp_base p1)])
           | None \<Rightarrow>
               let calls = [Memalign base total_size, Mlock (bp_base p1) total_size] in
               if \<not> env_vector_ok env (16 * unat buffer_count) then (Inl Vector_error, calls)
               else (Inr ((fold pool_fill_step [0..<unat buffer_count] (p1\<lparr>bp_locked := True\<rparr>))
                 \<lparr>free_head := padded_init (Pack (ucast (buffer_count - 1)) 0)\<rparr>), calls)))"

definition BufferPool_dtor :: "BufferPool \<Rightarrow> os_call list" where
  "BufferPool_dtor p =
     (if bp_base p \<noteq> 0 then
        (if bp_locked p then [Munlock (bp_base p) (bp_buffer_size p * bp_buffer_count p)] else []) @ [Free (bp_base p)]
      else [])"

partial_function (option) acquire_loop ::
    "bool list \<Rightarrow> u64 \<Rightarrow> BufferPool \<Rightarrow> (u32 \<times> BufferPool) option" where
  "acquire_loop ws head p =
     (if UnpackIndex head = kInvalidIndex then Some (kInvalidIndex, p)
      else if length (free_next p) \<le> unat (UnpackIndex head) then None
      else if padded_get (free_head p) = head \<and> \<not> spurious ws
        then Some (UnpackIndex head, p\<lparr>free_head := padded_init
          (Pack (free_next p ! unat (UnpackIndex head)) (UnpackTag head + 1))\<rparr>)
        else acquire_loop (tl ws) (padded_get (free_head p)) p)"

definition acquire :: "bool list \<Rightarrow> BufferPool \<Rightarrow> (u32 \<times> BufferPool) option" where
  "acquire ws p = acquire_loop ws (padded_get (free_head p)) p"

partial_function (option) release_loop ::
    "bool list \<Rightarrow> u64 \<Rightarrow> BufferPool \<Rightarrow> u32 \<Rightarrow> BufferPool option" where
  "release_loop ws head p index =
     (if length (free_next p) \<le> unat index then None
      else let p' = p\<lparr>free_next := (free_next p)[unat index := UnpackIndex head]\<rparr> in
        if padded_get (free_head p') = head \<and> \<not> spurious ws
        then Some (p'\<lparr>free_head := padded_init (Pack index (UnpackTag head + 1))\<rparr>)
        else release_loop (tl ws) (padded_get (free_head p')) p' index)"

definition release :: "bool list \<Rightarrow> BufferPool \<Rightarrow> u32 \<Rightarrow> BufferPool option" where
  "release ws p index = release_loop ws (padded_get (free_head p)) p index"

definition pool_data :: "BufferPool \<Rightarrow> u32 \<Rightarrow> addr" where
  "pool_data p index = bp_base p + ucast index * bp_buffer_size p"

definition pool_buffer_size :: "BufferPool \<Rightarrow> size_t" where
  "pool_buffer_size p = bp_buffer_size p"

definition pool_buffer_count :: "BufferPool \<Rightarrow> size_t" where
  "pool_buffer_count p = bp_buffer_count p"

definition pool_iovecs :: "BufferPool \<Rightarrow> iovec list" where
  "pool_iovecs p = bp_iovecs p"

section \<open>The free list\<close>

fun free_chain :: "u32 list \<Rightarrow> u32 \<Rightarrow> u32 list \<Rightarrow> bool" where
  "free_chain nx h [] \<longleftrightarrow> h = kInvalidIndex"
| "free_chain nx h (x # xs) \<longleftrightarrow> h = x \<and> x \<noteq> kInvalidIndex \<and> unat x < length nx \<and>
     free_chain nx (nx ! unat x) xs"

fun free_walk :: "nat \<Rightarrow> u32 list \<Rightarrow> u32 \<Rightarrow> u32 list" where
  "free_walk 0 nx h = []"
| "free_walk (Suc n) nx h =
     (if h = kInvalidIndex \<or> length nx \<le> unat h then [] else h # free_walk n nx (nx ! unat h))"

text \<open>The free indices in the order \<open>acquire\<close> hands them out; no walk is longer than the
  table of links.\<close>

definition pool_free :: "BufferPool \<Rightarrow> u32 list" where
  "pool_free p = free_walk (length (free_next p)) (free_next p) (UnpackIndex (padded_get (free_head p)))"

definition pool_univ :: "BufferPool \<Rightarrow> u32 set" where
  "pool_univ p = {i. unat i < length (free_next p)}"

definition pool_inv :: "BufferPool \<Rightarrow> bool" where
  "pool_inv p \<longleftrightarrow> unat (bp_buffer_count p) < 2 ^ 32 \<and> length (free_next p) = unat (bp_buffer_count p) \<and>
     distinct (pool_free p) \<and>
     free_chain (free_next p) (UnpackIndex (padded_get (free_head p))) (pool_free p)"

lemma free_chain_bound: "free_chain nx h xs \<Longrightarrow> x \<in> set xs \<Longrightarrow> unat x < length nx"
  by (induction nx h xs rule: free_chain.induct) auto

lemma free_chain_length:
  assumes "free_chain nx h xs" and "distinct xs"
  shows "length xs \<le> length nx"
proof -
  have "unat ` set xs \<subseteq> {..<length nx}" using free_chain_bound [OF assms(1)] by auto
  then have "card (unat ` set xs) \<le> length nx" by (metis card_lessThan card_mono finite_lessThan)
  moreover have "card (unat ` set xs) = length xs"
    using assms(2) by (metis card_image distinct_card inj_on_def unsigned_word_eqI)
  ultimately show ?thesis by simp
qed

lemma free_walk_chain: "free_chain nx h xs \<Longrightarrow> length xs \<le> n \<Longrightarrow> free_walk n nx h = xs"
proof (induction n arbitrary: h xs)
  case (Suc n)
  then show ?case by (cases xs) auto
qed simp

lemma free_walk_fuel:
  assumes "free_chain nx h xs" and "distinct xs"
  shows "free_walk (length nx) nx h = xs"
  using free_walk_chain [OF assms(1) free_chain_length [OF assms]] .

lemma free_chain_update:
  "i \<notin> set xs \<Longrightarrow> free_chain (nx[unat i := v]) h xs = free_chain nx h xs"
proof (induction nx h xs rule: free_chain.induct)
  case (2 nx h x xs)
  then have "unat i \<noteq> unat x" by (auto dest: unsigned_word_eqI)
  with 2 show ?case by auto
qed simp

lemma pool_invI:
  assumes "unat (bp_buffer_count p) < 2 ^ 32" and "length (free_next p) = unat (bp_buffer_count p)"
    and "distinct xs" and "free_chain (free_next p) (UnpackIndex (padded_get (free_head p))) xs"
  shows "pool_inv p \<and> pool_free p = xs"
  using assms free_walk_fuel [OF assms(4,3)] by (simp add: pool_inv_def pool_free_def)

section \<open>The operations on the free list\<close>

lemma acquire_loop_current:
  assumes "padded_get (free_head p) = head" and "UnpackIndex head \<noteq> kInvalidIndex"
    and "unat (UnpackIndex head) < length (free_next p)"
  shows "acquire_loop ws head p = Some (UnpackIndex head, p\<lparr>free_head := padded_init
    (Pack (free_next p ! unat (UnpackIndex head)) (UnpackTag head + 1))\<rparr>)"
  using assms
proof (induction ws)
  case Nil
  then show ?case by (simp add: acquire_loop.simps)
next
  case (Cons w ws)
  then show ?case by (subst acquire_loop.simps) simp
qed

lemma release_loop_current:
  assumes "padded_get (free_head p) = head" and "unat i < length (free_next p)"
  shows "release_loop ws head p i = Some (p\<lparr>
    free_next := (free_next p)[unat i := UnpackIndex head],
    free_head := padded_init (Pack i (UnpackTag head + 1))\<rparr>)"
  using assms
proof (induction ws arbitrary: p)
  case Nil
  then show ?case by (simp add: release_loop.simps)
next
  case (Cons w ws)
  then show ?case
    by (subst release_loop.simps) (simp add: Let_def Cons.IH [of "p\<lparr>free_next := (free_next p)[unat i := UnpackIndex head]\<rparr>"])
qed

lemma pool_acquire_empty:
  assumes "pool_inv p" and "pool_free p = []"
  shows "acquire ws p = Some (kInvalidIndex, p)"
  using assms by (simp add: pool_inv_def acquire_def acquire_loop.simps)

lemma pool_acquire_first:
  assumes inv: "pool_inv p" and fr: "pool_free p = x # xs"
  shows "\<exists>p'. acquire ws p = Some (x, p') \<and> pool_inv p' \<and> pool_free p' = xs \<and> pool_univ p' = pool_univ p"
proof -
  let ?h = "padded_get (free_head p)"
  let ?p = "p\<lparr>free_head := padded_init (Pack (free_next p ! unat x) (UnpackTag ?h + 1))\<rparr>"
  have h: "UnpackIndex ?h = x" "x \<noteq> kInvalidIndex" "unat x < length (free_next p)"
    "free_chain (free_next p) (free_next p ! unat x) xs" "distinct xs"
    using inv fr by (auto simp: pool_inv_def)
  then have "acquire ws p = Some (x, ?p)" by (simp add: acquire_def acquire_loop_current)
  moreover have "pool_inv ?p \<and> pool_free ?p = xs"
    using inv h by (intro pool_invI) (auto simp: pool_inv_def)
  ultimately show ?thesis by (auto simp: pool_univ_def)
qed

lemma pool_release_held:
  assumes inv: "pool_inv p" and x: "x \<in> pool_univ p" "x \<notin> set (pool_free p)"
  shows "\<exists>p'. release ws p x = Some p' \<and> pool_inv p' \<and> pool_free p' = x # pool_free p \<and>
    pool_univ p' = pool_univ p"
proof -
  let ?h = "padded_get (free_head p)"
  let ?p = "p\<lparr>free_next := (free_next p)[unat x := UnpackIndex ?h],
    free_head := padded_init (Pack x (UnpackTag ?h + 1))\<rparr>"
  have lt: "unat x < length (free_next p)" using x(1) by (simp add: pool_univ_def)
  have "unat x < 2 ^ 32 - 1" using lt inv by (simp add: pool_inv_def)
  then have "x \<noteq> kInvalidIndex" by (auto simp: unat_kInvalidIndex)
  then have "pool_inv ?p \<and> pool_free ?p = x # pool_free p"
    using inv lt x(2) by (intro pool_invI) (auto simp: pool_inv_def free_chain_update)
  moreover have "release ws p x = Some ?p" using lt by (simp add: release_def release_loop_current)
  ultimately show ?thesis by (auto simp: pool_univ_def)
qed

interpretation pool: index_pool acquire release pool_free pool_univ pool_inv kInvalidIndex
proof unfold_locales
  show "kInvalidIndex \<notin> pool_univ p" if "pool_inv p" for p
    using that by (simp add: pool_univ_def pool_inv_def unat_kInvalidIndex)
  show "set (pool_free p) \<subseteq> pool_univ p" if "pool_inv p" for p
    using that free_chain_bound [of "free_next p" _ "pool_free p"]
    by (auto simp: pool_univ_def pool_inv_def)
qed (use pool_acquire_empty pool_acquire_first pool_release_held in \<open>auto simp: pool_inv_def\<close>)

section \<open>Construction\<close>

definition link :: "nat \<Rightarrow> u32" where
  "link i = (if i = 0 then kInvalidIndex else of_nat (i - 1))"

definition buffer_iovec :: "addr \<Rightarrow> size_t \<Rightarrow> nat \<Rightarrow> iovec" where
  "buffer_iovec base sz i = \<lparr>iov_base = base + of_nat i * sz, iov_len = sz\<rparr>"

lemma pool_fill_step_link: "pool_fill_step i p = p\<lparr>
     bp_iovecs := bp_iovecs p @ [buffer_iovec (bp_base p) (bp_buffer_size p) i],
     free_next := (free_next p)[i := link i]\<rparr>"
  by (simp add: pool_fill_step_def buffer_iovec_def link_def)

lemma fold_pool_fill:
  "n \<le> length (free_next p) \<Longrightarrow> fold pool_fill_step [0..<n] p = p\<lparr>
     bp_iovecs := bp_iovecs p @ map (buffer_iovec (bp_base p) (bp_buffer_size p)) [0..<n],
     free_next := map link [0..<n] @ drop n (free_next p)\<rparr>"
proof (induction n)
  case (Suc n)
  have "(map link [0..<n] @ drop n (free_next p))[n := link n] = map link [0..<Suc n] @ drop (Suc n) (free_next p)"
    using Suc.prems by (simp add: list_update_append Cons_nth_drop_Suc [symmetric])
  with Suc show ?case by (simp add: pool_fill_step_link)
qed simp

definition built_pool :: "addr \<Rightarrow> size_t \<Rightarrow> size_t \<Rightarrow> BufferPool" where
  "built_pool base n sz = \<lparr>bp_base = base, bp_buffer_size = sz, bp_buffer_count = n,
     bp_locked = True, bp_iovecs = map (buffer_iovec base sz) [0..<unat n],
     free_head = padded_init (Pack (ucast (n - 1)) 0), free_next = map link [0..<unat n]\<rparr>"

definition ctor_accepts :: "pool_env \<Rightarrow> size_t \<Rightarrow> size_t \<Rightarrow> addr \<Rightarrow> bool" where
  "ctor_accepts env n sz base \<longleftrightarrow> env_vector_ok env (4 * unat n) \<and> n \<noteq> 0 \<and> sz \<noteq> 0 \<and>
     sz mod env_page_size env = 0 \<and> env_memalign env (env_page_size env) (sz * n) = Inr base \<and>
     env_mlock env base (sz * n) = None \<and> env_vector_ok env (16 * unat n)"

lemma BufferPool_ctor_built:
  assumes "ctor_accepts env n sz base"
  shows "BufferPool_ctor env n sz =
    (Inr (built_pool base n sz), [Memalign base (sz * n), Mlock base (sz * n)])"
  using assms by (simp add: BufferPool_ctor_def ctor_accepts_def Let_def built_pool_def fold_pool_fill)

lemma BufferPool_ctor_success:
  assumes "BufferPool_ctor env n sz = (Inr p, calls)"
  obtains base where "ctor_accepts env n sz base" and "p = built_pool base n sz"
    and "calls = [Memalign base (sz * n), Mlock base (sz * n)]"
proof -
  from assms obtain base where b: "ctor_accepts env n sz base"
    by (auto simp: BufferPool_ctor_def ctor_accepts_def Let_def
        split: if_splits sum.splits option.splits)
  with BufferPool_ctor_built [OF b] assms that show thesis by simp
qed

lemma unat_of_nat_u32: "k < 2 ^ 32 \<Longrightarrow> unat (of_nat k :: u32) = k"
  by (simp add: unat_of_nat)

lemma of_nat_neq_invalid:
  assumes "k < 2 ^ 32 - 1"
  shows "(of_nat k :: u32) \<noteq> kInvalidIndex"
proof
  assume "(of_nat k :: u32) = kInvalidIndex"
  then have "unat (of_nat k :: u32) = 2 ^ 32 - 1" by (simp add: unat_kInvalidIndex)
  with assms unat_of_nat_u32 [of k] show False by simp
qed

lemma initial_chain:
  assumes "k < n" and "n < 2 ^ 32"
  shows "free_chain (map link [0..<n]) (of_nat k) (map of_nat (rev [0..<Suc k]))"
  using assms(1)
proof (induction k)
  case 0
  then show ?case using assms(2) of_nat_neq_invalid [of 0] by (simp add: link_def)
next
  case (Suc k)
  have "unat (of_nat (Suc k) :: u32) = Suc k" using Suc.prems assms(2) by (intro unat_of_nat_u32) simp
  moreover have "(of_nat (Suc k) :: u32) \<noteq> kInvalidIndex"
    using Suc.prems assms(2) by (intro of_nat_neq_invalid) simp
  moreover have "map link [0..<n] ! Suc k = of_nat k" using Suc.prems by (simp add: link_def)
  ultimately show ?case using Suc by auto
qed

lemma distinct_initial:
  assumes "n < 2 ^ 32"
  shows "distinct (map (of_nat :: nat \<Rightarrow> u32) (rev [0..<n]))"
  using assms by (auto simp: distinct_map inj_on_def unat_of_nat dest!: arg_cong [of _ _ unat])

lemma initial_set:
  assumes "n < 2 ^ 32"
  shows "set (map (of_nat :: nat \<Rightarrow> u32) (rev [0..<n])) = {i. unat i < n}"
  using assms by (force simp: unat_of_nat image_iff intro: bexI [of _ "unat _"])

lemma built_pool_ok:
  assumes "n \<noteq> 0" and "unat n < 2 ^ 32"
  shows "pool_inv (built_pool base n sz) \<and>
    pool_free (built_pool base n sz) = map of_nat (rev [0..<unat n])"
proof (rule pool_invI)
  have "0 < unat n" using assms(1) by (simp add: unat_gt_0)
  then obtain k where k: "unat n = Suc k" using gr0_conv_Suc by blast
  then have "unat (n - 1) = k" using assms(1) by (simp add: unat_minus_one)
  then have "(ucast (n - 1) :: u32) = of_nat k" by (metis of_nat_unat)
  with initial_chain [of k "unat n"] assms(2) k
  show "free_chain (free_next (built_pool base n sz))
     (UnpackIndex (padded_get (free_head (built_pool base n sz)))) (map of_nat (rev [0..<unat n]))"
    by (simp add: built_pool_def)
qed (use assms distinct_initial in \<open>simp_all add: built_pool_def\<close>)

lemma built_pool_univ: "pool_univ (built_pool base n sz) = {i. unat i < unat n}"
  by (simp add: pool_univ_def built_pool_def)

section \<open>Resources of the operating system\<close>

text \<open>The blocks allocated and the ranges locked after a sequence of calls.\<close>

fun os_effect :: "os_call \<Rightarrow> addr list \<times> (addr \<times> size_t) list \<Rightarrow> addr list \<times> (addr \<times> size_t) list" where
  "os_effect (Memalign b n) (al, lk) = (b # al, lk)"
| "os_effect (Mlock b n) (al, lk) = (al, (b, n) # lk)"
| "os_effect (Munlock b n) (al, lk) = (al, remove1 (b, n) lk)"
| "os_effect (Free b) (al, lk) = (remove1 b al, lk)"

definition os_held :: "os_call list \<Rightarrow> addr list \<times> (addr \<times> size_t) list" where
  "os_held calls = fold os_effect calls ([], [])"

text \<open>What \<open>posix_memalign\<close> documents: the block is aligned as asked, lies in the address
  space without wrapping round, and is not null unless its size is 0.\<close>

definition memalign_documented :: "pool_env \<Rightarrow> bool" where
  "memalign_documented env \<longleftrightarrow> (\<forall>al n b. env_memalign env al n = Inr b \<longrightarrow>
     unat al dvd unat b \<and> unat b + unat n \<le> 2 ^ 64 \<and> (n \<noteq> 0 \<longrightarrow> b \<noteq> 0))"

lemma total_size_nz:
  fixes sz n :: size_t
  assumes "unat sz * unat n < 2 ^ 64" and "sz \<noteq> 0" and "n \<noteq> 0"
  shows "unat (sz * n) = unat sz * unat n" and "sz * n \<noteq> 0"
proof -
  show e: "unat (sz * n) = unat sz * unat n" using assms(1) by (simp add: unat_word_ariths)
  have "0 < unat sz * unat n" using assms(2,3) by (simp add: unat_gt_0)
  with e show "sz * n \<noteq> 0" by (metis less_irrefl unat_0)
qed

section \<open>Geometry of the buffers\<close>

lemma unat_ucast_u32: "unat (ucast (i :: u32) :: size_t) = unat i"
proof -
  have "unat i < 2 ^ 64" using unsigned_less [of i, where ?'a = nat] by simp
  then show ?thesis by (simp add: unsigned_ucast_eq take_bit_nat_eq_self)
qed

lemma unat_pool_data:
  assumes "unat base + unat sz * unat n \<le> 2 ^ 64" and "unat i < unat n" and "sz \<noteq> 0"
  shows "unat (pool_data (built_pool base n sz) i) = unat base + unat i * unat sz"
proof -
  have "Suc (unat i) * unat sz \<le> unat n * unat sz" using assms(2) by (intro mult_le_mono1) simp
  moreover have "0 < unat sz" using assms(3) by (simp add: unat_gt_0)
  ultimately have lt: "unat base + unat i * unat sz < 2 ^ 64"
    using assms(1) by (simp add: mult.commute)
  then show ?thesis by (simp add: pool_data_def built_pool_def unat_word_ariths unat_ucast_u32)
qed

lemma buffer_end: "i < n \<Longrightarrow> i * s + s \<le> n * (s :: nat)"
  by (metis add.commute mult_Suc mult_le_mono1 Suc_leI)

lemma buffers_apart: "i \<noteq> j \<Longrightarrow> i * s + s \<le> j * s \<or> j * s + s \<le> i * (s :: nat)"
  by (metis buffer_end nat_neq_iff)

lemma ctor_iovec:
  assumes "BufferPool_ctor env n sz = (Inr p, calls)" and "unat (i :: u32) < unat n"
  shows "pool_iovecs p ! unat i = \<lparr>iov_base = pool_data p i, iov_len = pool_buffer_size p\<rparr>"
  by (rule BufferPool_ctor_success [OF assms(1)])
    (simp add: assms(2) pool_iovecs_def built_pool_def buffer_iovec_def pool_data_def pool_buffer_size_def)

lemma ctor_sizes:
  assumes "BufferPool_ctor env n sz = (Inr p, calls)"
  shows "length (pool_iovecs p) = unat n" and "pool_buffer_size p = sz" and "pool_buffer_count p = n"
  by (rule BufferPool_ctor_success [OF assms],
      simp add: pool_iovecs_def built_pool_def pool_buffer_size_def pool_buffer_count_def)+

section \<open>Properties\<close>

text \<open>Packing loses nothing: index and tag are recovered from a packed head, and every 64-bit
  word is the packing of its two halves, so comparing packed heads compares both.\<close>

lemma pack_roundtrip:
  "UnpackIndex (Pack i t) = i \<and> UnpackTag (Pack i t) = t \<and> Pack (UnpackIndex w) (UnpackTag w) = w \<and>
   (Pack i t = Pack j u \<longleftrightarrow> i = j \<and> t = u)"
  by (simp add: Pack_eq_iff)

text \<open>The constructor succeeds exactly when both vectors can be allocated, both arguments are
  accepted, and the block is obtained and locked; no other condition makes it throw.\<close>

lemma BufferPool_ctor_iff:
  "(\<exists>p calls. BufferPool_ctor env n sz = (Inr p, calls)) \<longleftrightarrow>
   (n \<noteq> 0 \<and> sz \<noteq> 0 \<and> sz mod env_page_size env = 0 \<and>
    env_vector_ok env (4 * unat n) \<and> env_vector_ok env (16 * unat n) \<and>
    (\<exists>base. env_memalign env (env_page_size env) (sz * n) = Inr base \<and> env_mlock env base (sz * n) = None))"
proof -
  have "(\<exists>p calls. BufferPool_ctor env n sz = (Inr p, calls)) \<longleftrightarrow> (\<exists>base. ctor_accepts env n sz base)"
    using BufferPool_ctor_built BufferPool_ctor_success by metis
  then show ?thesis unfolding ctor_accepts_def by metis
qed

text \<open>(C22) A constructed pool of fewer than \<open>2 ^ 32\<close> buffers satisfies the invariant, has every
  index free in descending order, and describes buffer \<open>i\<close> by \<open>iovecs()[i]\<close> with the address
  and length that \<open>data(i)\<close> and \<open>buffer_size()\<close> report. The first \<open>acquire\<close> hands out the highest
  index.\<close>

theorem BufferPool_ctor_establishes:
  assumes "BufferPool_ctor env n sz = (Inr p, calls)" and "unat n < 2 ^ 32"
  shows "pool_inv p \<and> pool_free p = map of_nat (rev [0..<unat n]) \<and>
    pool_buffer_count p = n \<and> pool_buffer_size p = sz \<and> length (pool_iovecs p) = unat n \<and>
    (\<forall>i. unat i < unat n \<longrightarrow>
      pool_iovecs p ! unat i = \<lparr>iov_base = pool_data p i, iov_len = pool_buffer_size p\<rparr>) \<and>
    (\<forall>ws. \<exists>p'. acquire ws p = Some (of_nat (unat n - 1), p'))"
proof -
  obtain base where b: "ctor_accepts env n sz base" "p = built_pool base n sz"
    by (rule BufferPool_ctor_success [OF assms(1)])
  have "n \<noteq> 0" using b(1) by (simp add: ctor_accepts_def)
  then have ok: "pool_inv p" "pool_free p = map of_nat (rev [0..<unat n])"
    using built_pool_ok [OF _ assms(2), of base sz] b(2) by simp_all
  have "0 < unat n" using \<open>n \<noteq> 0\<close> by (simp add: unat_gt_0)
  then obtain k where "unat n = Suc k" using gr0_conv_Suc by blast
  with ok(2) have "pool_free p = of_nat (unat n - 1) # map of_nat (rev [0..<k])" by simp
  from pool_acquire_first [OF ok(1) this] have "\<forall>ws. \<exists>p'. acquire ws p = Some (of_nat (unat n - 1), p')" by blast
  with ok b(2) ctor_iovec [OF assms(1)] show ?thesis
    by (simp add: built_pool_def pool_buffer_count_def pool_buffer_size_def pool_iovecs_def)
qed

text \<open>An environment that grants every request, with its block at address 65536.\<close>

definition demo_env :: pool_env where
  "demo_env = \<lparr>env_page_size = 4096,
     env_memalign = (\<lambda>al n. if al = 4096 \<and> n \<le> 65536 then Inr 65536 else Inl 12),
     env_mlock = (\<lambda>b n. None), env_vector_ok = (\<lambda>n. True)\<rparr>"

lemma demo_ctor: "BufferPool_ctor demo_env 3 4096 =
  (Inr (built_pool 65536 3 4096), [Memalign 65536 12288, Mlock 65536 12288])"
  using BufferPool_ctor_built [of demo_env 3 4096 65536]
  by (simp add: ctor_accepts_def demo_env_def)

lemma demo_env_documented: "memalign_documented demo_env"
  by (auto simp: memalign_documented_def demo_env_def word_le_nat_alt split: if_splits)

theorem BufferPool_ctor_establishes_witness:
  "pool_free (built_pool 65536 3 4096) = [2, 1, 0] \<and> length (pool_iovecs (built_pool 65536 3 4096)) = 3"
  using BufferPool_ctor_establishes [OF demo_ctor] by (simp add: upt_rec)

text \<open>(C21) The buffers of a constructed pool are page-aligned, lie inside the one allocated block,
  and do not overlap, provided the total size fits into \<open>size_t\<close> and \<open>posix_memalign\<close> keeps its
  documented promises.\<close>

theorem pool_buffers_disjoint:
  assumes "memalign_documented env" and "BufferPool_ctor env n sz = (Inr p, calls)"
    and "unat sz * unat n < 2 ^ 64" and "unat i < unat n" and "unat j < unat n" and "i \<noteq> j"
  shows "unat (env_page_size env) dvd unat (pool_data p i) \<and>
    unat (bp_base p) \<le> unat (pool_data p i) \<and>
    unat (pool_data p i) + unat sz \<le> unat (bp_base p) + unat sz * unat n \<and>
    (unat (pool_data p i) + unat sz \<le> unat (pool_data p j) \<or>
     unat (pool_data p j) + unat sz \<le> unat (pool_data p i))"
proof -
  obtain base where b: "ctor_accepts env n sz base" "p = built_pool base n sz"
    by (rule BufferPool_ctor_success [OF assms(2)])
  then have nz: "sz \<noteq> 0" "n \<noteq> 0" and pg: "sz mod env_page_size env = 0"
    and al: "env_memalign env (env_page_size env) (sz * n) = Inr base"
    by (simp_all add: ctor_accepts_def)
  have doc: "unat (env_page_size env) dvd unat base" "unat base + unat sz * unat n \<le> 2 ^ 64"
    using assms(1) al total_size_nz(1) [OF assms(3) nz] by (metis memalign_documented_def)+
  have psz: "unat (env_page_size env) dvd unat sz"
    using pg by (metis dvd_eq_mod_eq_0 unat_mod unat_0)
  note d = unat_pool_data [OF doc(2) _ nz(1), folded b(2)]
  have base: "bp_base p = base" by (simp add: b(2) built_pool_def)
  have ne: "unat i \<noteq> unat j" using assms(6) by (auto dest: unsigned_word_eqI)
  show ?thesis
    using d [OF assms(4)] d [OF assms(5)] base doc(1) psz
      buffers_apart [OF ne, of "unat sz"] buffer_end [OF assms(4), of "unat sz"]
    by (auto simp: mult.commute)
qed

theorem pool_buffers_disjoint_witness:
  "unat (pool_data (built_pool 65536 3 4096) 0) + 4096 \<le> unat (pool_data (built_pool 65536 3 4096) 2) \<or>
   unat (pool_data (built_pool 65536 3 4096) 2) + 4096 \<le> unat (pool_data (built_pool 65536 3 4096) 0)"
  using pool_buffers_disjoint [OF demo_env_documented demo_ctor, of 0 2] by simp

text \<open>(C23) A constructor that throws leaves nothing allocated or locked (when the second vector
  can be allocated), and a pool that is constructed and destroyed gives back what it took.\<close>

theorem pool_resources_returned:
  assumes "memalign_documented env" and "unat sz * unat n < 2 ^ 64"
    and "env_vector_ok env (16 * unat n)"
  shows "(\<forall>e calls. BufferPool_ctor env n sz = (Inl e, calls) \<longrightarrow> os_held calls = ([], [])) \<and>
    (\<forall>p calls. BufferPool_ctor env n sz = (Inr p, calls) \<longrightarrow>
      os_held calls = ([bp_base p], [(bp_base p, sz * n)]) \<and>
      os_held (calls @ BufferPool_dtor p) = ([], []))"
proof (intro conjI allI impI)
  fix e calls
  assume "BufferPool_ctor env n sz = (Inl e, calls)"
  with assms(3) show "os_held calls = ([], [])"
    by (auto simp: BufferPool_ctor_def Let_def os_held_def split: if_splits sum.splits option.splits)
next
  fix p calls
  assume c: "BufferPool_ctor env n sz = (Inr p, calls)"
  then obtain base where b: "ctor_accepts env n sz base" "p = built_pool base n sz"
    "calls = [Memalign base (sz * n), Mlock base (sz * n)]"
    by (rule BufferPool_ctor_success)
  have "base \<noteq> 0"
    using b(1) assms(1) total_size_nz(2) [OF assms(2)]
    by (metis ctor_accepts_def memalign_documented_def)
  with b show "os_held calls = ([bp_base p], [(bp_base p, sz * n)])"
    and "os_held (calls @ BufferPool_dtor p) = ([], [])"
    by (simp_all add: os_held_def BufferPool_dtor_def built_pool_def)
qed

theorem pool_resources_returned_witness:
  "os_held ([Memalign 65536 12288, Mlock 65536 12288] @ BufferPool_dtor (built_pool 65536 3 4096)) = ([], [])"
  using pool_resources_returned [OF demo_env_documented, of 4096 3] demo_ctor
  by (simp add: demo_env_def)

text \<open>(C28) When \<open>iovecs_.reserve\<close> throws, the block stays allocated and locked: the destructor of
  a pool whose constructor threw does not run, and no other owner frees it.\<close>

theorem pool_ctor_reserve_leaks:
  assumes "env_vector_ok env (4 * unat n)" and "\<not> env_vector_ok env (16 * unat n)"
    and "n \<noteq> 0" and "sz \<noteq> 0" and "sz mod env_page_size env = 0"
    and "env_memalign env (env_page_size env) (sz * n) = Inr base"
    and "env_mlock env base (sz * n) = None"
  shows "\<exists>calls. BufferPool_ctor env n sz = (Inl Vector_error, calls) \<and>
    os_held calls = ([base], [(base, sz * n)])"
  using assms by (simp add: BufferPool_ctor_def Let_def os_held_def)

theorem pool_ctor_reserve_leaks_witness:
  "\<exists>calls. BufferPool_ctor (demo_env\<lparr>env_vector_ok := (\<lambda>b. b \<le> 32)\<rparr>) 3 4096 = (Inl Vector_error, calls) \<and>
    os_held calls = ([65536], [(65536, 12288)])"
  using pool_ctor_reserve_leaks [of "demo_env\<lparr>env_vector_ok := (\<lambda>b. b \<le> 32)\<rparr>" 3 4096 65536]
  by (simp add: demo_env_def)

text \<open>(C27) The product of count and size is not checked: when it is a multiple of \<open>2 ^ 64\<close> the
  constructor allocates and locks a block of 0 bytes and still succeeds, although buffer 1
  starts \<open>buffer_size\<close> bytes after the block.\<close>

theorem pool_size_wraps:
  assumes "unat sz * unat n = k * 2 ^ 64" and "ctor_accepts env n sz base"
  shows "\<exists>p. BufferPool_ctor env n sz = (Inr p, [Memalign base 0, Mlock base 0]) \<and>
    pool_data p 1 = base + sz \<and> sz \<noteq> 0"
proof -
  have "unat (sz * n) = 0" using assms(1) by (simp add: unat_word_ariths)
  then have "sz * n = 0" by (simp add: unat_eq_0)
  with BufferPool_ctor_built [OF assms(2)] assms(2) show ?thesis
    by (simp add: pool_data_def built_pool_def ctor_accepts_def)
qed

theorem pool_size_wraps_witness:
  "\<exists>p. BufferPool_ctor demo_env 16 (2 ^ 60) = (Inr p, [Memalign 65536 0, Mlock 65536 0])"
  using pool_size_wraps [of "2 ^ 60" 16 1 demo_env 65536]
  by (auto simp: ctor_accepts_def demo_env_def)

text \<open>(C20) Whatever sequence of calls a client makes on a constructed pool, with any spurious
  failures, every call returns, the indices it holds are distinct and in range, and together with
  the free ones they are all the indices of the pool: none is lost and none is handed out twice.\<close>

theorem pool_run_conserves:
  assumes "BufferPool_ctor env n sz = (Inr p, calls)" and "unat n < 2 ^ 32"
  shows "\<exists>held p'. pool_run acquire release kInvalidIndex ops [] p = Some (held, p') \<and>
    distinct (held @ pool_free p') \<and> set (held @ pool_free p') = {i. unat i < unat n}"
proof -
  obtain base where b: "ctor_accepts env n sz base" "p = built_pool base n sz"
    by (rule BufferPool_ctor_success [OF assms(1)])
  have ok: "pool_inv p" "pool_free p = map of_nat (rev [0..<unat n])"
    using built_pool_ok [OF _ assms(2), of base sz] b by (auto simp: ctor_accepts_def)
  have "set (pool_free p) = {i. unat i < unat n}"
    using ok(2) initial_set [OF assms(2)] by simp
  then have "pool_ledger [] (pool_free p) (pool_univ p)"
    using pool.free_distinct [OF ok(1)] b(2) by (simp add: pool_ledger_def built_pool_univ)
  from pool.pool_run_ledger [OF ok(1) this, of ops] b(2) show ?thesis
    by (auto simp: pool_ledger_def built_pool_univ)
qed

theorem pool_run_conserves_witness:
  "\<exists>held p'. pool_run acquire release kInvalidIndex [Acq [], Acq [True], Rel [] 0, Acq []] []
      (built_pool 65536 3 4096) = Some (held, p') \<and>
    distinct (held @ pool_free p') \<and> set (held @ pool_free p') = {i. unat i < 3}"
  using pool_run_conserves [OF demo_ctor, of "[Acq [], Acq [True], Rel [] 0, Acq []]"]
  by (simp del: pool_run.simps)

text \<open>\<open>n\<close> calls of \<open>acquire\<close> on a fresh pool of \<open>n\<close> buffers hand out every index,
  the highest first, and the next call returns \<open>kInvalidIndex\<close> and changes nothing.\<close>

lemma pool_acquire_order:
  assumes "BufferPool_ctor env n sz = (Inr p, calls)" and "unat n < 2 ^ 32" and "length ws = unat n"
  shows "\<exists>p'. pool_run acquire release kInvalidIndex (map Acq ws) [] p = Some (map of_nat [0..<unat n], p') \<and>
    acquire w p' = Some (kInvalidIndex, p') \<and>
    (\<exists>p1. acquire w p = Some (of_nat (unat n - 1), p1))"
proof -
  obtain base where b: "ctor_accepts env n sz base" "p = built_pool base n sz"
    by (rule BufferPool_ctor_success [OF assms(1)])
  have ok: "pool_inv p" "pool_free p = map of_nat (rev [0..<unat n])"
    using built_pool_ok [OF _ assms(2), of base sz] b by (auto simp: ctor_accepts_def)
  have "0 < unat n" using b(1) by (simp add: ctor_accepts_def unat_gt_0)
  then obtain k where "unat n = Suc k" using gr0_conv_Suc by blast
  with ok(2) have "pool_free p = of_nat (unat n - 1) # map of_nat (rev [0..<k])" by simp
  from pool_acquire_first [OF ok(1) this, of w]
  have "\<exists>p1. acquire w p = Some (of_nat (unat n - 1), p1)" by blast
  moreover obtain p' where "pool_run acquire release kInvalidIndex (map Acq ws) [] p
      = Some (map of_nat [0..<unat n], p')" "pool_inv p'" "pool_free p' = []"
    using pool.acquire_all [OF ok(1), of ws "[]"] assms(3) ok(2) by (auto simp: rev_map)
  ultimately show ?thesis using pool_acquire_empty by blast
qed

text \<open>The free list is a stack: a released index is the next one handed out, and releasing
  and reacquiring restores the free indices.\<close>

lemma pool_release_acquire:
  assumes "pool_inv p" and "unat i < unat (pool_buffer_count p)" and "i \<notin> set (pool_free p)"
  shows "\<exists>p' p''. release ws p i = Some p' \<and> acquire ws' p' = Some (i, p'') \<and>
    pool_inv p'' \<and> pool_free p'' = pool_free p"
proof -
  have "i \<in> pool_univ p" using assms(1,2) by (simp add: pool_univ_def pool_inv_def pool_buffer_count_def)
  from pool_release_held [OF assms(1) this assms(3), of ws] obtain p' where
    p': "release ws p i = Some p'" "pool_inv p'" "pool_free p' = i # pool_free p" by blast
  with pool_acquire_first [OF p'(2,3), of ws'] show ?thesis by blast
qed

end
