(* ===== verification/Pool_Threads.thy ===== *)
theory Pool_Threads
  imports Buffer_Pool
begin

text \<open>
  \<open>BufferPool::acquire\<close> and \<open>release\<close> under any number of threads: a Treiber stack whose head
  carries a 32-bit tag. Both calls are split at their atomic accesses. Loads of the head may return
  any earlier head; a load of \<open>free_next_[index]\<close> returns the current link when the head read
  before is still the current one (the acquire load orders it after the store of the link) and any
  value at all otherwise. The tag distinguishes heads that are fewer than \<open>2 ^ 32\<close> updates apart:
  the results are stated for runs in which no thread compares a head older than that.
\<close>

section \<open>The abstract pool\<close>

text \<open>The free indices as a stack, and what each thread holds.\<close>

type_synonym pool_spec = "u32 list \<times> (nat \<Rightarrow> u32 list)"

definition pool_spec_start :: "nat \<Rightarrow> pool_spec \<Rightarrow> bool" where
  "pool_spec_start n a \<longleftrightarrow> a = (map of_nat (rev [0..<n]), \<lambda>_. [])"

inductive pool_spec_step :: "pool_spec \<Rightarrow> pool_spec \<Rightarrow> bool" where
  spec_acquire: "pool_spec_step (i # fr, held) (fr, held(p := i # held p))"
| spec_release: "i \<in> set (held p) \<Longrightarrow> pool_spec_step (fr, held) (i # fr, held(p := remove1 i (held p)))"

text \<open>Every index is free or held by exactly one thread, once.\<close>

definition pool_spec_inv :: "nat \<Rightarrow> pool_spec \<Rightarrow> bool" where
  "pool_spec_inv n a \<longleftrightarrow> distinct (fst a) \<and> (\<forall>p. distinct (snd a p)) \<and>
     (\<forall>p. set (snd a p) \<inter> set (fst a) = {}) \<and>
     (\<forall>p q. p \<noteq> q \<longrightarrow> set (snd a p) \<inter> set (snd a q) = {}) \<and>
     set (fst a) \<union> (\<Union>p. set (snd a p)) = {i. unat i < n}"

lemma pool_spec_inv_acquire:
  assumes "pool_spec_inv n (i # fr, held)"
  shows "pool_spec_inv n (fr, held(p := i # held p))"
proof -
  have "(\<Union>q. set ((held(p := i # held p)) q)) = insert i (\<Union>q. set (held q))" by (auto split: if_splits)
  with assms show ?thesis by (auto simp: pool_spec_inv_def)
qed

lemma pool_spec_inv_release:
  assumes inv: "pool_spec_inv n (fr, held)" and i: "i \<in> set (held p)"
  shows "pool_spec_inv n (i # fr, held(p := remove1 i (held p)))"
proof -
  let ?H = "held(p := remove1 i (held p))"
  have d: "distinct (held q)" for q using inv by (simp add: pool_spec_inv_def)
  have fr: "i \<notin> set fr" using inv i by (auto simp: pool_spec_inv_def)
  have other: "i \<notin> set (held q)" if "q \<noteq> p" for q
    using inv i that by (simp add: pool_spec_inv_def disjoint_iff) blast
  have H: "set (?H q) = set (held q) - {i}" for q using d other by (auto simp: set_remove1_eq)
  have "insert i (set fr) \<union> (\<Union>q. set (?H q)) = set fr \<union> (\<Union>q. set (held q))"
    unfolding H using i by auto
  moreover have "\<forall>q. set (?H q) \<inter> set (i # fr) = {}" unfolding H using inv by (auto simp: pool_spec_inv_def)
  moreover have "\<forall>q r. q \<noteq> r \<longrightarrow> set (?H q) \<inter> set (?H r) = {}" unfolding H using inv
    by (simp add: pool_spec_inv_def disjoint_iff)
  moreover have "\<forall>q. distinct (?H q)" using d by (simp add: distinct_remove1)
  ultimately show ?thesis using inv fr unfolding pool_spec_inv_def by simp
qed

lemma pool_spec_inv_start: "n < 2 ^ 32 \<Longrightarrow> pool_spec_start n a \<Longrightarrow> pool_spec_inv n a"
  using distinct_initial [of n] initial_set [of n] by (auto simp: pool_spec_start_def pool_spec_inv_def)

section \<open>The step relation\<close>

datatype pool_pc =
    P_idle
  | P_acq_load
  | P_acq_next u64 nat
  | P_acq_cas u64 nat u32
  | P_rel_load u32
  | P_rel_store u32 u64
  | P_rel_cas u32 u64

text \<open>\<open>ps_hist\<close> lists all values the head has had, the current one last; the number in a program
  counter is the position of the head the thread has read. Both are auxiliary.\<close>

record pool_sys =
  ps_head :: u64
  ps_next :: "u32 list"
  ps_pcs :: "nat \<Rightarrow> pool_pc"
  ps_held :: "nat \<Rightarrow> u32 list"
  ps_hist :: "u64 list"

definition pool_sys_start :: "nat \<Rightarrow> pool_sys \<Rightarrow> bool" where
  "pool_sys_start n s \<longleftrightarrow> 0 < n \<and> n < 2 ^ 32 \<and> (\<exists>base sz. s =
     \<lparr>ps_head = padded_get (free_head (built_pool base (of_nat n) sz)),
      ps_next = free_next (built_pool base (of_nat n) sz), ps_pcs = (\<lambda>_. P_idle), ps_held = (\<lambda>_. []),
      ps_hist = [padded_get (free_head (built_pool base (of_nat n) sz))]\<rparr>)"

definition at_pc :: "nat \<Rightarrow> pool_pc \<Rightarrow> pool_sys \<Rightarrow> pool_sys" where
  "at_pc p pc s = s\<lparr>ps_pcs := (ps_pcs s)(p := pc)\<rparr>"

definition set_head :: "u64 \<Rightarrow> pool_sys \<Rightarrow> pool_sys" where
  "set_head h s = s\<lparr>ps_head := h, ps_hist := ps_hist s @ [h]\<rparr>"

inductive pool_step :: "pool_sys \<Rightarrow> pool_sys \<Rightarrow> bool" where
  acq_call: "ps_pcs s p = P_idle \<Longrightarrow> pool_step s (at_pc p P_acq_load s)"
| acq_load: "ps_pcs s p = P_acq_load \<Longrightarrow> k < length (ps_hist s) \<Longrightarrow>
    UnpackIndex (ps_hist s ! k) \<noteq> kInvalidIndex \<Longrightarrow> pool_step s (at_pc p (P_acq_next (ps_hist s ! k) k) s)"
| acq_empty: "ps_pcs s p = P_acq_load \<Longrightarrow> k < length (ps_hist s) \<Longrightarrow>
    UnpackIndex (ps_hist s ! k) = kInvalidIndex \<Longrightarrow> pool_step s (at_pc p P_idle s)"
| acq_next: "ps_pcs s p = P_acq_next h k \<Longrightarrow>
    Suc k = length (ps_hist s) \<longrightarrow> nx = ps_next s ! unat (UnpackIndex h) \<Longrightarrow>
    pool_step s (at_pc p (P_acq_cas h k nx) s)"
| acq_cas_ok: "ps_pcs s p = P_acq_cas h k nx \<Longrightarrow> ps_head s = h \<Longrightarrow>
    pool_step s (at_pc p P_idle (set_head (Pack nx (UnpackTag h + 1))
      (s\<lparr>ps_held := (ps_held s)(p := UnpackIndex h # ps_held s p)\<rparr>)))"
| acq_cas_fail: "ps_pcs s p = P_acq_cas h k nx \<Longrightarrow> k' < length (ps_hist s) \<Longrightarrow>
    UnpackIndex (ps_hist s ! k') \<noteq> kInvalidIndex \<Longrightarrow> pool_step s (at_pc p (P_acq_next (ps_hist s ! k') k') s)"
| acq_cas_empty: "ps_pcs s p = P_acq_cas h k nx \<Longrightarrow> k' < length (ps_hist s) \<Longrightarrow>
    UnpackIndex (ps_hist s ! k') = kInvalidIndex \<Longrightarrow> pool_step s (at_pc p P_idle s)"
| rel_call: "ps_pcs s p = P_idle \<Longrightarrow> i \<in> set (ps_held s p) \<Longrightarrow> pool_step s (at_pc p (P_rel_load i) s)"
| rel_load: "ps_pcs s p = P_rel_load i \<Longrightarrow> h \<in> set (ps_hist s) \<Longrightarrow> pool_step s (at_pc p (P_rel_store i h) s)"
| rel_store: "ps_pcs s p = P_rel_store i h \<Longrightarrow>
    pool_step s (at_pc p (P_rel_cas i h) (s\<lparr>ps_next := (ps_next s)[unat i := UnpackIndex h]\<rparr>))"
| rel_cas_ok: "ps_pcs s p = P_rel_cas i h \<Longrightarrow> ps_head s = h \<Longrightarrow>
    pool_step s (at_pc p P_idle (set_head (Pack i (UnpackTag h + 1))
      (s\<lparr>ps_held := (ps_held s)(p := remove1 i (ps_held s p))\<rparr>)))"
| rel_cas_fail: "ps_pcs s p = P_rel_cas i h \<Longrightarrow> h' \<in> set (ps_hist s) \<Longrightarrow>
    pool_step s (at_pc p (P_rel_store i h') s)"

text \<open>No pending comparison of \<open>acquire\<close> uses a head that is \<open>2 ^ 32\<close> or more updates old.\<close>

definition lag_ok :: "pool_sys \<Rightarrow> bool" where
  "lag_ok s \<longleftrightarrow> (\<forall>p h k nx. ps_pcs s p = P_acq_cas h k nx \<longrightarrow> length (ps_hist s) \<le> k + 2 ^ 32)"

definition pool_step_lag :: "pool_sys \<Rightarrow> pool_sys \<Rightarrow> bool" where
  "pool_step_lag s t \<longleftrightarrow> pool_step s t \<and> lag_ok t"

section \<open>The invariant\<close>

definition sys_free :: "pool_sys \<Rightarrow> u32 list" where
  "sys_free s = free_walk (length (ps_next s)) (ps_next s) (UnpackIndex (ps_head s))"

definition pool_abs :: "pool_sys \<Rightarrow> pool_spec" where
  "pool_abs s = (sys_free s, ps_held s)"

definition hist_ok :: "pool_sys \<Rightarrow> bool" where
  "hist_ok s \<longleftrightarrow> ps_hist s \<noteq> [] \<and> last (ps_hist s) = ps_head s \<and>
     (\<forall>k < length (ps_hist s). UnpackTag (ps_hist s ! k) = of_nat k)"

fun pool_pc_ok :: "pool_sys \<Rightarrow> nat \<Rightarrow> pool_pc \<Rightarrow> bool" where
  "pool_pc_ok s p P_idle \<longleftrightarrow> True"
| "pool_pc_ok s p P_acq_load \<longleftrightarrow> True"
| "pool_pc_ok s p (P_acq_next h k) \<longleftrightarrow> k < length (ps_hist s) \<and> h = ps_hist s ! k \<and> UnpackIndex h \<noteq> kInvalidIndex"
| "pool_pc_ok s p (P_acq_cas h k nx) \<longleftrightarrow> k < length (ps_hist s) \<and> h = ps_hist s ! k \<and>
     UnpackIndex h \<noteq> kInvalidIndex \<and> (Suc k = length (ps_hist s) \<longrightarrow> nx = ps_next s ! unat (UnpackIndex h))"
| "pool_pc_ok s p (P_rel_load i) \<longleftrightarrow> i \<in> set (ps_held s p)"
| "pool_pc_ok s p (P_rel_store i h) \<longleftrightarrow> i \<in> set (ps_held s p)"
| "pool_pc_ok s p (P_rel_cas i h) \<longleftrightarrow> i \<in> set (ps_held s p) \<and> ps_next s ! unat i = UnpackIndex h"

definition pool_sys_inv :: "nat \<Rightarrow> pool_sys \<Rightarrow> bool" where
  "pool_sys_inv n s \<longleftrightarrow> n < 2 ^ 32 \<and> length (ps_next s) = n \<and> hist_ok s \<and> lag_ok s \<and>
     free_chain (ps_next s) (UnpackIndex (ps_head s)) (sys_free s) \<and> pool_spec_inv n (pool_abs s) \<and>
     (\<forall>p. pool_pc_ok s p (ps_pcs s p))"

lemma at_pc_simps [step_simps]:
  "ps_head (at_pc p pc s) = ps_head s" "ps_next (at_pc p pc s) = ps_next s" "ps_held (at_pc p pc s) = ps_held s"
  "ps_hist (at_pc p pc s) = ps_hist s" "ps_pcs (at_pc p pc s) = (ps_pcs s)(p := pc)"
  "ps_head (set_head h s) = h" "ps_next (set_head h s) = ps_next s" "ps_held (set_head h s) = ps_held s"
  "ps_hist (set_head h s) = ps_hist s @ [h]" "ps_pcs (set_head h s) = ps_pcs s"
  by (simp_all add: at_pc_def set_head_def)

lemma at_pc_twice [step_simps]: "at_pc p pc (at_pc p pc' s) = at_pc p pc s"
  by (simp add: at_pc_def)

lemma sys_free_eq:
  "free_chain (ps_next s) (UnpackIndex (ps_head s)) xs \<Longrightarrow> distinct xs \<Longrightarrow> sys_free s = xs"
  by (simp add: sys_free_def free_walk_fuel)

section \<open>The steps keep the invariant\<close>

lemma pool_pc_ok_local:
  "pool_pc_ok (at_pc p pc s) q pc' = pool_pc_ok s q pc'"
  by (cases pc') (simp_all add: step_simps)

lemma pool_local_inv:
  assumes "pool_sys_inv n s" and "pool_pc_ok s p pc" and "lag_ok (at_pc p pc s)"
  shows "pool_sys_inv n (at_pc p pc s)" and "pool_abs (at_pc p pc s) = pool_abs s"
  using assms
  by (auto simp: pool_sys_inv_def pool_abs_def sys_free_def hist_ok_def step_simps pool_pc_ok_local)

lemma hist_current: "hist_ok s \<Longrightarrow> ps_hist s ! (length (ps_hist s) - 1) = ps_head s"
  using last_conv_nth [of "ps_hist s"] by (simp add: hist_ok_def)

lemma of_nat_window:
  assumes "(of_nat k :: u32) = of_nat m" and "k \<le> m" and "m < k + 2 ^ 32"
  shows "k = m"
proof -
  have "k mod 2 ^ 32 = m mod 2 ^ 32"
    using arg_cong [OF assms(1), of unat] by (simp add: unat_of_nat)
  from mod_window_inj [OF this assms(2,3)] show ?thesis .
qed

text \<open>The tag at work: a comparison that succeeds was made with the newest head.\<close>

lemma cas_current:
  assumes "hist_ok s" and "k < length (ps_hist s)" and "length (ps_hist s) \<le> k + 2 ^ 32"
    and "ps_head s = ps_hist s ! k"
  shows "Suc k = length (ps_hist s)"
proof -
  let ?m = "length (ps_hist s) - 1"
  have ne: "ps_hist s \<noteq> []" and tag: "\<forall>k < length (ps_hist s). UnpackTag (ps_hist s ! k) = of_nat k"
    using assms(1) by (auto simp: hist_ok_def)
  have "UnpackTag (ps_hist s ! ?m) = of_nat ?m" using tag ne by simp
  then have "(of_nat k :: u32) = of_nat ?m"
    using hist_current [OF assms(1)] assms(2,4) tag by metis
  then have "k = ?m" using assms(2,3) by (intro of_nat_window) auto
  with assms(2) show ?thesis by simp
qed

lemma set_head_hist:
  assumes "hist_ok s" and "UnpackTag h = UnpackTag (ps_head s) + 1"
  shows "hist_ok (set_head h s)"
proof -
  have tag: "\<forall>k < length (ps_hist s). UnpackTag (ps_hist s ! k) = of_nat k" and ne: "ps_hist s \<noteq> []"
    using assms(1) by (auto simp: hist_ok_def)
  then have "UnpackTag (ps_head s) = of_nat (length (ps_hist s) - 1)"
    using hist_current [OF assms(1)] by (metis diff_less length_greater_0_conv zero_less_one)
  then have "UnpackTag h = of_nat (length (ps_hist s))"
    using assms(2) ne by (cases "ps_hist s") auto
  with tag ne show ?thesis by (auto simp: hist_ok_def step_simps nth_append less_Suc_eq)
qed

lemma pool_pc_ok_head:
  assumes "pool_pc_ok s q pc" and "set (ps_held s q) \<subseteq> set (H q)"
  shows "pool_pc_ok (set_head h (s\<lparr>ps_held := H\<rparr>)) q pc"
  using assms by (cases pc) (auto simp: step_simps nth_append)

lemma pool_invD:
  assumes "pool_sys_inv n s"
  shows "n < 2 ^ 32" and "length (ps_next s) = n" and "hist_ok s" and "lag_ok s"
    and "free_chain (ps_next s) (UnpackIndex (ps_head s)) (sys_free s)"
    and "pool_spec_inv n (sys_free s, ps_held s)" and "pool_pc_ok s p (ps_pcs s p)"
  using assms by (simp_all add: pool_sys_inv_def pool_abs_def)

lemma held_index:
  assumes "pool_sys_inv n s" and "i \<in> set (ps_held s p)"
  shows "unat i < n" and "i \<notin> set (sys_free s)" and "q \<noteq> p \<Longrightarrow> i \<notin> set (ps_held s q)" and "i \<noteq> kInvalidIndex"
proof -
  note S = pool_invD(6) [OF assms(1), unfolded pool_spec_inv_def]
  show lt: "unat i < n" using S assms(2) by auto
  show "i \<notin> set (sys_free s)" using S assms(2) by auto
  show "i \<notin> set (ps_held s q)" if "q \<noteq> p" using S assms(2) that by (simp add: disjoint_iff) blast
  show "i \<noteq> kInvalidIndex" using lt pool_invD(1) [OF assms(1)] unat_kInvalidIndex by auto
qed

text \<open>A successful exchange: the new head continues a chain over the new free list.\<close>

lemma pool_exchange_inv:
  assumes inv: "pool_sys_inv n s" and tag: "UnpackTag h = UnpackTag (ps_head s) + 1"
    and chain: "free_chain (ps_next s) (UnpackIndex h) xs"
    and spec: "pool_spec_inv n (xs, H)" and H: "\<forall>q. q \<noteq> p \<longrightarrow> H q = ps_held s q"
    and lag: "lag_ok (at_pc p P_idle (set_head h (s\<lparr>ps_held := H\<rparr>)))"
  shows "pool_sys_inv n (at_pc p P_idle (set_head h (s\<lparr>ps_held := H\<rparr>)))"
    and "pool_abs (at_pc p P_idle (set_head h (s\<lparr>ps_held := H\<rparr>))) = (xs, H)"
proof -
  let ?t = "at_pc p P_idle (set_head h (s\<lparr>ps_held := H\<rparr>))"
  have d: "distinct xs" using spec by (simp add: pool_spec_inv_def)
  have fr: "sys_free ?t = xs" using chain d by (intro sys_free_eq) (simp_all add: step_simps)
  then show abs: "pool_abs ?t = (xs, H)" by (simp add: pool_abs_def step_simps)
  have "hist_ok (s\<lparr>ps_held := H\<rparr>)" using pool_invD(3) [OF inv] by (simp add: hist_ok_def)
  then have hist: "hist_ok ?t" using set_head_hist [of "s\<lparr>ps_held := H\<rparr>" h] tag by (simp add: hist_ok_def step_simps)
  have "pool_pc_ok ?t q (ps_pcs ?t q)" for q
    using pool_pc_ok_head [OF pool_invD(7) [OF inv, of q], of H h] H
    by (cases "q = p") (simp_all add: step_simps pool_pc_ok_local)
  then show "pool_sys_inv n ?t"
    using pool_invD(1,2) [OF inv] hist lag chain spec fr abs by (simp add: pool_sys_inv_def step_simps)
qed

lemma acquire_exchange:
  assumes inv: "pool_sys_inv n s" and pc: "ps_pcs s p = P_acq_cas h k nx" and hd: "ps_head s = h"
  shows "sys_free s = UnpackIndex h # tl (sys_free s)" and "free_chain (ps_next s) nx (tl (sys_free s))"
proof -
  have ok: "k < length (ps_hist s)" "h = ps_hist s ! k" "UnpackIndex h \<noteq> kInvalidIndex"
    "Suc k = length (ps_hist s) \<longrightarrow> nx = ps_next s ! unat (UnpackIndex h)"
    using pool_invD(7) [OF inv, of p] pc by auto
  have "length (ps_hist s) \<le> k + 2 ^ 32" using pool_invD(4) [OF inv] pc unfolding lag_ok_def by blast
  then have "Suc k = length (ps_hist s)" using cas_current [OF pool_invD(3) [OF inv] ok(1)] ok(2) hd by simp
  then have "nx = ps_next s ! unat (UnpackIndex h)" using ok(4) by simp
  then show "sys_free s = UnpackIndex h # tl (sys_free s)" and "free_chain (ps_next s) nx (tl (sys_free s))"
    using pool_invD(5) [OF inv] ok(3) hd by (cases "sys_free s"; simp)+
qed

lemma store_link_inv:
  assumes inv: "pool_sys_inv n s" and pc: "ps_pcs s p = P_rel_store i h"
    and lag: "lag_ok (at_pc p (P_rel_cas i h) (s\<lparr>ps_next := (ps_next s)[unat i := UnpackIndex h]\<rparr>))"
  shows "pool_sys_inv n (at_pc p (P_rel_cas i h) (s\<lparr>ps_next := (ps_next s)[unat i := UnpackIndex h]\<rparr>))"
    and "pool_abs (at_pc p (P_rel_cas i h) (s\<lparr>ps_next := (ps_next s)[unat i := UnpackIndex h]\<rparr>)) = pool_abs s"
proof -
  let ?s = "s\<lparr>ps_next := (ps_next s)[unat i := UnpackIndex h]\<rparr>"
  let ?t = "at_pc p (P_rel_cas i h) ?s"
  have i: "i \<in> set (ps_held s p)" using pool_invD(7) [OF inv, of p] pc by simp
  note hi = held_index [OF inv i]
  have chain: "free_chain (ps_next ?t) (UnpackIndex (ps_head ?t)) (sys_free s)"
    using pool_invD(5) [OF inv] hi(2) by (simp add: step_simps free_chain_update)
  have fr: "sys_free ?t = sys_free s"
    using chain pool_invD(6) [OF inv] by (intro sys_free_eq) (simp_all add: pool_spec_inv_def)
  then show abs: "pool_abs ?t = pool_abs s" by (simp add: pool_abs_def step_simps)
  have "pool_pc_ok ?s q (ps_pcs s q)" if "q \<noteq> p" for q
  proof -
    have ok: "pool_pc_ok s q (ps_pcs s q)" by (rule pool_invD(7) [OF inv])
    have ne: "ps_next ?s ! unat j = ps_next s ! unat j" if "j \<noteq> i" for j
    proof -
      have "unat i \<noteq> unat j" using that by (auto dest: unsigned_word_eqI)
      then show ?thesis by simp
    qed
    have cur: "UnpackIndex (ps_hist s ! k) \<noteq> i"
      if "Suc k = length (ps_hist s)" "UnpackIndex (ps_hist s ! k) \<noteq> kInvalidIndex" for k
    proof -
      have "ps_hist s ! k = ps_head s" using hist_current [OF pool_invD(3) [OF inv]] that(1) by (metis diff_Suc_1)
      then show ?thesis using pool_invD(5) [OF inv] hi(2) that(2) by (cases "sys_free s") auto
    qed
    show ?thesis using ok ne cur hi(3) [OF \<open>q \<noteq> p\<close>] by (cases "ps_pcs s q", auto) metis
  qed
  moreover have "pool_pc_ok ?s p (P_rel_cas i h)"
    using i hi(1) pool_invD(2) [OF inv] by simp
  ultimately have "pool_pc_ok ?t q (ps_pcs ?t q)" for q by (simp add: step_simps pool_pc_ok_local)
  then show "pool_sys_inv n ?t"
    using pool_invD(1-3) [OF inv] pool_invD(6) [OF inv] lag chain fr
    by (simp add: pool_sys_inv_def pool_abs_def hist_ok_def step_simps)
qed

lemma pool_step_inv:
  assumes inv: "pool_sys_inv n s" and st: "pool_step s t" and lag: "lag_ok t"
  shows "pool_sys_inv n t \<and> (pool_abs t = pool_abs s \<or> pool_spec_step (pool_abs s) (pool_abs t))"
  using st
proof cases
  case (acq_cas_ok p h k nx)
  note x = acquire_exchange [OF inv acq_cas_ok(2,3)]
  let ?H = "(ps_held s)(p := UnpackIndex h # ps_held s p)"
  have "pool_spec_inv n (tl (sys_free s), ?H)"
    using pool_invD(6) [OF inv] x(1) by (intro pool_spec_inv_acquire) simp
  with acq_cas_ok lag x have "pool_sys_inv n t" "pool_abs t = (tl (sys_free s), ?H)"
    using pool_exchange_inv [OF inv, of "Pack nx (UnpackTag h + 1)" "tl (sys_free s)" ?H p] by simp_all
  moreover have "pool_spec_step (UnpackIndex h # tl (sys_free s), ps_held s) (tl (sys_free s), ?H)"
    by (rule spec_acquire)
  ultimately show ?thesis using x(1) by (simp add: pool_abs_def)
next
  case (rel_cas_ok p i h)
  have i: "i \<in> set (ps_held s p)" "ps_next s ! unat i = UnpackIndex h"
    using pool_invD(7) [OF inv, of p] rel_cas_ok(2) by auto
  note hi = held_index [OF inv i(1)]
  let ?H = "(ps_held s)(p := remove1 i (ps_held s p))"
  have "free_chain (ps_next s) i (i # sys_free s)"
    using pool_invD(2,5) [OF inv] hi(1,4) i(2) rel_cas_ok(3) by simp
  moreover have "pool_spec_inv n (i # sys_free s, ?H)"
    by (rule pool_spec_inv_release [OF pool_invD(6) [OF inv] i(1)])
  ultimately have "pool_sys_inv n t" "pool_abs t = (i # sys_free s, ?H)"
    using pool_exchange_inv [OF inv, of "Pack i (UnpackTag h + 1)" "i # sys_free s" ?H p] rel_cas_ok lag by simp_all
  moreover have "pool_spec_step (sys_free s, ps_held s) (i # sys_free s, ?H)" by (rule spec_release, rule i(1))
  ultimately show ?thesis by (simp add: pool_abs_def)
next
  case (rel_store p i h)
  with store_link_inv [OF inv rel_store(2)] lag show ?thesis by simp
next
  case (acq_next p h k nx)
  then have "pool_pc_ok s p (P_acq_cas h k nx)" using pool_invD(7) [OF inv, of p] by auto
  with pool_local_inv [OF inv this] acq_next lag show ?thesis by simp
next
  case (rel_load p i h)
  then have "pool_pc_ok s p (P_rel_store i h)" using pool_invD(7) [OF inv, of p] by simp
  with pool_local_inv [OF inv this] rel_load lag show ?thesis by simp
next
  case (rel_cas_fail p i h h')
  then have "pool_pc_ok s p (P_rel_store i h')" using pool_invD(7) [OF inv, of p] by simp
  with pool_local_inv [OF inv this] rel_cas_fail lag show ?thesis by simp
qed (use pool_local_inv [OF inv] lag in \<open>simp_all\<close>)

lemma pool_start_inv:
  assumes "pool_sys_start n s"
  shows "pool_sys_inv n s" and "pool_spec_start n (pool_abs s)"
proof -
  obtain base sz where n: "0 < n" "n < 2 ^ 32" and s: "s =
     \<lparr>ps_head = padded_get (free_head (built_pool base (of_nat n) sz)),
      ps_next = free_next (built_pool base (of_nat n) sz), ps_pcs = (\<lambda>_. P_idle), ps_held = (\<lambda>_. []),
      ps_hist = [padded_get (free_head (built_pool base (of_nat n) sz))]\<rparr>"
    using assms by (auto simp: pool_sys_start_def)
  have u: "unat (of_nat n :: size_t) = n" using n(2) by (simp add: unat_of_nat)
  then have "(of_nat n :: size_t) \<noteq> 0" using n(1) by (metis less_irrefl unat_0)
  then have ok: "pool_inv (built_pool base (of_nat n) sz)"
    "pool_free (built_pool base (of_nat n) sz) = map of_nat (rev [0..<n])"
    using built_pool_ok [of "of_nat n" base sz] u n(2) by auto
  have fr: "sys_free s = pool_free (built_pool base (of_nat n) sz)" by (simp add: s sys_free_def pool_free_def)
  then show st: "pool_spec_start n (pool_abs s)" using ok(2) by (simp add: pool_spec_start_def pool_abs_def s)
  have "UnpackTag (ps_head s) = 0" by (simp add: s built_pool_def)
  then have "hist_ok s" by (simp add: hist_ok_def s)
  with ok fr u n pool_spec_inv_start [OF n(2) st] show "pool_sys_inv n s"
    by (simp add: pool_sys_inv_def lag_ok_def pool_inv_def s built_pool_def)
qed

interpretation pool_threads: forward_simulation "pool_sys_start n" pool_step_lag "pool_sys_inv n"
  pool_abs "pool_spec_start n" pool_spec_step for n
proof unfold_locales
  fix s t
  show "pool_sys_start n s \<Longrightarrow> pool_sys_inv n s" by (rule pool_start_inv)
  show "pool_sys_start n s \<Longrightarrow> pool_spec_start n (pool_abs s)" by (rule pool_start_inv)
  show "pool_sys_inv n s \<Longrightarrow> pool_step_lag s t \<Longrightarrow> pool_sys_inv n t"
    using pool_step_inv by (auto simp: pool_step_lag_def)
  show "pool_sys_inv n s \<Longrightarrow> pool_step_lag s t \<Longrightarrow> pool_abs t = pool_abs s \<or> pool_spec_step (pool_abs s) (pool_abs t)"
    using pool_step_inv by (auto simp: pool_step_lag_def)
qed

section \<open>A concrete run\<close>

text \<open>Two buffers; thread 0 acquires one, thread 1 the other.\<close>

abbreviation pool_reach :: "nat \<Rightarrow> pool_sys \<Rightarrow> bool" where
  "pool_reach n \<equiv> reach (pool_sys_start n) pool_step_lag"

text \<open>What one call does when the thread runs alone to the end, and the program counters on the way.\<close>

definition after_acquire :: "nat \<Rightarrow> pool_sys \<Rightarrow> pool_sys" where
  "after_acquire p s = at_pc p P_idle (set_head
     (Pack (ps_next s ! unat (UnpackIndex (ps_head s))) (UnpackTag (ps_head s) + 1))
     (s\<lparr>ps_held := (ps_held s)(p := UnpackIndex (ps_head s) # ps_held s p)\<rparr>))"

definition after_release :: "nat \<Rightarrow> u32 \<Rightarrow> pool_sys \<Rightarrow> pool_sys" where
  "after_release p i s = at_pc p P_idle (set_head (Pack i (UnpackTag (ps_head s) + 1))
     (s\<lparr>ps_next := (ps_next s)[unat i := UnpackIndex (ps_head s)],
        ps_held := (ps_held s)(p := remove1 i (ps_held s p))\<rparr>))"

definition head_known :: "pool_sys \<Rightarrow> bool" where
  "head_known s \<longleftrightarrow> ps_hist s \<noteq> [] \<and> last (ps_hist s) = ps_head s"

lemma head_known_nth: "head_known s \<Longrightarrow> ps_hist s ! (length (ps_hist s) - 1) = ps_head s"
  using last_conv_nth [of "ps_hist s"] by (simp add: head_known_def)

definition cas_pc :: "pool_sys \<Rightarrow> pool_pc" where
  "cas_pc s = P_acq_cas (ps_head s) (length (ps_hist s) - 1) (ps_next s ! unat (UnpackIndex (ps_head s)))"

text \<open>The steps of \<open>acquire\<close> up to its comparison.\<close>

lemma acquire_path:
  assumes "ps_pcs s p = P_idle" and known: "head_known s" and ne: "UnpackIndex (ps_head s) \<noteq> kInvalidIndex"
  shows "pool_step s (at_pc p P_acq_load s)"
    and "pool_step (at_pc p P_acq_load s) (at_pc p (P_acq_next (ps_head s) (length (ps_hist s) - 1)) s)"
    and "pool_step (at_pc p (P_acq_next (ps_head s) (length (ps_hist s) - 1)) s) (at_pc p (cas_pc s) s)"
    and "pool_step (at_pc p (cas_pc s) s) (after_acquire p s)"
proof -
  let ?k = "length (ps_hist s) - 1" and ?h = "ps_head s"
  let ?s1 = "at_pc p P_acq_load s" and ?s2 = "at_pc p (P_acq_next ?h ?k) s"
  have k: "?k < length (ps_hist s)" "ps_hist s ! ?k = ?h"
    using known head_known_nth [OF known] by (auto simp: head_known_def)
  show "pool_step s ?s1" using assms(1) by (rule acq_call)
  show "pool_step ?s1 ?s2" using acq_load [of ?s1 p ?k] k ne by (simp add: step_simps)
  show "pool_step ?s2 (at_pc p (cas_pc s) s)"
    using acq_next [of ?s2 p ?h ?k "ps_next s ! unat (UnpackIndex ?h)"] by (simp add: step_simps cas_pc_def)
  show "pool_step (at_pc p (cas_pc s) s) (after_acquire p s)"
    using acq_cas_ok [of "at_pc p (cas_pc s) s" p ?h ?k "ps_next s ! unat (UnpackIndex ?h)"]
    by (simp add: step_simps cas_pc_def after_acquire_def) (simp add: at_pc_def set_head_def)
qed

lemma release_path:
  assumes "ps_pcs s p = P_idle" and known: "head_known s" and i: "i \<in> set (ps_held s p)"
  shows "pool_step s (at_pc p (P_rel_load i) s)"
    and "pool_step (at_pc p (P_rel_load i) s) (at_pc p (P_rel_store i (ps_head s)) s)"
    and "pool_step (at_pc p (P_rel_store i (ps_head s)) s)
      (at_pc p (P_rel_cas i (ps_head s)) (s\<lparr>ps_next := (ps_next s)[unat i := UnpackIndex (ps_head s)]\<rparr>))"
    and "pool_step (at_pc p (P_rel_cas i (ps_head s)) (s\<lparr>ps_next := (ps_next s)[unat i := UnpackIndex (ps_head s)]\<rparr>))
      (after_release p i s)"
proof -
  let ?h = "ps_head s" and ?s1 = "at_pc p (P_rel_load i) s" and ?s2 = "at_pc p (P_rel_store i (ps_head s)) s"
  let ?s3 = "at_pc p (P_rel_cas i ?h) (s\<lparr>ps_next := (ps_next s)[unat i := UnpackIndex ?h]\<rparr>)"
  show "pool_step s ?s1" using assms(1) i by (rule rel_call)
  have h: "?h \<in> set (ps_hist s)" using known last_in_set by (fastforce simp: head_known_def)
  show "pool_step ?s1 ?s2" using rel_load [of ?s1 p i ?h] h by (simp add: step_simps)
  show "pool_step ?s2 ?s3" using rel_store [of ?s2 p i ?h] by (simp add: step_simps) (simp add: at_pc_def)
  show "pool_step ?s3 (after_release p i s)"
    using rel_cas_ok [of ?s3 p i ?h] by (simp add: step_simps after_release_def) (simp add: at_pc_def set_head_def)
qed

lemma solo_acquire:
  assumes r: "pool_reach n s" and idle: "ps_pcs s = (\<lambda>_. P_idle)" and known: "head_known s"
    and ne: "UnpackIndex (ps_head s) \<noteq> kInvalidIndex"
  shows "pool_reach n (after_acquire p s)"
proof -
  have lag: "lag_ok (at_pc p P_acq_load s)" "lag_ok (at_pc p (P_acq_next (ps_head s) (length (ps_hist s) - 1)) s)"
    "lag_ok (at_pc p (cas_pc s) s)" "lag_ok (after_acquire p s)"
    using idle by (simp_all add: lag_ok_def step_simps cas_pc_def after_acquire_def)
  have "ps_pcs s p = P_idle" using idle by simp
  note path = acquire_path [OF this known ne]
  from path lag have "pool_step_lag s (at_pc p P_acq_load s)"
    "pool_step_lag (at_pc p P_acq_load s) (at_pc p (P_acq_next (ps_head s) (length (ps_hist s) - 1)) s)"
    "pool_step_lag (at_pc p (P_acq_next (ps_head s) (length (ps_hist s) - 1)) s) (at_pc p (cas_pc s) s)"
    "pool_step_lag (at_pc p (cas_pc s) s) (after_acquire p s)"
    by (simp_all add: pool_step_lag_def)
  from reach_step [OF reach_step [OF reach_step [OF reach_step [OF r this(1)] this(2)] this(3)] this(4)]
  show ?thesis .
qed

lemma two_buffers: "free_next (built_pool 0 2 4096) = [kInvalidIndex, 0]"
  "padded_get (free_head (built_pool 0 2 4096)) = Pack 1 0"
  by (simp_all add: built_pool_def upt_rec link_def)

definition pdemo0 :: pool_sys where
  "pdemo0 = \<lparr>ps_head = Pack 1 0, ps_next = [kInvalidIndex, 0], ps_pcs = (\<lambda>_. P_idle), ps_held = (\<lambda>_. []),
     ps_hist = [Pack 1 0]\<rparr>"

definition pdemo1 :: pool_sys where
  "pdemo1 = \<lparr>ps_head = Pack 0 1, ps_next = [kInvalidIndex, 0], ps_pcs = (\<lambda>_. P_idle),
     ps_held = (\<lambda>_. [])(0 := [1]), ps_hist = [Pack 1 0, Pack 0 1]\<rparr>"

definition pdemo2 :: pool_sys where
  "pdemo2 = \<lparr>ps_head = Pack kInvalidIndex 2, ps_next = [kInvalidIndex, 0], ps_pcs = (\<lambda>_. P_idle),
     ps_held = (\<lambda>_. [])(0 := [1], 1 := [0]), ps_hist = [Pack 1 0, Pack 0 1, Pack kInvalidIndex 2]\<rparr>"

lemma small_valid: "(0 :: u32) \<noteq> kInvalidIndex" "(1 :: u32) \<noteq> kInvalidIndex"
  using of_nat_neq_invalid [of 0] of_nat_neq_invalid [of 1] by simp_all

lemma pdemo0_reach: "pool_reach 2 pdemo0"
proof (rule reach_start)
  show "pool_sys_start 2 pdemo0"
    unfolding pool_sys_start_def using two_buffers
    by (intro conjI exI [of _ "0 :: addr"] exI [of _ "4096 :: size_t"]) (simp_all add: pdemo0_def)
qed

lemma idle_upd: "(\<lambda>_. P_idle)(p := P_idle) = (\<lambda>_. P_idle)"
  by auto

lemma pdemo1_reach: "pool_reach 2 pdemo1"
  using solo_acquire [OF pdemo0_reach, of 0] small_valid
  by (simp add: pdemo0_def pdemo1_def after_acquire_def head_known_def at_pc_def set_head_def idle_upd)

lemma pdemo2_reach: "pool_reach 2 pdemo2"
  using solo_acquire [OF pdemo1_reach, of 1] small_valid
  by (simp add: pdemo1_def pdemo2_def after_acquire_def head_known_def at_pc_def set_head_def idle_upd)

section \<open>The wrap-around of the tag\<close>

text \<open>Runs without the condition on the age of a compared head.\<close>

abbreviation pool_run_any :: "nat \<Rightarrow> pool_sys \<Rightarrow> bool" where
  "pool_run_any n \<equiv> reach (pool_sys_start n) pool_step"

lemma any_acquire:
  assumes "pool_run_any n s" and "ps_pcs s p = P_idle" and "head_known s"
    and "UnpackIndex (ps_head s) \<noteq> kInvalidIndex"
  shows "pool_run_any n (at_pc p (cas_pc s) s)" and "pool_run_any n (after_acquire p s)"
proof -
  note path = acquire_path [OF assms(2-4)]
  show "pool_run_any n (at_pc p (cas_pc s) s)"
    by (rule reach_step [OF reach_step [OF reach_step [OF assms(1) path(1)] path(2)] path(3)])
  from reach_step [OF this path(4)] show "pool_run_any n (after_acquire p s)" .
qed

lemma any_release:
  assumes "pool_run_any n s" and "ps_pcs s p = P_idle" and "head_known s" and "i \<in> set (ps_held s p)"
  shows "pool_run_any n (after_release p i s)"
proof -
  note path = release_path [OF assms(2-4)]
  show ?thesis
    by (rule reach_step [OF reach_step [OF reach_step [OF reach_step [OF assms(1) path(1)] path(2)] path(3)] path(4)])
qed

text \<open>Three buffers. Thread 0 stops before its comparison; thread 1 takes everything, gives buffer 2
  back, and then takes and returns buffer 2 over and over. After \<open>t\<close> updates of the head:\<close>

definition aba_state :: "nat \<Rightarrow> u64 list \<Rightarrow> pool_sys" where
  "aba_state t hist = \<lparr>ps_head = Pack 2 (of_nat t), ps_next = [kInvalidIndex, 0, kInvalidIndex],
     ps_pcs = (\<lambda>_. P_idle)(0 := P_acq_cas (Pack 2 0) 0 1), ps_held = (\<lambda>_. [])(1 := [0, 1]), ps_hist = hist\<rparr>"

lemma aba_hist [simp]: "ps_hist (aba_state t hist) = hist"
  by (simp add: aba_state_def)

lemma valid_012: "(0 :: u32) \<noteq> kInvalidIndex" "(1 :: u32) \<noteq> kInvalidIndex" "(2 :: u32) \<noteq> kInvalidIndex"
  using of_nat_neq_invalid [of 0] of_nat_neq_invalid [of 1] of_nat_neq_invalid [of 2] by simp_all

lemmas pool_run_simps = valid_012 after_acquire_def after_release_def head_known_def cas_pc_def at_pc_def set_head_def

definition aba_start :: pool_sys where
  "aba_start = \<lparr>ps_head = Pack 2 0, ps_next = [kInvalidIndex, 0, 1], ps_pcs = (\<lambda>_. P_idle), ps_held = (\<lambda>_. []),
     ps_hist = [Pack 2 0]\<rparr>"

lemma aba_start_reach: "pool_run_any 3 aba_start"
proof (rule reach_start)
  have "free_next (built_pool 0 3 4096) = [kInvalidIndex, 0, 1]" "padded_get (free_head (built_pool 0 3 4096)) = Pack 2 0"
    by (simp_all add: built_pool_def upt_rec link_def)
  then show "pool_sys_start 3 aba_start"
    unfolding pool_sys_start_def
    by (intro conjI exI [of _ "0 :: addr"] exI [of _ "4096 :: size_t"]) (simp_all add: aba_start_def)
qed

lemma aba_first: "\<exists>hist. hist \<noteq> [] \<and> last hist = Pack 2 4 \<and> pool_run_any 3 (aba_state 4 hist)"
proof -
  let ?s0 = "at_pc 0 (cas_pc aba_start) aba_start"
  have 0: "pool_run_any 3 ?s0" using any_acquire(1) [OF aba_start_reach, of 0] by (simp add: aba_start_def pool_run_simps)
  let ?s1 = "after_acquire 1 ?s0"
  have 1: "pool_run_any 3 ?s1" using any_acquire(2) [OF 0, of 1] by (simp add: aba_start_def pool_run_simps)
  let ?s2 = "after_acquire 1 ?s1"
  have 2: "pool_run_any 3 ?s2" using any_acquire(2) [OF 1, of 1] by (simp add: aba_start_def pool_run_simps)
  let ?s3 = "after_acquire 1 ?s2"
  have 3: "pool_run_any 3 ?s3" using any_acquire(2) [OF 2, of 1] by (simp add: aba_start_def pool_run_simps)
  have "pool_run_any 3 (after_release 1 2 ?s3)"
    using any_release [OF 3, of 1 2] by (simp add: aba_start_def pool_run_simps)
  moreover have "after_release 1 2 ?s3 = aba_state 4 (ps_hist (after_release 1 2 ?s3))"
    by (auto simp: aba_start_def aba_state_def pool_run_simps)
  ultimately show ?thesis
    by (intro exI [of _ "ps_hist (after_release 1 2 ?s3)"]) (simp add: aba_start_def pool_run_simps)
qed

lemma aba_round:
  assumes "pool_run_any 3 (aba_state t hist)" and "hist \<noteq> []" and "last hist = Pack 2 (of_nat t)"
  shows "\<exists>hist'. hist' \<noteq> [] \<and> last hist' = Pack 2 (of_nat (t + 2)) \<and> pool_run_any 3 (aba_state (t + 2) hist')"
proof -
  let ?s1 = "after_acquire 1 (aba_state t hist)"
  let ?s2 = "after_release 1 2 ?s1"
  have 1: "pool_run_any 3 ?s1"
    using any_acquire(2) [OF assms(1), of 1] assms(2,3) by (simp add: aba_state_def pool_run_simps)
  have "pool_run_any 3 ?s2"
    using any_release [OF 1, of 1 2] by (simp add: aba_state_def pool_run_simps)
  moreover have "?s2 = aba_state (t + 2) (ps_hist ?s2)"
    by (auto simp: aba_state_def pool_run_simps add.commute)
  moreover have "ps_hist ?s2 \<noteq> []" "last (ps_hist ?s2) = Pack 2 (of_nat (t + 2))"
    by (simp_all add: aba_state_def pool_run_simps add.commute)
  ultimately show ?thesis by metis
qed

lemma aba_rounds:
  "\<exists>hist. hist \<noteq> [] \<and> last hist = Pack 2 (of_nat (4 + 2 * m)) \<and> pool_run_any 3 (aba_state (4 + 2 * m) hist)"
proof (induction m)
  case 0
  then show ?case using aba_first by simp
next
  case (Suc m)
  then obtain hist where "hist \<noteq> []" "last hist = Pack 2 (of_nat (4 + 2 * m))" "pool_run_any 3 (aba_state (4 + 2 * m) hist)"
    by blast
  from aba_round [OF this(3,1,2)] show ?case by (simp add: add.assoc)
qed

section \<open>Properties\<close>

text \<open>(C32) The condition is needed: after exactly \<open>2 ^ 32\<close> updates the head has its old value again,
  the comparison of the waiting thread succeeds with a stale link, and a run is reached in which
  buffers held by another thread are on the free list, to be handed out a second time.\<close>

theorem pool_tag_wraps_double_issue:
  "\<exists>s. pool_run_any 3 s \<and> 1 \<in> set (ps_held s 1) \<and> 1 \<in> set (sys_free s) \<and> UnpackIndex (ps_head s) = 1"
proof -
  obtain hist where h: "pool_run_any 3 (aba_state (2 ^ 32) hist)"
    using aba_rounds [of "2 ^ 31 - 2"] by auto
  have w: "(4294967296 :: u32) = 0" by simp
  let ?s = "aba_state (2 ^ 32) hist"
  let ?t = "at_pc 0 P_idle (set_head (Pack 1 (UnpackTag (Pack 2 0) + 1))
    (?s\<lparr>ps_held := (ps_held ?s)(0 := UnpackIndex (Pack 2 0) # ps_held ?s 0)\<rparr>))"
  have "pool_step ?s ?t" by (rule acq_cas_ok [of _ _ _ 0]) (simp_all add: aba_state_def w)
  from reach_step [OF h this] have "pool_run_any 3 ?t" .
  moreover have "1 \<in> set (ps_held ?t 1)" "UnpackIndex (ps_head ?t) = 1" by (simp_all add: aba_state_def step_simps)
  moreover have "1 \<in> set (sys_free ?t)" using valid_012 by (simp add: sys_free_def aba_state_def step_simps numeral_3_eq_3)
  ultimately show ?thesis by blast
qed

text \<open>(C29) With any number of threads, as long as no comparison uses a head \<open>2 ^ 32\<close> updates old, no
  buffer is held twice: what a thread holds is distinct, disjoint from what any other thread holds
  and from the free list, and every buffer of the pool is free or held, so none is lost.\<close>

theorem pool_threads_exclusive:
  assumes "pool_reach n s"
  shows "distinct (ps_held s p) \<and> (p \<noteq> q \<longrightarrow> set (ps_held s p) \<inter> set (ps_held s q) = {}) \<and>
    set (ps_held s p) \<inter> set (sys_free s) = {} \<and> distinct (sys_free s) \<and>
    set (sys_free s) \<union> (\<Union>p. set (ps_held s p)) = {i. unat i < n}"
  using pool_invD(6) [OF pool_threads.reach_inv [OF assms]] by (simp add: pool_spec_inv_def)

theorem pool_threads_exclusive_witness:
  "set (ps_held pdemo2 0) \<inter> set (ps_held pdemo2 1) = {} \<and> ps_held pdemo2 0 = [1] \<and> ps_held pdemo2 1 = [0]"
  using pool_threads_exclusive [OF pdemo2_reach, of 0 1] by (simp add: pdemo2_def)



end
