(* ===== verification/Progress.thy ===== *)
theory Progress
  imports Mpmc_Threads Pool_Threads
begin

text \<open>
  The retry loops of \<open>MpmcRing\<close> and \<open>BufferPool\<close> under contention: a thread whose loads return current
  values and whose exchanges do not fail spuriously ends its call within a fixed number of its own
  steps, in whatever state all other threads were stopped. A thread is therefore held up only by steps
  of others that succeed, never by a thread that is suspended in the middle of a call. The steps of such
  a thread are a function; that they are steps of the thread models is part of the lemmas.
\<close>

section \<open>Iteration under a rank\<close>

lemma rank_iter:
  fixes f :: "'s \<Rightarrow> 's" and P :: "nat \<Rightarrow> 's \<Rightarrow> bool" and rank :: "'s \<Rightarrow> nat" and R :: "'s \<Rightarrow> 's \<Rightarrow> bool"
  assumes step: "\<And>k s. P (Suc k) s \<Longrightarrow> 0 < rank s \<Longrightarrow> P k (f s) \<and> rank (f s) < rank s \<and> R s (f s)"
    and stop: "\<And>s. rank s = 0 \<Longrightarrow> f s = s"
  shows "P n s \<Longrightarrow> rank s \<le> n \<Longrightarrow> rank ((f ^^ n) s) = 0 \<and> R\<^sup>*\<^sup>* s ((f ^^ n) s)"
proof (induction n arbitrary: s)
  case (Suc n)
  show ?case
  proof (cases "rank s = 0")
    case True
    then have "(f ^^ k) s = s" for k using stop by (induction k) simp_all
    with True show ?thesis by (metis rtranclp.rtrancl_refl)
  next
    case False
    then have s: "P n (f s)" "rank (f s) < rank s" "R s (f s)" using step [of n s] Suc.prems by auto
    from Suc.IH [OF s(1)] s(2) Suc.prems(2) have
      "rank ((f ^^ n) (f s)) = 0" "R\<^sup>*\<^sup>* (f s) ((f ^^ n) (f s))" by auto
    with s(3) show ?thesis by (simp add: funpow_swap1 converse_rtranclp_into_rtranclp)
  qed
qed simp

section \<open>A thread of the ring\<close>

definition mpmc_fresh :: "size_t \<Rightarrow> nat \<Rightarrow> 'a mpmc_sys \<Rightarrow> 'a mpmc_sys" where
  "mpmc_fresh cap p s = (let r = m_ring s in case m_pcs s p of
     M_idle \<Rightarrow> s
   | M_push_load v \<Rightarrow> set_pc p (M_push_seq v (enqueue_pos r)) s
   | M_push_seq v pos \<Rightarrow> (case seq_diff (slot_sequence (get_slot cap pos r)) pos of None \<Rightarrow> s
       | Some d \<Rightarrow> set_pc p (if d = 0 then M_push_cas v pos else if d < 0 then M_idle else M_push_load v) s)
   | M_push_cas v pos \<Rightarrow> if enqueue_pos r = pos
       then set_pc p (M_push_write v pos) (s\<lparr>m_ring := r\<lparr>enqueue_pos := pos + 1\<rparr>, m_hist := m_hist s @ [v]\<rparr>)
       else set_pc p (M_push_seq v (enqueue_pos r)) s
   | M_push_write v pos \<Rightarrow> set_pc p (M_push_publish v pos)
       (s\<lparr>m_ring := put_slot cap pos ((get_slot cap pos r)\<lparr>slot_value := v\<rparr>) r\<rparr>)
   | M_push_publish v pos \<Rightarrow> set_pc p M_idle
       (s\<lparr>m_ring := put_slot cap pos ((get_slot cap pos r)\<lparr>slot_sequence := pos + 1\<rparr>) r\<rparr>)
   | M_pop_load \<Rightarrow> set_pc p (M_pop_seq (dequeue_pos r)) s
   | M_pop_seq pos \<Rightarrow> (case seq_diff (slot_sequence (get_slot cap pos r)) (pos + 1) of None \<Rightarrow> s
       | Some d \<Rightarrow> set_pc p (if d = 0 then M_pop_cas pos else if d < 0 then M_idle else M_pop_load) s)
   | M_pop_cas pos \<Rightarrow> if dequeue_pos r = pos
       then set_pc p (M_pop_read pos) (s\<lparr>m_ring := r\<lparr>dequeue_pos := pos + 1\<rparr>, m_taken := m_taken s + 1\<rparr>)
       else set_pc p (M_pop_seq (dequeue_pos r)) s
   | M_pop_read pos \<Rightarrow> set_pc p (M_pop_publish pos (slot_value (get_slot cap pos r))) s
   | M_pop_publish pos out \<Rightarrow> set_pc p M_idle
       (s\<lparr>m_ring := put_slot cap pos ((get_slot cap pos r)\<lparr>slot_sequence := pos + cap\<rparr>) r,
          m_got := m_got s @ [(unat pos, out)]\<rparr>))"

text \<open>Steps to the end of the call; a cursor that is out of date costs one more round.\<close>

fun mpmc_rank :: "'a mpmc_ring \<Rightarrow> 'a mpmc_pc \<Rightarrow> nat" where
  "mpmc_rank r M_idle = 0"
| "mpmc_rank r (M_push_publish v pos) = 1"
| "mpmc_rank r (M_push_write v pos) = 2"
| "mpmc_rank r (M_push_cas v pos) = (if pos = enqueue_pos r then 3 else 5)"
| "mpmc_rank r (M_push_seq v pos) = (if pos = enqueue_pos r then 4 else 6)"
| "mpmc_rank r (M_push_load v) = 5"
| "mpmc_rank r (M_pop_publish pos out) = 1"
| "mpmc_rank r (M_pop_read pos) = 2"
| "mpmc_rank r (M_pop_cas pos) = (if pos = dequeue_pos r then 3 else 5)"
| "mpmc_rank r (M_pop_seq pos) = (if pos = dequeue_pos r then 4 else 6)"
| "mpmc_rank r M_pop_load = 5"

lemma mpmc_rank_le: "mpmc_rank r pc \<le> 6"
  by (cases pc) simp_all

lemma mpmc_rank_0: "mpmc_rank r pc = 0 \<longleftrightarrow> pc = M_idle"
  by (cases pc) simp_all

text \<open>Every slot belongs to a ticket of the last \<open>Capacity\<close> ones or was not used, so no sequence number
  leaves the signed range.\<close>

lemma window_ticket:
  fixes c e t :: nat
  assumes "0 < c"
  obtains u where "u mod c = t mod c" and "u < e \<and> e \<le> u + c \<or> e \<le> u \<and> u < c"
proof (cases "e \<le> t mod c")
  case True
  with assms that [of "t mod c"] show ?thesis by simp
next
  case False
  let ?m = "t mod c" and ?q = "(e - 1 - t mod c) div c"
  have "c * ?q \<le> e - 1 - ?m" by (simp add: div_times_less_eq_dividend mult.commute)
  moreover have "e - 1 - ?m < c * ?q + c" using assms by (metis dividend_less_times_div mult.commute add.commute)
  ultimately have "?m + c * ?q < e \<and> e \<le> ?m + c * ?q + c" using False by linarith
  with that [of "?m + c * ?q"] show ?thesis by simp
qed

lemma m_seq_bound:
  assumes inv: "mpmc_sys_inv cap ph s"
  shows "m_seq cap s t < 2 ^ 63"
proof -
  note bd = inv_bounds [OF inv]
  have c: "0 < unat cap" using bd(1) by simp
  obtain u where u: "u mod unat cap = t mod unat cap"
    "u < length (m_hist s) \<and> length (m_hist s) \<le> u + unat cap \<or> length (m_hist s) \<le> u \<and> u < unat cap"
    by (rule window_ticket [OF c])
  have eq: "m_seq cap s t = m_seq cap s u" using u(1) by (simp add: m_seq_def slot_at_def)
  from u(2) show ?thesis
  proof
    assume "u < length (m_hist s) \<and> length (m_hist s) \<le> u + unat cap"
    then have "m_seq cap s u = phase_seq (unat cap) u (ph u)" "u + unat cap < 2 ^ 63" "u + 1 < 2 ^ 63"
      using inv bd by (auto simp: mpmc_sys_inv_def slots_ok_def)
    then show ?thesis using eq by (cases "ph u") auto
  next
    assume "length (m_hist s) \<le> u \<and> u < unat cap"
    then have "m_seq cap s u = u" "u < 2 ^ 63" using inv bd by (auto simp: mpmc_sys_inv_def slots_ok_def)
    then show ?thesis using eq by simp
  qed
qed

lemma push_seq_current:
  assumes inv: "mpmc_sys_inv cap ph s" and pc: "m_pcs s p = M_push_seq v pos"
  obtains d where "seq_diff (slot_sequence (get_slot cap pos (m_ring s))) pos = Some d"
    and "pos = enqueue_pos (m_ring s) \<longrightarrow> d \<le> 0"
proof -
  have sq: "unat (slot_sequence (get_slot cap pos (m_ring s))) = m_seq cap s (unat pos)"
    by (simp add: m_seq_def get_slot_eq [OF inv_shape [OF inv]])
  have le: "unat pos \<le> length (m_hist s)" using inv_pc [OF inv, of p] by (simp add: pc)
  then have "unat pos < 2 ^ 63" using inv_bounds(2) [OF inv] by simp
  from seq_diff_small [OF _ this, of "slot_sequence (get_slot cap pos (m_ring s))"] m_seq_bound [OF inv, of "unat pos"]
  obtain d where d: "seq_diff (slot_sequence (get_slot cap pos (m_ring s))) pos = Some d"
    "d = 0 \<longleftrightarrow> m_seq cap s (unat pos) = unat pos" "d < 0 \<longleftrightarrow> m_seq cap s (unat pos) < unat pos"
    unfolding sq by blast
  have "d \<le> 0" if "pos = enqueue_pos (m_ring s)"
  proof -
    have "unat pos = length (m_hist s)" using that inv by (simp add: mpmc_sys_inv_def cursors_ok_def)
    with next_slot(1) [OF inv] d(2,3) show ?thesis by fastforce
  qed
  with d(1) that show thesis by blast
qed

lemma pop_seq_current:
  assumes inv: "mpmc_sys_inv cap ph s" and pc: "m_pcs s p = M_pop_seq pos"
  obtains d where "seq_diff (slot_sequence (get_slot cap pos (m_ring s))) (pos + 1) = Some d"
    and "pos = dequeue_pos (m_ring s) \<longrightarrow> d \<le> 0"
proof -
  note bd = inv_bounds [OF inv]
  have sq: "unat (slot_sequence (get_slot cap pos (m_ring s))) = m_seq cap s (unat pos)"
    by (simp add: m_seq_def get_slot_eq [OF inv_shape [OF inv]])
  have le: "unat pos \<le> m_taken s" using inv_pc [OF inv, of p] by (simp add: pc)
  then have suc: "unat (pos + 1) = unat pos + 1" using bd by (intro unat_suc_small) simp
  then have "unat (pos + 1) < 2 ^ 63" using bd le by simp
  from seq_diff_small [OF _ this, of "slot_sequence (get_slot cap pos (m_ring s))"] m_seq_bound [OF inv, of "unat pos"]
  obtain d where d: "seq_diff (slot_sequence (get_slot cap pos (m_ring s))) (pos + 1) = Some d"
    "d = 0 \<longleftrightarrow> m_seq cap s (unat pos) = unat pos + 1" "d < 0 \<longleftrightarrow> m_seq cap s (unat pos) < unat pos + 1"
    unfolding sq suc by blast
  have "m_seq cap s (unat pos) \<le> unat pos + 1" if "pos = dequeue_pos (m_ring s)"
  proof (cases "m_taken s = length (m_hist s)")
    case True
    then have "unat pos = length (m_hist s)" using that inv by (simp add: mpmc_sys_inv_def cursors_ok_def)
    with next_slot(1) [OF inv] show ?thesis by simp
  next
    case False
    have t: "unat pos = m_taken s" using that inv by (simp add: mpmc_sys_inv_def cursors_ok_def)
    then have "m_seq cap s (unat pos) = phase_seq (unat cap) (unat pos) (ph (unat pos))"
      using inv False bd by (auto simp: mpmc_sys_inv_def slots_ok_def)
    moreover have "ph (unat pos) \<noteq> Released" using inv t by (auto simp: mpmc_sys_inv_def phases_ok_def)
    ultimately show ?thesis by (cases "ph (unat pos)") auto
  qed
  then have "d \<le> 0" if "pos = dequeue_pos (m_ring s)" using that d(2,3) by fastforce
  with d(1) that show thesis by blast
qed

lemma mpmc_fresh_step:
  assumes inv: "mpmc_sys_inv cap ph s" and busy: "m_pcs s p \<noteq> M_idle"
  shows "mpmc_step cap s (mpmc_fresh cap p s)"
    and "mpmc_rank (m_ring (mpmc_fresh cap p s)) (m_pcs (mpmc_fresh cap p s) p) < mpmc_rank (m_ring s) (m_pcs s p)"
    and "length (m_hist (mpmc_fresh cap p s)) \<le> Suc (length (m_hist s))"
proof -
  have "mpmc_step cap s (mpmc_fresh cap p s) \<and>
    mpmc_rank (m_ring (mpmc_fresh cap p s)) (m_pcs (mpmc_fresh cap p s) p) < mpmc_rank (m_ring s) (m_pcs s p) \<and>
    length (m_hist (mpmc_fresh cap p s)) \<le> Suc (length (m_hist s))"
  proof (cases "m_pcs s p")
    case (M_push_seq v pos)
    from push_seq_current [OF inv M_push_seq] obtain d where
      d: "seq_diff (slot_sequence (get_slot cap pos (m_ring s))) pos = Some d" "pos = enqueue_pos (m_ring s) \<longrightarrow> d \<le> 0" .
    have "mpmc_step cap s (mpmc_fresh cap p s)"
      using d(1) m_push_claimable [OF M_push_seq order_refl] m_push_full [OF M_push_seq order_refl]
        m_push_retry [OF M_push_seq order_refl] by (auto simp: mpmc_fresh_def Let_def M_push_seq)
    then show ?thesis using d by (auto simp: mpmc_fresh_def Let_def M_push_seq)
  next
    case (M_pop_seq pos)
    from pop_seq_current [OF inv M_pop_seq] obtain d where
      d: "seq_diff (slot_sequence (get_slot cap pos (m_ring s))) (pos + 1) = Some d" "pos = dequeue_pos (m_ring s) \<longrightarrow> d \<le> 0" .
    have "mpmc_step cap s (mpmc_fresh cap p s)"
      using d(1) m_pop_claimable [OF M_pop_seq order_refl] m_pop_empty [OF M_pop_seq order_refl]
        m_pop_retry [OF M_pop_seq order_refl] by (auto simp: mpmc_fresh_def Let_def M_pop_seq)
    then show ?thesis using d by (auto simp: mpmc_fresh_def Let_def M_pop_seq)
  next
    case (M_pop_cas pos)
    then show ?thesis using m_pop_cas_ok [OF M_pop_cas] m_pop_cas_fail [OF M_pop_cas order_refl]
      by (simp add: mpmc_fresh_def Let_def)
  next
    case (M_push_cas v pos)
    then show ?thesis using m_push_cas_ok [OF M_push_cas] m_push_cas_fail [OF M_push_cas order_refl]
      by (simp add: mpmc_fresh_def Let_def)
  qed (use busy in \<open>auto simp: mpmc_fresh_def Let_def put_slot_shape intro: mpmc_step.intros\<close>)
  then show "mpmc_step cap s (mpmc_fresh cap p s)"
    and "mpmc_rank (m_ring (mpmc_fresh cap p s)) (m_pcs (mpmc_fresh cap p s) p) < mpmc_rank (m_ring s) (m_pcs s p)"
    and "length (m_hist (mpmc_fresh cap p s)) \<le> Suc (length (m_hist s))" by blast+
qed

lemma mpmc_fresh_idle: "m_pcs s p = M_idle \<Longrightarrow> mpmc_fresh cap p s = s"
  by (simp add: mpmc_fresh_def)

section \<open>A thread of the pool\<close>

definition pool_fresh :: "nat \<Rightarrow> pool_sys \<Rightarrow> pool_sys" where
  "pool_fresh p s = (let h = ps_head s; k = length (ps_hist s) - 1;
       load = (if UnpackIndex h = kInvalidIndex then P_idle else P_acq_next h k) in
     case ps_pcs s p of
       P_idle \<Rightarrow> s
     | P_acq_load \<Rightarrow> at_pc p load s
     | P_acq_next h' k' \<Rightarrow> at_pc p (P_acq_cas h' k' (ps_next s ! unat (UnpackIndex h'))) s
     | P_acq_cas h' k' nx \<Rightarrow> if h = h'
         then at_pc p P_idle (set_head (Pack nx (UnpackTag h' + 1))
           (s\<lparr>ps_held := (ps_held s)(p := UnpackIndex h' # ps_held s p)\<rparr>))
         else at_pc p load s
     | P_rel_load i \<Rightarrow> at_pc p (P_rel_store i h) s
     | P_rel_store i h' \<Rightarrow> at_pc p (P_rel_cas i h') (s\<lparr>ps_next := (ps_next s)[unat i := UnpackIndex h']\<rparr>)
     | P_rel_cas i h' \<Rightarrow> if h = h'
         then at_pc p P_idle (set_head (Pack i (UnpackTag h' + 1))
           (s\<lparr>ps_held := (ps_held s)(p := remove1 i (ps_held s p))\<rparr>))
         else at_pc p (P_rel_store i h) s)"

fun pool_rank :: "u64 \<Rightarrow> pool_pc \<Rightarrow> nat" where
  "pool_rank h P_idle = 0"
| "pool_rank h P_acq_load = 3"
| "pool_rank h (P_acq_next h' k) = (if h' = h then 2 else 4)"
| "pool_rank h (P_acq_cas h' k nx) = (if h' = h then 1 else 3)"
| "pool_rank h (P_rel_load i) = 3"
| "pool_rank h (P_rel_store i h') = (if h' = h then 2 else 4)"
| "pool_rank h (P_rel_cas i h') = (if h' = h then 1 else 3)"

lemma pool_rank_le: "pool_rank h pc \<le> 4"
  by (cases pc) simp_all

lemma pool_rank_0: "pool_rank h pc = 0 \<longleftrightarrow> pc = P_idle"
  by (cases pc) simp_all

lemma pool_fresh_idle: "ps_pcs s p = P_idle \<Longrightarrow> pool_fresh p s = s"
  by (simp add: pool_fresh_def Let_def)

lemma pool_fresh_step:
  assumes known: "head_known s" and busy: "ps_pcs s p \<noteq> P_idle"
  shows "pool_step s (pool_fresh p s)" and "head_known (pool_fresh p s)"
    and "pool_rank (ps_head (pool_fresh p s)) (ps_pcs (pool_fresh p s) p) < pool_rank (ps_head s) (ps_pcs s p)"
proof -
  let ?k = "length (ps_hist s) - 1"
  have k: "?k < length (ps_hist s)" "ps_hist s ! ?k = ps_head s" "ps_head s \<in> set (ps_hist s)"
    using known head_known_nth [OF known] last_in_set [of "ps_hist s"] by (auto simp: head_known_def)
  show "head_known (pool_fresh p s)"
    using known by (cases "ps_pcs s p") (auto simp: pool_fresh_def Let_def head_known_def step_simps)
  show "pool_rank (ps_head (pool_fresh p s)) (ps_pcs (pool_fresh p s) p) < pool_rank (ps_head s) (ps_pcs s p)"
    using busy by (cases "ps_pcs s p") (auto simp: pool_fresh_def Let_def step_simps)
  show "pool_step s (pool_fresh p s)"
  proof (cases "ps_pcs s p")
    case P_acq_load
    then show ?thesis using acq_load [OF P_acq_load k(1)] acq_empty [OF P_acq_load k(1)] k(2)
      by (simp add: pool_fresh_def Let_def)
  next
    case (P_acq_next h k)
    then show ?thesis using acq_next [OF P_acq_next] by (simp add: pool_fresh_def)
  next
    case (P_acq_cas h k' nx)
    then show ?thesis
      using acq_cas_ok [OF P_acq_cas] acq_cas_fail [OF P_acq_cas k(1)] acq_cas_empty [OF P_acq_cas k(1)] k(2)
      by (simp add: pool_fresh_def Let_def)
  next
    case (P_rel_load i)
    then show ?thesis using rel_load [OF P_rel_load k(3)] by (simp add: pool_fresh_def)
  next
    case (P_rel_store i h)
    then show ?thesis using rel_store [OF P_rel_store] by (simp add: pool_fresh_def)
  next
    case (P_rel_cas i h)
    then show ?thesis using rel_cas_ok [OF P_rel_cas] rel_cas_fail [OF P_rel_cas k(3)] by (simp add: pool_fresh_def Let_def)
  qed (use busy in simp)
qed

section \<open>Properties\<close>

text \<open>(C12) No call on \<open>MpmcRing\<close> waits for another thread. From every reachable state (with room for six
  more tickets in the counter range), however all other threads are stopped inside their calls, a thread
  whose loads are current and whose exchanges do not fail spuriously ends its \<open>try_push\<close> or \<open>try_pop\<close>
  within six of its own accesses.\<close>

theorem mpmc_solo_returns:
  assumes "mpmc_reach cap s" and "length (m_hist s) + 6 + unat cap < 2 ^ 63"
  shows "m_pcs ((mpmc_fresh cap p ^^ 6) s) p = M_idle \<and> (mpmc_step cap)\<^sup>*\<^sup>* s ((mpmc_fresh cap p ^^ 6) s)"
proof -
  let ?P = "\<lambda>k s. mpmc_reach cap s \<and> length (m_hist s) + k + unat cap < 2 ^ 63"
  let ?rank = "\<lambda>s. mpmc_rank (m_ring s) (m_pcs s p)"
  have step: "?P k (mpmc_fresh cap p t) \<and> ?rank (mpmc_fresh cap p t) < ?rank t \<and> mpmc_step cap t (mpmc_fresh cap p t)"
    if P: "?P (Suc k) t" and r: "0 < ?rank t" for k t
  proof -
    have "in_range cap t" using P by (simp add: in_range_def)
    with P obtain ph where inv: "mpmc_sys_inv cap ph t" using mpmc_reach_inv by blast
    have "m_pcs t p \<noteq> M_idle" using r mpmc_rank_0 [of "m_ring t" "m_pcs t p"] by simp
    note f = mpmc_fresh_step [OF inv this]
    from P have "mpmc_reach cap t" by blast
    from reach.reach_step [OF this f(1)] f P show ?thesis by simp
  qed
  have "?rank ((mpmc_fresh cap p ^^ 6) s) = 0 \<and> (mpmc_step cap)\<^sup>*\<^sup>* s ((mpmc_fresh cap p ^^ 6) s)"
  proof (rule rank_iter [where P = ?P and rank = ?rank and f = "mpmc_fresh cap p" and R = "mpmc_step cap"])
    show "?P 6 s" using assms by simp
  qed (use step mpmc_rank_le in \<open>auto simp: mpmc_rank_0 mpmc_fresh_idle\<close>)
  then show ?thesis by (simp add: mpmc_rank_0)
qed

theorem mpmc_solo_returns_witness:
  "m_pcs ((mpmc_fresh 2 5 ^^ 6) (set_pc 5 (M_push_load 9) mdemo0)) 5 = M_idle"
proof -
  have "m_pcs mdemo0 5 = M_idle" by (simp add: mdemo0_def)
  from reach.reach_step [OF mdemo0_reach m_push_call [OF this]]
  have r: "mpmc_reach 2 (set_pc 5 (M_push_load 9) mdemo0)" .
  have "length (m_hist (set_pc 5 (M_push_load 9) mdemo0)) + 6 + unat (2 :: size_t) < 2 ^ 63"
    by (simp add: mdemo0_def)
  from mpmc_solo_returns [OF r this, of 5] show ?thesis by simp
qed

text \<open>(C31) No call on \<open>BufferPool\<close> waits for another thread: from every reachable state a thread whose loads
  are current and whose exchanges do not fail spuriously ends its \<open>acquire\<close> or \<open>release\<close> within four of
  its own accesses.\<close>

theorem pool_solo_returns:
  assumes "pool_reach n s"
  shows "ps_pcs ((pool_fresh p ^^ 4) s) p = P_idle \<and> pool_step\<^sup>*\<^sup>* s ((pool_fresh p ^^ 4) s)"
proof -
  have known: "head_known s"
    using pool_threads.reach_inv [OF assms] by (simp add: pool_sys_inv_def hist_ok_def head_known_def)
  let ?rank = "\<lambda>s. pool_rank (ps_head s) (ps_pcs s p)"
  have step: "head_known (pool_fresh p t) \<and> ?rank (pool_fresh p t) < ?rank t \<and> pool_step t (pool_fresh p t)"
    if "head_known t" and "0 < ?rank t" for t
    using that pool_fresh_step [of t p] pool_rank_0 [of "ps_head t" "ps_pcs t p"] by simp
  have "?rank ((pool_fresh p ^^ 4) s) = 0 \<and> pool_step\<^sup>*\<^sup>* s ((pool_fresh p ^^ 4) s)"
  proof (rule rank_iter [where P = "\<lambda>_. head_known" and rank = ?rank and f = "pool_fresh p" and R = pool_step])
    show "head_known s" by (rule known)
  qed (use step pool_rank_le in \<open>auto simp: pool_rank_0 pool_fresh_idle\<close>)
  then show ?thesis by (simp add: pool_rank_0)
qed

theorem pool_solo_returns_witness:
  "ps_pcs ((pool_fresh 7 ^^ 4) (at_pc 7 P_acq_load pdemo0)) 7 = P_idle"
proof -
  have "pool_step pdemo0 (at_pc 7 P_acq_load pdemo0)" by (rule acq_call) (simp add: pdemo0_def)
  moreover have "lag_ok (at_pc 7 P_acq_load pdemo0)" by (simp add: lag_ok_def step_simps pdemo0_def)
  ultimately have "pool_step_lag pdemo0 (at_pc 7 P_acq_load pdemo0)" by (simp add: pool_step_lag_def)
  from reach.reach_step [OF pdemo0_reach this] have "pool_reach 2 (at_pc 7 P_acq_load pdemo0)" .
  from pool_solo_returns [OF this, of 7] show ?thesis by simp
qed

end
