(* ===== verification/Contended_Bench.thy ===== *)
theory Contended_Bench
  imports Progress
begin

text \<open>
  The contended micro-benchmarks of benchmarks/ring_benchmark.cpp and buffer_pool_benchmark.cpp, as
  programs over the thread models: every one of \<open>n\<close> threads runs the body of the benchmark on the shared
  object, over and over. A thread starts a call only where its program does; what happens inside the
  call is a step of the thread model. Also benchmarks/cache_line_benchmark.cpp.
\<close>

section \<open>Acquire and release under contention\<close>

text \<open>\<open>BM_BufferPoolAcquireReleaseContended\<close>: a thread that holds nothing acquires, again and again until
  it gets an index, and then releases this index. The shared pool has eight buffers.\<close>

definition contended_pool_buffers :: nat where
  "contended_pool_buffers = 8"

inductive BM_BufferPoolAcquireReleaseContended :: "nat \<Rightarrow> pool_sys \<Rightarrow> pool_sys \<Rightarrow> bool" for n :: nat where
  bench_acquire: "p < n \<Longrightarrow> ps_pcs s p = P_idle \<Longrightarrow> ps_held s p = [] \<Longrightarrow>
    BM_BufferPoolAcquireReleaseContended n s (at_pc p P_acq_load s)"
| bench_release: "p < n \<Longrightarrow> ps_pcs s p = P_idle \<Longrightarrow> ps_held s p = i # is \<Longrightarrow>
    BM_BufferPoolAcquireReleaseContended n s (at_pc p (P_rel_load i) s)"
| bench_inside: "pool_step_lag s t \<Longrightarrow> (\<And>q. ps_pcs s q = P_idle \<Longrightarrow> ps_pcs t q = P_idle) \<Longrightarrow>
    BM_BufferPoolAcquireReleaseContended n s t"

abbreviation contended_pool_reach :: "nat \<Rightarrow> pool_sys \<Rightarrow> bool" where
  "contended_pool_reach n \<equiv> reach (pool_sys_start contended_pool_buffers) (BM_BufferPoolAcquireReleaseContended n)"

text \<open>A thread holds nothing while it acquires and one buffer while it releases.\<close>

fun pool_client_ok :: "pool_pc \<Rightarrow> u32 list \<Rightarrow> bool" where
  "pool_client_ok P_idle held \<longleftrightarrow> length held \<le> 1"
| "pool_client_ok P_acq_load held \<longleftrightarrow> held = []"
| "pool_client_ok (P_acq_next h k) held \<longleftrightarrow> held = []"
| "pool_client_ok (P_acq_cas h k nx) held \<longleftrightarrow> held = []"
| "pool_client_ok (P_rel_load i) held \<longleftrightarrow> held = [i]"
| "pool_client_ok (P_rel_store i h) held \<longleftrightarrow> held = [i]"
| "pool_client_ok (P_rel_cas i h) held \<longleftrightarrow> held = [i]"

definition pool_client_inv :: "nat \<Rightarrow> pool_sys \<Rightarrow> bool" where
  "pool_client_inv n s \<longleftrightarrow> lag_ok s \<and> (\<forall>p. pool_client_ok (ps_pcs s p) (ps_held s p)) \<and>
     (\<forall>p \<ge> n. ps_pcs s p = P_idle \<and> ps_held s p = [])"

lemma pool_client_length: "pool_client_ok pc held \<Longrightarrow> length held \<le> 1"
  by (cases pc) simp_all

lemma pool_inside_client:
  assumes "pool_step s t" and "\<And>q. ps_pcs s q = P_idle \<Longrightarrow> ps_pcs t q = P_idle" and "pool_client_inv n s"
  shows "(\<forall>p. pool_client_ok (ps_pcs t p) (ps_held t p)) \<and> (\<forall>p \<ge> n. ps_pcs t p = P_idle \<and> ps_held t p = [])"
proof -
  have ok: "pool_client_ok (ps_pcs s p) (ps_held s p)" "n \<le> p \<Longrightarrow> ps_pcs s p = P_idle \<and> ps_held s p = []" for p
    using assms(3) by (simp_all add: pool_client_inv_def)
  from assms(1) show ?thesis
  proof cases
    case (acq_call p)
    with assms(2) [of p] show ?thesis by (simp add: step_simps)
  next
    case (rel_call p)
    with assms(2) [of p] show ?thesis by (simp add: step_simps)
  next
    case (acq_load p)
    with ok ok [of p] show ?thesis by (fastforce simp: step_simps)
  next
    case (acq_empty p)
    with ok ok [of p] show ?thesis by (fastforce simp: step_simps)
  next
    case (acq_next p)
    with ok ok [of p] show ?thesis by (fastforce simp: step_simps)
  next
    case (acq_cas_ok p)
    with ok ok [of p] show ?thesis by (fastforce simp: step_simps)
  next
    case (acq_cas_fail p)
    with ok ok [of p] show ?thesis by (fastforce simp: step_simps)
  next
    case (acq_cas_empty p)
    with ok ok [of p] show ?thesis by (fastforce simp: step_simps)
  next
    case (rel_load p)
    with ok ok [of p] show ?thesis by (fastforce simp: step_simps)
  next
    case (rel_store p)
    with ok ok [of p] show ?thesis by (fastforce simp: step_simps)
  next
    case (rel_cas_ok p)
    with ok ok [of p] show ?thesis by (fastforce simp: step_simps)
  next
    case (rel_cas_fail p)
    with ok ok [of p] show ?thesis by (fastforce simp: step_simps)
  qed
qed

lemma contended_pool_step:
  assumes inv: "pool_client_inv n s" and st: "BM_BufferPoolAcquireReleaseContended n s t"
  shows "pool_client_inv n t" and "pool_step_lag s t"
proof -
  have ok: "lag_ok s" "\<And>p. pool_client_ok (ps_pcs s p) (ps_held s p)" "\<And>p. n \<le> p \<Longrightarrow> ps_pcs s p = P_idle \<and> ps_held s p = []"
    using inv by (simp_all add: pool_client_inv_def)
  show lag: "pool_step_lag s t" using st
  proof cases
    case (bench_acquire p)
    with ok(1) show ?thesis using acq_call [of s p] by (auto simp: pool_step_lag_def lag_ok_def step_simps)
  next
    case (bench_release p i ys)
    with ok(1) show ?thesis using rel_call [of s p i] by (auto simp: pool_step_lag_def lag_ok_def step_simps)
  qed
  then have l: "lag_ok t" by (simp add: pool_step_lag_def)
  from st have "(\<forall>p. pool_client_ok (ps_pcs t p) (ps_held t p)) \<and> (\<forall>p \<ge> n. ps_pcs t p = P_idle \<and> ps_held t p = [])"
  proof cases
    case (bench_acquire p)
    with ok show ?thesis by (simp add: step_simps)
  next
    case (bench_release p i ys)
    with ok(2) [of p] ok show ?thesis by (simp add: step_simps)
  next
    case bench_inside
    have "pool_step s t" using lag by (simp add: pool_step_lag_def)
    then show ?thesis by (rule pool_inside_client [OF _ bench_inside(2) inv])
  qed
  with l show "pool_client_inv n t" by (simp add: pool_client_inv_def)
qed

interpretation contended_pool: inductive_invariant "pool_sys_start m" "BM_BufferPoolAcquireReleaseContended n" "pool_client_inv n" for m n
proof unfold_locales
  show "pool_client_inv n s" if "pool_sys_start m s" for s
    using that by (auto simp: pool_sys_start_def pool_client_inv_def lag_ok_def)
qed (rule contended_pool_step)

lemma contended_pool_run: "reach (pool_sys_start m) (BM_BufferPoolAcquireReleaseContended n) s \<Longrightarrow> pool_reach m s"
proof (induction rule: reach.induct)
  case (reach_step s t)
  from contended_pool_step(2) [OF contended_pool.reach_inv [OF reach_step.hyps(1)] reach_step.hyps(2)]
  show ?case by (rule reach.reach_step [OF reach_step.IH])
qed (rule reach.reach_start)

text \<open>With no more threads than buffers, a thread that holds nothing leaves a buffer to the free list.\<close>

lemma spare_buffer:
  assumes "pool_spec_inv m (fr, held)" and "m < 2 ^ 32" and "\<And>p. length (held p) \<le> 1" and "\<And>p. n \<le> p \<Longrightarrow> held p = []"
    and "n \<le> m" and "p < n" and "held p = []"
  shows "fr \<noteq> []"
proof
  assume "fr = []"
  then have "{i. unat i < m} = (\<Union>q. set (held q))" using assms(1) by (auto simp: pool_spec_inv_def)
  also have "\<dots> = (\<Union>q \<in> {..<n} - {p}. set (held q))"
  proof (intro equalityI UN_least)
    fix q
    show "set (held q) \<subseteq> (\<Union>q \<in> {..<n} - {p}. set (held q))"
      using assms(4) [of q] assms(7) by (cases "q < n \<and> q \<noteq> p") (auto simp: not_less)
  qed auto
  finally have "card {i :: u32. unat i < m} \<le> (\<Sum>q \<in> {..<n} - {p}. card (set (held q)))"
    by (simp add: card_UN_le)
  also have "\<dots> \<le> (\<Sum>q \<in> {..<n} - {p}. 1)"
    by (rule sum_mono) (meson assms(3) card_length le_trans)
  also have "\<dots> < m" using assms(5,6) by simp
  finally have "card {i :: u32. unat i < m} < m" .
  moreover have "card {i :: u32. unat i < m} = m"
    using distinct_card [OF distinct_initial [OF assms(2)]] initial_set [OF assms(2)] by simp
  ultimately show False by simp
qed

lemma free_chain_head: "free_chain nx h fr \<Longrightarrow> fr \<noteq> [] \<Longrightarrow> h \<noteq> kInvalidIndex"
  by (cases fr) auto

lemma contended_head_valid:
  assumes "contended_pool_reach n s" and "n \<le> contended_pool_buffers" and "p < n" and "ps_held s p = []"
  shows "UnpackIndex (ps_head s) \<noteq> kInvalidIndex"
proof -
  have cl: "pool_client_inv n s" using assms(1) by (rule contended_pool.reach_inv)
  have inv: "pool_sys_inv contended_pool_buffers s" by (rule pool_threads.reach_inv [OF contended_pool_run [OF assms(1)]])
  have "sys_free s \<noteq> []"
  proof (rule spare_buffer [of contended_pool_buffers _ "ps_held s" n p])
    show "pool_spec_inv contended_pool_buffers (sys_free s, ps_held s)" using inv by (simp add: pool_sys_inv_def pool_abs_def)
    show "length (ps_held s q) \<le> 1" for q
      using cl pool_client_length [of "ps_pcs s q" "ps_held s q"] unfolding pool_client_inv_def by blast
    show "n \<le> q \<Longrightarrow> ps_held s q = []" for q using cl by (simp add: pool_client_inv_def)
  qed (use assms in \<open>simp_all add: contended_pool_buffers_def\<close>)
  then show ?thesis using inv by (intro free_chain_head [of "ps_next s" _ "sys_free s"]) (simp_all add: pool_sys_inv_def)
qed

text \<open>A thread that is acquiring, on a head with an index.\<close>

fun acquiring :: "pool_pc \<Rightarrow> bool" where
  "acquiring P_acq_load \<longleftrightarrow> True"
| "acquiring (P_acq_next h k) \<longleftrightarrow> True"
| "acquiring (P_acq_cas h k nx) \<longleftrightarrow> True"
| "acquiring _ \<longleftrightarrow> False"

lemma fresh_acquire:
  assumes valid: "UnpackIndex (ps_head s) \<noteq> kInvalidIndex"
  shows "ps_pcs s p = P_acq_cas (ps_head s) k nx \<Longrightarrow>
      ps_pcs (pool_fresh p s) p = P_idle \<and> ps_held (pool_fresh p s) p = UnpackIndex (ps_head s) # ps_held s p"
    and "ps_pcs s p = P_acq_next h k \<Longrightarrow> \<exists>nx. pool_fresh p s = at_pc p (P_acq_cas h k nx) s"
    and "ps_pcs s p = P_acq_load \<Longrightarrow> \<exists>k. pool_fresh p s = at_pc p (P_acq_next (ps_head s) k) s"
    and "ps_pcs s p = P_acq_cas h k nx \<Longrightarrow> h \<noteq> ps_head s \<Longrightarrow> \<exists>k. pool_fresh p s = at_pc p (P_acq_next (ps_head s) k) s"
  using valid by (auto simp: pool_fresh_def Let_def step_simps)

lemma fresh_idle_iter: "ps_pcs s p = P_idle \<Longrightarrow> (pool_fresh p ^^ n) s = s"
  by (induction n) (simp_all add: pool_fresh_idle)

lemma fresh_next:
  assumes "UnpackIndex (ps_head s) \<noteq> kInvalidIndex" and "ps_pcs s p = P_acq_next (ps_head s) k"
  shows "ps_held ((pool_fresh p ^^ Suc (Suc n)) s) p = UnpackIndex (ps_head s) # ps_held s p"
proof -
  obtain nx where nx: "pool_fresh p s = at_pc p (P_acq_cas (ps_head s) k nx) s" using fresh_acquire(2) [OF assms] by blast
  let ?t = "at_pc p (P_acq_cas (ps_head s) k nx) s"
  have "ps_pcs (pool_fresh p ?t) p = P_idle \<and> ps_held (pool_fresh p ?t) p = UnpackIndex (ps_head s) # ps_held s p"
    using fresh_acquire(1) [of ?t p k nx] assms(1) by (simp add: step_simps)
  then show ?thesis using fresh_idle_iter [of "pool_fresh p ?t" p n] by (simp add: nx funpow_swap1)
qed

text \<open>Whatever the thread has read before, it gets the current head within four accesses.\<close>

lemma pool_fresh_acquires:
  assumes valid: "UnpackIndex (ps_head s) \<noteq> kInvalidIndex" and acq: "acquiring (ps_pcs s p)"
  shows "ps_held ((pool_fresh p ^^ 4) s) p = UnpackIndex (ps_head s) # ps_held s p"
proof -
  have after: "ps_held ((pool_fresh p ^^ Suc (Suc (Suc n))) t) p = UnpackIndex (ps_head s) # ps_held s p"
    if "pool_fresh p t = at_pc p (P_acq_next (ps_head s) k) s" for n t k
  proof -
    have "ps_held ((pool_fresh p ^^ Suc (Suc n)) (at_pc p (P_acq_next (ps_head s) k) s)) p = UnpackIndex (ps_head s) # ps_held s p"
      using fresh_next [of "at_pc p (P_acq_next (ps_head s) k) s" p k n] valid by (simp add: step_simps)
    then show ?thesis using that by (simp add: funpow_swap1)
  qed
  have four: "(pool_fresh p ^^ 4) t = (pool_fresh p ^^ Suc (Suc (Suc (Suc 0)))) t" for t by (simp add: eval_nat_numeral)
  show ?thesis
  proof (cases "ps_pcs s p")
    case P_acq_load
    with fresh_acquire(3) [OF valid] after show ?thesis unfolding four by blast
  next
    case (P_acq_cas h k nx)
    show ?thesis
    proof (cases "h = ps_head s")
      case True
      then have "ps_pcs (pool_fresh p s) p = P_idle \<and> ps_held (pool_fresh p s) p = UnpackIndex (ps_head s) # ps_held s p"
        using fresh_acquire(1) [OF valid] P_acq_cas by simp
      with fresh_idle_iter [of "pool_fresh p s" p 3] show ?thesis by (simp add: four funpow_swap1 eval_nat_numeral)
    next
      case False
      with fresh_acquire(4) [OF valid P_acq_cas] after show ?thesis unfolding four by blast
    qed
  next
    case (P_acq_next h k)
    show ?thesis
    proof (cases "h = ps_head s")
      case True
      with fresh_next [OF valid, of p k] P_acq_next show ?thesis unfolding four by blast
    next
      case False
      obtain nx where nx: "pool_fresh p s = at_pc p (P_acq_cas h k nx) s" using fresh_acquire(2) [OF valid P_acq_next] by blast
      let ?t = "at_pc p (P_acq_cas h k nx) s"
      obtain k' where "pool_fresh p ?t = at_pc p (P_acq_next (ps_head s) k') s"
        using fresh_acquire(4) [of ?t p h k nx] valid False by (auto simp: step_simps)
      from after [OF this, of 0] nx show ?thesis unfolding four by (simp add: funpow_swap1)
    qed
  qed (use acq in simp_all)
qed

section \<open>Push and pop under contention\<close>

text \<open>\<open>BM_MpmcRingPushPopContended\<close>: a thread pushes until it succeeds and then pops until it succeeds.
  \<open>rb_popping\<close> says in which of the two loops a thread is: a push has succeeded when the thread has
  claimed its ticket, a pop likewise.\<close>

record ring_bench =
  rb_sys :: "u64 mpmc_sys"
  rb_popping :: "nat \<Rightarrow> bool"

fun push_claimed :: "'a mpmc_pc \<Rightarrow> 'a mpmc_pc \<Rightarrow> bool" where
  "push_claimed (M_push_cas v pos) (M_push_write v' pos') \<longleftrightarrow> True"
| "push_claimed _ _ \<longleftrightarrow> False"

fun pop_claimed :: "'a mpmc_pc \<Rightarrow> 'a mpmc_pc \<Rightarrow> bool" where
  "pop_claimed (M_pop_cas pos) (M_pop_read pos') \<longleftrightarrow> True"
| "pop_claimed _ _ \<longleftrightarrow> False"

definition next_loop :: "u64 mpmc_sys \<Rightarrow> u64 mpmc_sys \<Rightarrow> (nat \<Rightarrow> bool) \<Rightarrow> nat \<Rightarrow> bool" where
  "next_loop s t popping q = (if push_claimed (m_pcs s q) (m_pcs t q) then True
     else if pop_claimed (m_pcs s q) (m_pcs t q) then False else popping q)"

inductive BM_MpmcRingPushPopContended :: "nat \<Rightarrow> ring_bench \<Rightarrow> ring_bench \<Rightarrow> bool" for n :: nat where
  bench_push: "p < n \<Longrightarrow> m_pcs (rb_sys s) p = M_idle \<Longrightarrow> \<not> rb_popping s p \<Longrightarrow>
    BM_MpmcRingPushPopContended n s (s\<lparr>rb_sys := set_pc p (M_push_load 1) (rb_sys s)\<rparr>)"
| bench_pop: "p < n \<Longrightarrow> m_pcs (rb_sys s) p = M_idle \<Longrightarrow> rb_popping s p \<Longrightarrow>
    BM_MpmcRingPushPopContended n s (s\<lparr>rb_sys := set_pc p M_pop_load (rb_sys s)\<rparr>)"
| bench_call: "mpmc_step 1024 (rb_sys s) t \<Longrightarrow> (\<And>q. m_pcs (rb_sys s) q = M_idle \<Longrightarrow> m_pcs t q = M_idle) \<Longrightarrow>
    BM_MpmcRingPushPopContended n s \<lparr>rb_sys = t, rb_popping = next_loop (rb_sys s) t (rb_popping s)\<rparr>"

definition ring_bench_start :: "ring_bench \<Rightarrow> bool" where
  "ring_bench_start s \<longleftrightarrow> mpmc_start 1024 (rb_sys s) \<and> rb_popping s = (\<lambda>_. False)"

fun ring_client_ok :: "'a mpmc_pc \<Rightarrow> bool \<Rightarrow> bool" where
  "ring_client_ok M_idle popping \<longleftrightarrow> True"
| "ring_client_ok (M_push_load v) popping \<longleftrightarrow> \<not> popping"
| "ring_client_ok (M_push_seq v pos) popping \<longleftrightarrow> \<not> popping"
| "ring_client_ok (M_push_cas v pos) popping \<longleftrightarrow> \<not> popping"
| "ring_client_ok (M_push_write v pos) popping \<longleftrightarrow> popping"
| "ring_client_ok (M_push_publish v pos) popping \<longleftrightarrow> popping"
| "ring_client_ok M_pop_load popping \<longleftrightarrow> popping"
| "ring_client_ok (M_pop_seq pos) popping \<longleftrightarrow> popping"
| "ring_client_ok (M_pop_cas pos) popping \<longleftrightarrow> popping"
| "ring_client_ok (M_pop_read pos) popping \<longleftrightarrow> \<not> popping"
| "ring_client_ok (M_pop_publish pos out) popping \<longleftrightarrow> \<not> popping"

text \<open>The values in the ring (claimed by a push, not claimed by a pop) are as many as the threads in their
  pop loop.\<close>

definition ring_bench_inv :: "nat \<Rightarrow> ring_bench \<Rightarrow> bool" where
  "ring_bench_inv n s \<longleftrightarrow> (\<forall>p. ring_client_ok (m_pcs (rb_sys s) p) (rb_popping s p)) \<and>
     (\<forall>p \<ge> n. m_pcs (rb_sys s) p = M_idle \<and> \<not> rb_popping s p) \<and>
     length (m_hist (rb_sys s)) = m_taken (rb_sys s) + card {p. rb_popping s p}"

lemma claimed_same [simp]: "\<not> push_claimed pc pc" "\<not> pop_claimed pc pc"
  by (cases pc; simp)+

lemma next_loop_set_pc:
  "m_pcs t = (m_pcs s)(p := pc) \<Longrightarrow> next_loop s t popping = popping(p :=
     if push_claimed (m_pcs s p) pc then True else if pop_claimed (m_pcs s p) pc then False else popping p)"
  by (rule ext) (simp add: next_loop_def)

text \<open>A step inside a call moves one thread, which was not idle; its two counters move with the claims.\<close>

lemma mpmc_frameI:
  assumes "t = set_pc p pc u" and "m_pcs u = m_pcs s" and "m_pcs s p \<noteq> M_idle"
    and "\<And>b. ring_client_ok (m_pcs s p) b \<Longrightarrow> ring_client_ok pc
      (if push_claimed (m_pcs s p) pc then True else if pop_claimed (m_pcs s p) pc then False else b)"
    and "length (m_hist u) = length (m_hist s) + of_bool (push_claimed (m_pcs s p) pc)"
    and "m_taken u = m_taken s + of_bool (pop_claimed (m_pcs s p) pc)"
  shows "\<exists>p pc. m_pcs t = (m_pcs s)(p := pc) \<and> m_pcs s p \<noteq> M_idle \<and>
    (\<forall>b. ring_client_ok (m_pcs s p) b \<longrightarrow> ring_client_ok pc
      (if push_claimed (m_pcs s p) pc then True else if pop_claimed (m_pcs s p) pc then False else b)) \<and>
    length (m_hist t) = length (m_hist s) + of_bool (push_claimed (m_pcs s p) pc) \<and>
    m_taken t = m_taken s + of_bool (pop_claimed (m_pcs s p) pc)"
  using assms by (intro exI [of _ p] exI [of _ pc]) (simp add: set_pc_def)

lemma set_pc_same: "m_pcs (set_pc p pc u) p = pc" by (simp add: set_pc_def)

lemma mpmc_step_frame:
  assumes "mpmc_step cap s t" and "\<And>q. m_pcs s q = M_idle \<Longrightarrow> m_pcs t q = M_idle"
  shows "\<exists>p pc. m_pcs t = (m_pcs s)(p := pc) \<and> m_pcs s p \<noteq> M_idle \<and>
    (\<forall>b. ring_client_ok (m_pcs s p) b \<longrightarrow> ring_client_ok pc
      (if push_claimed (m_pcs s p) pc then True else if pop_claimed (m_pcs s p) pc then False else b)) \<and>
    length (m_hist t) = length (m_hist s) + of_bool (push_claimed (m_pcs s p) pc) \<and>
    m_taken t = m_taken s + of_bool (pop_claimed (m_pcs s p) pc)"
  using assms(1)
proof cases
  case (m_push_call p v)
  with assms(2) [of p] show ?thesis by (simp add: set_pc_same)
next
  case (m_pop_call p)
  with assms(2) [of p] show ?thesis by (simp add: set_pc_same)
qed (erule mpmc_frameI; simp)+

lemma card_popping:
  assumes "\<And>q. n \<le> q \<Longrightarrow> \<not> popping q"
  shows "\<not> popping p \<Longrightarrow> card {q. (popping(p := True)) q} = card {q. popping q} + 1"
    and "popping p \<Longrightarrow> card {q. popping q} = card {q. (popping(p := False)) q} + 1"
    and "card {q. popping q} \<le> n"
proof -
  have "{q. popping q} \<subseteq> {..<n}" using assms by (auto simp: not_less [symmetric])
  then have fin: "finite {q. popping q}" and "card {q. popping q} \<le> card {..<n}"
    by (rule finite_subset, simp, intro card_mono) simp_all
  then show "card {q. popping q} \<le> n" by simp
  have "{q. (popping(p := True)) q} = insert p {q. popping q}" by auto
  then show "\<not> popping p \<Longrightarrow> card {q. (popping(p := True)) q} = card {q. popping q} + 1" using fin by simp
  have "{q. (popping(p := False)) q} = {q. popping q} - {p}" by auto
  then show "popping p \<Longrightarrow> card {q. popping q} = card {q. (popping(p := False)) q} + 1"
    using fin by (simp add: card_Suc_Diff1 del: card_Diff_insert)
qed

lemma ring_call_inv:
  assumes inv: "ring_bench_inv n s" and st: "mpmc_step 1024 (rb_sys s) t"
    and idle: "\<And>q. m_pcs (rb_sys s) q = M_idle \<Longrightarrow> m_pcs t q = M_idle"
  shows "ring_bench_inv n \<lparr>rb_sys = t, rb_popping = next_loop (rb_sys s) t (rb_popping s)\<rparr>"
proof -
  have ok: "\<And>p. ring_client_ok (m_pcs (rb_sys s) p) (rb_popping s p)"
    "\<And>p. n \<le> p \<Longrightarrow> m_pcs (rb_sys s) p = M_idle \<and> \<not> rb_popping s p"
    "length (m_hist (rb_sys s)) = m_taken (rb_sys s) + card {p. rb_popping s p}"
    using inv by (simp_all add: ring_bench_inv_def)
  obtain p pc where p: "m_pcs t = (m_pcs (rb_sys s))(p := pc)" "m_pcs (rb_sys s) p \<noteq> M_idle"
    "\<forall>b. ring_client_ok (m_pcs (rb_sys s) p) b \<longrightarrow> ring_client_ok pc
      (if push_claimed (m_pcs (rb_sys s) p) pc then True else if pop_claimed (m_pcs (rb_sys s) p) pc then False else b)"
    "length (m_hist t) = length (m_hist (rb_sys s)) + of_bool (push_claimed (m_pcs (rb_sys s) p) pc)"
    "m_taken t = m_taken (rb_sys s) + of_bool (pop_claimed (m_pcs (rb_sys s) p) pc)"
    using mpmc_step_frame [OF st idle] by blast
  let ?pop = "(rb_popping s)(p := if push_claimed (m_pcs (rb_sys s) p) pc then True
     else if pop_claimed (m_pcs (rb_sys s) p) pc then False else rb_popping s p)"
  have nx: "next_loop (rb_sys s) t (rb_popping s) = ?pop" by (rule next_loop_set_pc [OF p(1)])
  have lt: "p < n" using p(2) ok(2) by (meson not_less)
  have "length (m_hist t) = m_taken t + card {q. ?pop q}"
  proof (cases "push_claimed (m_pcs (rb_sys s) p) pc")
    case True
    then have "\<not> rb_popping s p" "\<not> pop_claimed (m_pcs (rb_sys s) p) pc"
      using ok(1) [of p] by (cases "(m_pcs (rb_sys s) p, pc)" rule: push_claimed.cases; simp)+
    with True p(4,5) ok card_popping(1) [of n "rb_popping s" p] show ?thesis by simp
  next
    case np: False
    show ?thesis
    proof (cases "pop_claimed (m_pcs (rb_sys s) p) pc")
      case True
      then have "rb_popping s p" using ok(1) [of p] by (cases "(m_pcs (rb_sys s) p, pc)" rule: pop_claimed.cases; simp)
      with True np p(4,5) ok card_popping(2) [of n "rb_popping s" p] show ?thesis by simp
    next
      case False
      with np p(4,5) ok show ?thesis by (simp add: fun_upd_triv)
    qed
  qed
  with nx p(1) p(3) [rule_format, OF ok(1)] ok lt show ?thesis by (simp add: ring_bench_inv_def split: if_splits)
qed

interpretation ring_bench: inductive_invariant ring_bench_start "BM_MpmcRingPushPopContended n" "ring_bench_inv n" for n
proof unfold_locales
  show "ring_bench_inv n s" if "ring_bench_start s" for s
    using that by (auto simp: ring_bench_start_def ring_bench_inv_def mpmc_start_def)
  show "ring_bench_inv n t" if "ring_bench_inv n s" "BM_MpmcRingPushPopContended n s t" for s t
    using that(2)
  proof cases
    case bench_call
    then show ?thesis using ring_call_inv [OF that(1)] by simp
  qed (use that(1) in \<open>auto simp: ring_bench_inv_def set_pc_def\<close>)
qed

section \<open>A padded counter\<close>

text \<open>benchmarks/cache_line_benchmark.cpp: \<open>n\<close> relaxed increments of a padded counter.\<close>

definition BM_CacheLinePaddedIncrement :: "nat \<Rightarrow> u64 CacheLinePadded" where
  "BM_CacheLinePaddedIncrement n = ((\<lambda>c. c\<lparr>padded_value := padded_get c + 1\<rparr>) ^^ n) (padded_init 0)"

lemma padded_increment: "padded_get (BM_CacheLinePaddedIncrement n) = of_nat n"
  unfolding BM_CacheLinePaddedIncrement_def by (induction n) (simp_all add: padded_get_def padded_init_def)

section \<open>Properties\<close>

text \<open>(C40) The contended pool benchmark never runs out of buffers: with at most eight threads, as many as it is
  registered for, a thread that holds no buffer always finds an index at the head of the free list,
  and its acquire, if no other thread interferes, returns this index within four accesses, whatever the
  thread has read before. So its retry loop never waits for a release.\<close>

theorem contended_pool_never_empty:
  assumes "contended_pool_reach n s" and "n \<le> contended_pool_buffers" and "p < n" and "ps_held s p = []"
  shows "UnpackIndex (ps_head s) \<noteq> kInvalidIndex \<and>
    (acquiring (ps_pcs s p) \<longrightarrow> ps_held ((pool_fresh p ^^ 4) s) p = [UnpackIndex (ps_head s)])"
proof -
  have valid: "UnpackIndex (ps_head s) \<noteq> kInvalidIndex" by (rule contended_head_valid [OF assms])
  then show ?thesis using pool_fresh_acquires [OF valid, of p] assms(4) by simp
qed

definition contended_demo :: pool_sys where
  "contended_demo =
     \<lparr>ps_head = padded_get (free_head (built_pool 0 8 4096)), ps_next = free_next (built_pool 0 8 4096),
      ps_pcs = (\<lambda>_. P_idle), ps_held = (\<lambda>_. []), ps_hist = [padded_get (free_head (built_pool 0 8 4096))]\<rparr>"

lemma contended_demo_reach: "contended_pool_reach 8 (at_pc 3 P_acq_load contended_demo)"
proof (rule reach.reach_step)
  have "pool_sys_start contended_pool_buffers contended_demo"
    unfolding pool_sys_start_def contended_pool_buffers_def
    by (intro conjI exI [of _ "0 :: addr"] exI [of _ "4096 :: size_t"]) (simp_all add: contended_demo_def)
  then show "contended_pool_reach 8 contended_demo" by (rule reach.reach_start)
  show "BM_BufferPoolAcquireReleaseContended 8 contended_demo (at_pc 3 P_acq_load contended_demo)"
    by (rule bench_acquire) (simp_all add: contended_demo_def)
qed

theorem contended_pool_never_empty_witness:
  "ps_held ((pool_fresh 3 ^^ 4) (at_pc 3 P_acq_load contended_demo)) 3 \<noteq> []"
  using contended_pool_never_empty [OF contended_demo_reach, of 3]
  by (simp add: contended_pool_buffers_def contended_demo_def step_simps)

text \<open>The contended ring benchmark keeps the ring in balance: in every interleaving of \<open>n\<close> threads the
  values in the ring are as many as the threads that have pushed and not yet popped. So a thread in its
  pop loop always has a value to wait for, the ring holds at most \<open>n\<close> values and, with fewer than 1024
  threads, is never full.\<close>

lemma contended_ring_balance:
  assumes "reach ring_bench_start (BM_MpmcRingPushPopContended n) s"
  shows "length (m_hist (rb_sys s)) = m_taken (rb_sys s) + card {p. rb_popping s p} \<and>
    card {p. rb_popping s p} \<le> n \<and> (\<forall>p. rb_popping s p \<longrightarrow> m_taken (rb_sys s) < length (m_hist (rb_sys s)))"
proof -
  have inv: "ring_bench_inv n s" using assms by (rule ring_bench.reach_inv)
  then have none: "\<And>q. n \<le> q \<Longrightarrow> \<not> rb_popping s q" by (simp add: ring_bench_inv_def)
  have eq: "length (m_hist (rb_sys s)) = m_taken (rb_sys s) + card {p. rb_popping s p}"
    using inv by (simp add: ring_bench_inv_def)
  have "m_taken (rb_sys s) < length (m_hist (rb_sys s))" if "rb_popping s p" for p
    using card_popping(2) [of n "rb_popping s", OF none that] eq by simp
  with eq card_popping(3) [of n "rb_popping s", OF none] show ?thesis by blast
qed

definition ring_demo :: ring_bench where
  "ring_demo = \<lparr>rb_sys = \<lparr>m_ring = MpmcRing 1024 0, m_pcs = (\<lambda>_. M_idle), m_hist = [], m_taken = 0, m_got = []\<rparr>,
     rb_popping = (\<lambda>_. False)\<rparr>"

lemma contended_ring_example:
  "length (m_hist (set_pc 2 (M_push_load 1) (rb_sys ring_demo))) =
     m_taken (set_pc 2 (M_push_load 1) (rb_sys ring_demo)) + card {p. rb_popping ring_demo p}"
proof -
  have "ring_bench_start ring_demo"
    by (auto simp: ring_bench_start_def ring_demo_def mpmc_start_def pow2_cap_def capacity_assert_def)
  then have "reach ring_bench_start (BM_MpmcRingPushPopContended 4) ring_demo" by (rule reach.reach_start)
  moreover have "BM_MpmcRingPushPopContended 4 ring_demo (ring_demo\<lparr>rb_sys := set_pc 2 (M_push_load 1) (rb_sys ring_demo)\<rparr>)"
    by (rule bench_push) (simp_all add: ring_demo_def)
  ultimately have "reach ring_bench_start (BM_MpmcRingPushPopContended 4) (ring_demo\<lparr>rb_sys := set_pc 2 (M_push_load 1) (rb_sys ring_demo)\<rparr>)"
    by (rule reach.reach_step)
  from contended_ring_balance [OF this] show ?thesis by simp
qed

end
