(* ===== verification/Io_Types.thy ===== *)
theory Io_Types
  imports Ringio_Prelude
begin

text \<open>
  The values that travel through the rings (include/ringio/io_request.hpp and
  include/ringio/io_completion.hpp), with the member initialisers of the source as the default
  values. Signed 32-bit members are kept as 32-bit words; \<open>sint\<close> reads them.
\<close>

datatype IoOp = kRead | kWrite

record IoRequest =
  op :: IoOp
  fixed_fd_index :: i32
  buffer_index :: u32
  offset :: u64
  req_length :: u32
  token :: u64

definition IoRequest_default :: IoRequest where
  "IoRequest_default = \<lparr>op = kRead, fixed_fd_index = -1, buffer_index = 0, offset = 0,
     req_length = 0, token = 0\<rparr>"

record IoCompletion =
  comp_token :: u64
  comp_result :: i32

definition IoCompletion_default :: IoCompletion where
  "IoCompletion_default = \<lparr>comp_token = 0, comp_result = 0\<rparr>"

end
