(* ===== verification/Sqpoll_Engine.thy ===== *)
theory Sqpoll_Engine
  imports Spsc_Ring Mpmc_Ring Buffer_Pool Io_Types
begin

text \<open>
  \<open>ringio::SqpollEngine\<close> (include/ringio/sqpoll_engine.hpp) and \<open>BufferPool::register_with\<close>.
  liburing and the kernel behind it are a parameter: a record with one field per function or
  constant the engine uses, over an arbitrary type of rings. What the engine relies on is the
  predicate \<open>liburing_documented\<close>. Request and completion queues are parameters too, as the
  templates of the source have them; the lemmas are proved once under the queue contracts and
  hold for both rings.
\<close>

section \<open>Data shared with the kernel\<close>

record sqe =
  sqe_opcode :: u8
  sqe_flags :: u8
  sqe_fd :: i32
  sqe_off :: u64
  sqe_addr :: addr
  sqe_len :: u32
  sqe_buf_index :: "16 word"
  sqe_user_data :: u64

record cqe =
  cqe_user_data :: u64
  cqe_res :: i32

record io_uring_params =
  params_flags :: u32
  params_sq_thread_idle :: u32
  params_sq_thread_cpu :: u32
  params_wq_fd :: u32

text \<open>\<open>io_uring_get_sqe\<close> yields the position of a vacant entry; the entry behind it is read and
  written with \<open>load_sqe\<close> and \<open>store_sqe\<close>. \<open>visible_cqes\<close> are the entries
  \<open>io_uring_for_each_cqe\<close> walks, in order.\<close>

record 'r liburing =
  IORING_SETUP_SQPOLL :: u32
  IORING_SETUP_ATTACH_WQ :: u32
  IOSQE_FIXED_FILE :: u8
  IORING_OP_READ_FIXED :: u8
  IORING_OP_WRITE_FIXED :: u8
  HAVE_REGISTER_RING_FD :: bool
  ring_fd :: "'r \<Rightarrow> i32"
  io_uring_queue_init_params :: "u32 \<Rightarrow> io_uring_params \<Rightarrow> int \<times> 'r"
  io_uring_register_ring_fd :: "'r \<Rightarrow> int \<times> 'r"
  io_uring_queue_exit :: "'r \<Rightarrow> 'r"
  io_uring_register_files :: "'r \<Rightarrow> i32 list \<Rightarrow> u32 \<Rightarrow> int \<times> 'r"
  io_uring_register_buffers :: "'r \<Rightarrow> iovec list \<Rightarrow> u32 \<Rightarrow> int \<times> 'r"
  io_uring_get_sqe :: "'r \<Rightarrow> nat option \<times> 'r"
  load_sqe :: "'r \<Rightarrow> nat \<Rightarrow> sqe"
  store_sqe :: "'r \<Rightarrow> nat \<Rightarrow> sqe \<Rightarrow> 'r"
  io_uring_prep_read_fixed :: "sqe \<Rightarrow> i32 \<Rightarrow> addr \<Rightarrow> u32 \<Rightarrow> u64 \<Rightarrow> i32 \<Rightarrow> sqe"
  io_uring_prep_write_fixed :: "sqe \<Rightarrow> i32 \<Rightarrow> addr \<Rightarrow> u32 \<Rightarrow> u64 \<Rightarrow> i32 \<Rightarrow> sqe"
  io_uring_sqe_set_data :: "sqe \<Rightarrow> u64 \<Rightarrow> sqe"
  io_uring_submit :: "'r \<Rightarrow> int \<times> 'r"
  visible_cqes :: "'r \<Rightarrow> cqe list"
  io_uring_cqe_get_data :: "cqe \<Rightarrow> u64"
  io_uring_cq_advance :: "'r \<Rightarrow> u32 \<Rightarrow> 'r"

section \<open>The engine\<close>

record 'r SqpollEngine =
  ring :: 'r

datatype engine_error = Engine_system_error int

definition native_handle :: "'r SqpollEngine \<Rightarrow> 'r" where
  "native_handle e = ring e"

definition SqpollEngine_ctor ::
    "'r liburing \<Rightarrow> u32 \<Rightarrow> u32 \<Rightarrow> 'r SqpollEngine option \<Rightarrow> engine_error + 'r SqpollEngine" where
  "SqpollEngine_ctor lib entries sq_thread_idle_ms attach_to =
     (let params = \<lparr>params_flags = IORING_SETUP_SQPOLL lib,
            params_sq_thread_idle = sq_thread_idle_ms, params_sq_thread_cpu = 0, params_wq_fd = 0\<rparr>;
          params = (case attach_to of None \<Rightarrow> params
            | Some other \<Rightarrow> params\<lparr>params_flags := params_flags params OR IORING_SETUP_ATTACH_WQ lib,
                params_wq_fd := ring_fd lib (native_handle other)\<rparr>);
          (ret, r) = io_uring_queue_init_params lib entries params in
      if ret < 0 then Inl (Engine_system_error (- ret))
      else Inr \<lparr>ring = if HAVE_REGISTER_RING_FD lib then snd (io_uring_register_ring_fd lib r) else r\<rparr>)"

definition SqpollEngine_dtor :: "'r liburing \<Rightarrow> 'r SqpollEngine \<Rightarrow> 'r" where
  "SqpollEngine_dtor lib e = io_uring_queue_exit lib (ring e)"

definition register_with :: "'r liburing \<Rightarrow> BufferPool \<Rightarrow> 'r \<Rightarrow> int \<times> 'r" where
  "register_with lib pool r =
     io_uring_register_buffers lib r (bp_iovecs pool) (of_nat (length (bp_iovecs pool)))"

definition register_files :: "'r liburing \<Rightarrow> 'r SqpollEngine \<Rightarrow> i32 list \<Rightarrow> int \<times> 'r SqpollEngine" where
  "register_files lib e fds =
     (let (ret, r) = io_uring_register_files lib (ring e) fds (of_nat (length fds)) in (ret, e\<lparr>ring := r\<rparr>))"

definition register_buffers :: "'r liburing \<Rightarrow> 'r SqpollEngine \<Rightarrow> BufferPool \<Rightarrow> int \<times> 'r SqpollEngine" where
  "register_buffers lib e pool = (let (ret, r) = register_with lib pool (ring e) in (ret, e\<lparr>ring := r\<rparr>))"

text \<open>The body of the drain loop: the entry for one request.\<close>

definition fill_sqe :: "'r liburing \<Rightarrow> BufferPool \<Rightarrow> IoRequest \<Rightarrow> sqe \<Rightarrow> sqe" where
  "fill_sqe lib pool req entry =
     (let buf = pool_data pool (buffer_index req);
          buf_index = buffer_index req;
          entry = (if op req = kRead
            then io_uring_prep_read_fixed lib entry (fixed_fd_index req) buf (req_length req) (offset req) buf_index
            else io_uring_prep_write_fixed lib entry (fixed_fd_index req) buf (req_length req) (offset req) buf_index);
          entry = entry\<lparr>sqe_flags := sqe_flags entry OR IOSQE_FIXED_FILE lib\<rparr>
      in io_uring_sqe_set_data lib entry (token req))"

function drain_loop :: "'r liburing \<Rightarrow> ('q \<Rightarrow> (IoRequest option \<times> 'q) option) \<Rightarrow> BufferPool \<Rightarrow> size_t \<Rightarrow>
    size_t \<Rightarrow> 'r \<Rightarrow> 'q \<Rightarrow> (size_t \<times> 'r \<times> 'q) option" where
  "drain_loop lib try_pop pool max_batch submitted r queue =
     (if submitted < max_batch then
        (case try_pop queue of
           None \<Rightarrow> None
         | Some (None, queue') \<Rightarrow> Some (submitted, r, queue')
         | Some (Some req, queue') \<Rightarrow>
             (case io_uring_get_sqe lib r of
                (None, r') \<Rightarrow> Some (submitted, r', queue')
              | (Some pos, r') \<Rightarrow> drain_loop lib try_pop pool max_batch (submitted + 1)
                  (store_sqe lib r' pos (fill_sqe lib pool req (load_sqe lib r' pos))) queue'))
      else Some (submitted, r, queue))"
  by pat_completeness auto
termination
proof (relation "measure (\<lambda>(lib, try_pop, pool, max_batch, submitted, r, queue). unat max_batch - unat submitted)",
    goal_cases)
  case (2 lib try_pop pool max_batch submitted r queue)
  then have "unat (submitted + 1) = unat submitted + 1" "unat submitted < unat max_batch"
    by (unat_arith)+
  then show ?case by simp
qed simp

declare drain_loop.simps [simp del]

definition drain_and_submit :: "'r liburing \<Rightarrow> ('q \<Rightarrow> (IoRequest option \<times> 'q) option) \<Rightarrow>
    'r SqpollEngine \<Rightarrow> 'q \<Rightarrow> BufferPool \<Rightarrow> size_t \<Rightarrow> (size_t \<times> 'r SqpollEngine \<times> 'q) option" where
  "drain_and_submit lib try_pop e queue pool max_batch =
     (case drain_loop lib try_pop pool max_batch 0 (ring e) queue of
        None \<Rightarrow> None
      | Some (submitted, r, queue') \<Rightarrow>
          Some (submitted, e\<lparr>ring := if submitted > 0 then snd (io_uring_submit lib r) else r\<rparr>, queue'))"

definition completion_of :: "'r liburing \<Rightarrow> cqe \<Rightarrow> IoCompletion" where
  "completion_of lib c = IoCompletion_default\<lparr>comp_token := io_uring_cqe_get_data lib c, comp_result := cqe_res c\<rparr>"

fun harvest_loop :: "'r liburing \<Rightarrow> ('q \<Rightarrow> IoCompletion \<Rightarrow> (bool \<times> 'q) option) \<Rightarrow> size_t \<Rightarrow> cqe list \<Rightarrow>
    size_t \<Rightarrow> size_t \<Rightarrow> 'q \<Rightarrow> (size_t \<times> size_t \<times> 'q) option" where
  "harvest_loop lib try_push max_batch [] walked delivered out = Some (walked, delivered, out)"
| "harvest_loop lib try_push max_batch (c # cs) walked delivered out =
     (if walked \<ge> max_batch then Some (walked, delivered, out)
      else case try_push out (completion_of lib c) of
        None \<Rightarrow> None
      | Some (ok, out') \<Rightarrow> harvest_loop lib try_push max_batch cs (walked + 1)
          (if ok then delivered + 1 else delivered) out')"

definition harvest_completions :: "'r liburing \<Rightarrow> ('q \<Rightarrow> IoCompletion \<Rightarrow> (bool \<times> 'q) option) \<Rightarrow>
    'r SqpollEngine \<Rightarrow> 'q \<Rightarrow> size_t \<Rightarrow> (size_t \<times> 'r SqpollEngine \<times> 'q) option" where
  "harvest_completions lib try_push e out max_batch =
     (case harvest_loop lib try_push max_batch (visible_cqes lib (ring e)) 0 0 out of
        None \<Rightarrow> None
      | Some (walked, delivered, out') \<Rightarrow>
          Some (delivered, e\<lparr>ring := if walked > 0
            then io_uring_cq_advance lib (ring e) (ucast walked) else ring e\<rparr>, out'))"

section \<open>What the engine relies on\<close>

text \<open>The entry a request stands for.\<close>

definition request_sqe :: "'r liburing \<Rightarrow> BufferPool \<Rightarrow> IoRequest \<Rightarrow> sqe" where
  "request_sqe lib pool req = \<lparr>
     sqe_opcode = (case op req of kRead \<Rightarrow> IORING_OP_READ_FIXED lib | kWrite \<Rightarrow> IORING_OP_WRITE_FIXED lib),
     sqe_flags = IOSQE_FIXED_FILE lib, sqe_fd = fixed_fd_index req, sqe_off = offset req,
     sqe_addr = pool_data pool (buffer_index req), sqe_len = req_length req,
     sqe_buf_index = ucast (buffer_index req), sqe_user_data = token req\<rparr>"

text \<open>The preparation functions fill every field from their arguments (the entry's buffer index
  has 16 bits), with cleared flags and user data; the data accessors set and read the user data.\<close>

definition prep_documented :: "'r liburing \<Rightarrow> bool" where
  "prep_documented lib \<longleftrightarrow>
     (\<forall>e fd buf n off bi. io_uring_prep_read_fixed lib e fd buf n off bi =
        \<lparr>sqe_opcode = IORING_OP_READ_FIXED lib, sqe_flags = 0, sqe_fd = fd, sqe_off = off,
         sqe_addr = buf, sqe_len = n, sqe_buf_index = ucast bi, sqe_user_data = 0\<rparr>) \<and>
     (\<forall>e fd buf n off bi. io_uring_prep_write_fixed lib e fd buf n off bi =
        \<lparr>sqe_opcode = IORING_OP_WRITE_FIXED lib, sqe_flags = 0, sqe_fd = fd, sqe_off = off,
         sqe_addr = buf, sqe_len = n, sqe_buf_index = ucast bi, sqe_user_data = 0\<rparr>) \<and>
     (\<forall>e d. io_uring_sqe_set_data lib e d = e\<lparr>sqe_user_data := d\<rparr>) \<and>
     (\<forall>c. io_uring_cqe_get_data lib c = cqe_user_data c)"

text \<open>A view of a ring: the entries acquired and not yet submitted, the entries handed to the
  kernel, and the number of vacant entries.\<close>

record 'r ring_view =
  view_pending :: "'r \<Rightarrow> sqe list"
  view_submitted :: "'r \<Rightarrow> sqe list"
  view_room :: "'r \<Rightarrow> nat"

text \<open>\<open>io_uring_get_sqe\<close> returns null exactly when no entry is vacant, and otherwise the next
  entry to submit (the poller may free more meanwhile). \<open>io_uring_submit\<close> loses no entry and keeps
  their order; when it reports success it has handed all of them over. What it has handed over when
  it reports an error is left open: the tail may have been published to the poller before the error.\<close>

definition sq_documented :: "'r liburing \<Rightarrow> 'r ring_view \<Rightarrow> bool" where
  "sq_documented lib v \<longleftrightarrow>
     (\<forall>r. view_room v r = 0 \<longrightarrow> io_uring_get_sqe lib r = (None, r)) \<and>
     (\<forall>r n. view_room v r = Suc n \<longrightarrow> (\<exists>pos r'. io_uring_get_sqe lib r = (Some pos, r') \<and>
        (\<forall>e. view_pending v (store_sqe lib r' pos e) = view_pending v r @ [e] \<and>
             view_submitted v (store_sqe lib r' pos e) = view_submitted v r \<and>
             n \<le> view_room v (store_sqe lib r' pos e)))) \<and>
     (\<forall>r. case io_uring_submit lib r of (ret, r') \<Rightarrow>
        view_submitted v r' @ view_pending v r' = view_submitted v r @ view_pending v r \<and>
        (0 \<le> ret \<longrightarrow> view_pending v r' = []))"

definition liburing_documented :: "'r liburing \<Rightarrow> 'r ring_view \<Rightarrow> bool" where
  "liburing_documented lib v \<longleftrightarrow> prep_documented lib \<and> sq_documented lib v"

lemma fill_sqe_request:
  "prep_documented lib \<Longrightarrow> fill_sqe lib pool req e = request_sqe lib pool req"
  by (cases "op req") (simp_all add: prep_documented_def fill_sqe_def request_sqe_def Let_def)

lemma completion_of_token:
  "prep_documented lib \<Longrightarrow> completion_of lib c = \<lparr>comp_token = cqe_user_data c, comp_result = cqe_res c\<rparr>"
  by (simp add: prep_documented_def completion_of_def IoCompletion_default_def)

lemma get_sqe_full: "sq_documented lib v \<Longrightarrow> view_room v r = 0 \<Longrightarrow> io_uring_get_sqe lib r = (None, r)"
  by (simp add: sq_documented_def)

lemma get_sqe_room:
  assumes "sq_documented lib v" and "view_room v r \<noteq> 0"
  obtains pos r' where "io_uring_get_sqe lib r = (Some pos, r')"
    and "\<And>e. view_pending v (store_sqe lib r' pos e) = view_pending v r @ [e]"
    and "\<And>e. view_submitted v (store_sqe lib r' pos e) = view_submitted v r"
    and "\<And>e. view_room v r \<le> Suc (view_room v (store_sqe lib r' pos e))"
proof -
  obtain n where "view_room v r = Suc n" using assms(2) by (cases "view_room v r") auto
  with assms(1) that show thesis unfolding sq_documented_def by fastforce
qed

text \<open>All entries the ring has seen, in order.\<close>

definition view_entries :: "'r ring_view \<Rightarrow> 'r \<Rightarrow> sqe list" where
  "view_entries v r = view_submitted v r @ view_pending v r"

lemma submit_entries:
  "sq_documented lib v \<Longrightarrow> view_entries v (snd (io_uring_submit lib r)) = view_entries v r"
  unfolding sq_documented_def view_entries_def
  by (drule conjunct2, drule conjunct2, drule spec [of _ r]) (auto split: prod.splits if_splits)

section \<open>Draining a request queue\<close>

text \<open>No step of the loop and no later one looks at what \<open>io_uring_submit\<close> returns.\<close>

lemma fill_sqe_code: "fill_sqe (lib\<lparr>io_uring_submit := f\<rparr>) pool req entry = fill_sqe lib pool req entry"
  by (simp add: fill_sqe_def Let_def)

lemma drain_loop_code:
  "drain_loop (lib\<lparr>io_uring_submit := f\<rparr>) try_pop pool max_batch submitted r q = drain_loop lib try_pop pool max_batch submitted r q"
proof (induction lib try_pop pool max_batch submitted r q rule: drain_loop.induct)
  case (1 lib try_pop pool max_batch submitted r q)
  then show ?case
    by (subst (1 2) drain_loop.simps) (auto simp: fill_sqe_code split: option.split prod.split)
qed

lemma drain_submit_code:
  "drain_and_submit (lib\<lparr>io_uring_submit := \<lambda>r. (code r, snd (io_uring_submit lib r))\<rparr>) try_pop e q pool max_batch =
   drain_and_submit lib try_pop e q pool max_batch"
  by (auto simp: drain_and_submit_def drain_loop_code split: option.split)

text \<open>What acquiring, filling and submitting entries leaves alone, draining leaves alone.\<close>

lemma drain_loop_observer:
  assumes "\<And>r pos r' e. io_uring_get_sqe lib r = (Some pos, r') \<Longrightarrow> f (store_sqe lib r' pos e) = f r"
    and "\<And>r r'. io_uring_get_sqe lib r = (None, r') \<Longrightarrow> f r' = f r"
  shows "drain_loop lib try_pop pool max_batch submitted r q = Some (n, r'', q') \<Longrightarrow> f r'' = f r"
  using assms
proof (induction lib try_pop pool max_batch submitted r q rule: drain_loop.induct)
  case (1 lib try_pop pool max_batch submitted r q)
  from "1.prems"(1) show ?case
    by (subst (asm) drain_loop.simps)
      (auto split: if_splits option.splits prod.splits dest!: "1.IH" simp: "1.prems"(2,3))
qed

lemma drain_observer:
  assumes "\<And>r pos r' e. io_uring_get_sqe lib r = (Some pos, r') \<Longrightarrow> f (store_sqe lib r' pos e) = f r"
    and "\<And>r r'. io_uring_get_sqe lib r = (None, r') \<Longrightarrow> f r' = f r"
    and "\<And>r. f (snd (io_uring_submit lib r)) = f r"
    and "drain_and_submit lib try_pop e q pool max_batch = Some (n, e', q')"
  shows "f (ring e') = f (ring e)"
  using assms(4) drain_loop_observer [of lib f, OF assms(1,2)]
  by (auto simp: drain_and_submit_def assms(3) split: option.splits)

text \<open>\<open>k\<close> requests become entries in order; when the submission queue fills up, the request
  popped last is neither in the queue nor in the ring.\<close>

definition drained :: "('q \<Rightarrow> bool) \<Rightarrow> ('q \<Rightarrow> IoRequest list) \<Rightarrow> 'r liburing \<Rightarrow> 'r ring_view \<Rightarrow> BufferPool \<Rightarrow> nat \<Rightarrow> 'r \<Rightarrow> 'q \<Rightarrow> nat \<Rightarrow> 'r \<Rightarrow> 'q \<Rightarrow> bool" where
  "drained qinv qitems lib v pool m r q k r' q' \<longleftrightarrow> qinv q' \<and> k \<le> m \<and> k \<le> length (qitems q) \<and>
     view_entries v r' = view_entries v r @ map (request_sqe lib pool) (take k (qitems q)) \<and>
     (qitems q' = drop k (qitems q) \<and> (k = m \<or> k = length (qitems q)) \<or>
      qitems q' = drop (Suc k) (qitems q) \<and> k < m \<and> k < length (qitems q) \<and> view_room v r \<le> k)"

locale request_queue = queue_source try_pop items inv can_issue
  for try_pop :: "'q \<Rightarrow> (IoRequest option \<times> 'q) option"
    and items :: "'q \<Rightarrow> IoRequest list"
    and inv :: "'q \<Rightarrow> bool"
    and can_issue :: "'q \<Rightarrow> nat \<Rightarrow> bool"
begin

lemma drain_loop_drained:
  assumes "liburing_documented lib v" and "inv q" and "unat submitted \<le> unat max_batch"
  shows "\<exists>k r' q'. drain_loop lib try_pop pool max_batch submitted r q
      = Some (submitted + of_nat k, r', q') \<and>
    drained inv items lib v pool (unat max_batch - unat submitted) r q k r' q' \<and>
    view_submitted v r' = view_submitted v r"
  using assms(2,3)
proof (induction "unat max_batch - unat submitted" arbitrary: submitted r q)
  case 0
  then have "\<not> submitted < max_batch" by (simp add: word_less_nat_alt)
  with 0 show ?case
    by (intro exI [of _ 0] exI [of _ r] exI [of _ q]) (simp add: drained_def drain_loop.simps)
next
  case (Suc m)
  have doc: "prep_documented lib" "sq_documented lib v" using assms(1) by (simp_all add: liburing_documented_def)
  have lt: "submitted < max_batch" using Suc.hyps(2) by (simp add: word_less_nat_alt)
  show ?case
  proof (cases "items q")
    case Nil
    then show ?thesis using lt Suc.prems pop_empty [OF Suc.prems(1) Nil]
      by (intro exI [of _ 0] exI [of _ r] exI [of _ q]) (simp add: drained_def drain_loop.simps)
  next
    case (Cons x xs)
    then obtain q' where q': "try_pop q = Some (Some x, q')" "inv q'" "items q' = xs"
      using pop_item [OF Suc.prems(1)] by blast
    show ?thesis
    proof (cases "view_room v r = 0")
      case True
      with lt q' Cons Suc.hyps(2) show ?thesis
        by (intro exI [of _ 0] exI [of _ r] exI [of _ q']) (simp add: drained_def drain_loop.simps get_sqe_full [OF doc(2)])
    next
      case False
      then obtain pos r1 where r1: "io_uring_get_sqe lib r = (Some pos, r1)"
        "\<And>e. view_pending v (store_sqe lib r1 pos e) = view_pending v r @ [e]"
        "\<And>e. view_submitted v (store_sqe lib r1 pos e) = view_submitted v r"
        "\<And>e. view_room v r \<le> Suc (view_room v (store_sqe lib r1 pos e))"
        using get_sqe_room [OF doc(2)] by metis
      let ?r = "store_sqe lib r1 pos (request_sqe lib pool x)"
      have inc: "unat (submitted + 1) = Suc (unat submitted)" using lt by (simp add: unat_inc_bounded)
      then obtain k r' q'' where
        k: "drain_loop lib try_pop pool max_batch (submitted + 1) ?r q' = Some (submitted + 1 + of_nat k, r', q'')"
        "drained inv items lib v pool (unat max_batch - unat (submitted + 1)) ?r q' k r' q''"
        "view_submitted v r' = view_submitted v r"
        using Suc.hyps(1) [of "submitted + 1" q' ?r] Suc.hyps(2) q'(2) r1(3) by fastforce
      have step: "drain_loop lib try_pop pool max_batch submitted r q
          = drain_loop lib try_pop pool max_batch (submitted + 1) ?r q'"
        using lt q'(1) r1(1) by (subst drain_loop.simps) (simp add: fill_sqe_request [OF doc(1)])
      have "drained inv items lib v pool (unat max_batch - unat submitted) r q (Suc k) r' q''"
        using k(2) inc Suc.hyps(2) Cons q'(3) r1(2,3) r1(4) [of "request_sqe lib pool x"]
        by (auto simp: drained_def view_entries_def)
      with step k(1,3) show ?thesis
        by (intro exI [of _ "Suc k"] exI [of _ r'] exI [of _ q'']) (simp add: add.assoc)
    qed
  qed
qed

lemma drain_drained:
  assumes "liburing_documented lib v" and "inv q"
  shows "\<exists>k e' q'. drain_and_submit lib try_pop e q pool max_batch = Some (of_nat k, e', q') \<and>
    drained inv items lib v pool (unat max_batch) (ring e) q k (ring e') q'"
proof -
  from drain_loop_drained [OF assms, of 0 max_batch pool "ring e"] obtain k r' q' where
    k: "drain_loop lib try_pop pool max_batch 0 (ring e) q = Some (of_nat k, r', q')"
    "drained inv items lib v pool (unat max_batch) (ring e) q k r' q'" by auto
  have "view_entries v (snd (io_uring_submit lib r')) = view_entries v r'"
    using assms(1) by (simp add: submit_entries liburing_documented_def)
  with k show ?thesis
    by (intro exI [of _ k] exI [of _ "e\<lparr>ring := if of_nat k > (0::size_t) then snd (io_uring_submit lib r') else r'\<rparr>"]
        exI [of _ q']) (simp add: drain_and_submit_def drained_def)
qed

end

interpretation spsc_req: request_queue "\<lambda>q. Some (spsc_try_pop cap q)" "spsc_items cap" "spsc_inv cap"
  "\<lambda>_ _. True" for cap
  by unfold_locales

interpretation mpmc_req: request_queue "mpmc_try_pop cap ws" "mpmc_items cap" "mpmc_inv cap"
  "mpmc_can_issue cap" for cap ws
  by unfold_locales

section \<open>Harvesting into a completion queue\<close>

lemma walk_inc:
  fixes max_batch walked :: size_t
  assumes "\<not> max_batch \<le> walked"
  shows "unat (walked + 1) = Suc (unat walked)" and "unat walked < unat max_batch"
  using assms unat_inc_bounded [of walked max_batch] by (simp_all add: not_le word_less_nat_alt)

locale completion_queue = queue_sink try_push items inv can_issue limit
  for try_push :: "'q \<Rightarrow> IoCompletion \<Rightarrow> (bool \<times> 'q) option"
    and items :: "'q \<Rightarrow> IoCompletion list"
    and inv :: "'q \<Rightarrow> bool"
    and can_issue :: "'q \<Rightarrow> nat \<Rightarrow> bool"
    and limit :: nat
begin

lemma harvest_loop_full:
  assumes "inv out" and "length (items out) = limit" and "unat walked \<le> unat max_batch"
  shows "harvest_loop lib try_push max_batch cs walked delivered out =
    Some (walked + of_nat (min (unat max_batch - unat walked) (length cs)), delivered, out)"
  using assms(3)
proof (induction cs arbitrary: walked)
  case (Cons c cs)
  show ?case
  proof (cases "max_batch \<le> walked")
    case True
    then show ?thesis by (simp add: word_le_nat_alt)
  next
    case False
    note walk_inc [OF this]
    with Cons.IH [of "walked + 1"] False show ?thesis
      by (simp add: push_full [OF assms(1,2)] Suc_diff_Suc [symmetric])
  qed
qed simp

lemma harvest_loop_spec:
  fixes max_batch walked :: size_t and cs :: "cqe list"
  defines "k \<equiv> min (unat max_batch - unat walked) (length cs)"
  assumes "inv out" and "unat walked \<le> unat max_batch" and "can_issue out k"
  shows "\<exists>out'. harvest_loop lib try_push max_batch cs walked delivered out =
      Some (walked + of_nat k, delivered + of_nat (min k (limit - length (items out))), out') \<and>
    inv out' \<and>
    items out' = items out @ take (min k (limit - length (items out))) (map (completion_of lib) cs)"
  using assms(2-) unfolding k_def
proof (induction cs arbitrary: walked delivered out)
  case (Cons c cs)
  show ?case
  proof (cases "max_batch \<le> walked \<or> length (items out) = limit")
    case True
    then show ?thesis
    proof
      assume "max_batch \<le> walked"
      with Cons.prems show ?thesis by (simp add: word_le_nat_alt)
    next
      assume "length (items out) = limit"
      with Cons.prems harvest_loop_full [OF Cons.prems(1) this Cons.prems(2), of lib "c # cs" delivered]
      show ?thesis by (simp del: harvest_loop.simps)
    qed
  next
    case False
    then have room: "length (items out) < limit" using items_limit [OF Cons.prems(1)] by simp
    have inc: "unat (walked + 1) = Suc (unat walked)" "unat walked < unat max_batch"
      using False walk_inc by blast+
    let ?k = "min (unat max_batch - unat (walked + 1)) (length cs)"
    have k: "min (unat max_batch - unat walked) (length (c # cs)) = Suc ?k" using inc by simp
    obtain out1 where o1: "try_push out (completion_of lib c) = Some (True, out1)" "inv out1"
      "items out1 = items out @ [completion_of lib c]" "can_issue out1 ?k"
      using push_room [OF Cons.prems(1) room] Cons.prems(3) k by metis
    have l: "limit - length (items out) = Suc (limit - length (items out1))" using room o1(3) by simp
    have "unat (walked + 1) \<le> unat max_batch" using inc by simp
    from Cons.IH [OF o1(2) this o1(4), of "delivered + 1"] False o1 k l show ?thesis
      by (auto simp: add.assoc)
  qed
qed simp

end

interpretation spsc_comp: completion_queue "\<lambda>q x. Some (spsc_try_push cap q x)" "spsc_items cap"
  "spsc_inv cap" "\<lambda>_ _. True" "unat cap" for cap
  by unfold_locales

interpretation mpmc_comp: completion_queue "mpmc_try_push cap ws" "mpmc_items cap" "mpmc_inv cap"
  "mpmc_can_issue cap" "unat cap" for cap ws
  by unfold_locales

text \<open>Advancing by \<open>n\<close> consumes the first \<open>n\<close> visible entries; the kernel may have added more
  behind them. The completion ring is addressed with 32-bit positions.\<close>

definition cq_documented :: "'r liburing \<Rightarrow> bool" where
  "cq_documented lib \<longleftrightarrow> (\<forall>r. length (visible_cqes lib r) < 2 ^ 32) \<and>
     (\<forall>r n. unat n \<le> length (visible_cqes lib r) \<longrightarrow>
        (\<exists>more. visible_cqes lib (io_uring_cq_advance lib r n) = drop (unat n) (visible_cqes lib r) @ more))"

text \<open>\<open>k\<close> entries are walked and consumed, the first \<open>d\<close> of them are delivered in order.\<close>

definition harvested :: "('q \<Rightarrow> IoCompletion list) \<Rightarrow> 'r liburing \<Rightarrow> 'r \<Rightarrow> 'q \<Rightarrow> nat \<Rightarrow> nat \<Rightarrow> 'r \<Rightarrow> 'q \<Rightarrow> bool" where
  "harvested qitems lib r out k d r' out' \<longleftrightarrow>
     qitems out' = qitems out @ take d (map (completion_of lib) (visible_cqes lib r)) \<and>
     (\<exists>more. visible_cqes lib r' = drop k (visible_cqes lib r) @ more)"

definition walk_count :: "'r liburing \<Rightarrow> size_t \<Rightarrow> 'r \<Rightarrow> nat" where
  "walk_count lib max_batch r = min (unat max_batch) (length (visible_cqes lib r))"

lemma of_nat_pos_64: "k < 2 ^ 32 \<Longrightarrow> (0 < (of_nat k :: size_t)) = (0 < k)"
  by (simp add: word_less_nat_alt unat_of_nat)

lemma ucast_of_nat_32: "k < 2 ^ 32 \<Longrightarrow> unat (ucast (of_nat k :: size_t) :: u32) = k"
  by (simp add: unat_of_nat unsigned_ucast_eq take_bit_nat_eq_self)

lemma cq_advance_visible:
  assumes "cq_documented lib" and "k \<le> length (visible_cqes lib r)" and "k < 2 ^ 32"
  shows "\<exists>more. visible_cqes lib (io_uring_cq_advance lib r (ucast (of_nat k :: size_t)))
    = drop k (visible_cqes lib r) @ more"
  using assms ucast_of_nat_32 [OF assms(3)] unfolding cq_documented_def by metis

context completion_queue
begin

lemma harvest_eq:
  assumes inv: "inv out" and issue: "can_issue out (walk_count lib max_batch (ring e))"
  shows "\<exists>out'. harvest_completions lib try_push e out max_batch =
      Some (of_nat (min (walk_count lib max_batch (ring e)) (limit - length (items out))),
        e\<lparr>ring := if (of_nat (walk_count lib max_batch (ring e)) :: size_t) > 0
          then io_uring_cq_advance lib (ring e) (ucast (of_nat (walk_count lib max_batch (ring e)) :: size_t))
          else ring e\<rparr>, out') \<and> inv out' \<and>
    items out' = items out @ take (min (walk_count lib max_batch (ring e)) (limit - length (items out)))
      (map (completion_of lib) (visible_cqes lib (ring e)))"
  using harvest_loop_spec [of out 0 max_batch "visible_cqes lib (ring e)" lib 0] inv issue
  by (auto simp: walk_count_def harvest_completions_def)

lemma harvest_harvested:
  assumes cq: "cq_documented lib" and "inv out" and "can_issue out (walk_count lib max_batch (ring e))"
  shows "\<exists>e' out'. harvest_completions lib try_push e out max_batch =
      Some (of_nat (min (walk_count lib max_batch (ring e)) (limit - length (items out))), e', out') \<and> inv out' \<and>
    harvested items lib (ring e) out (walk_count lib max_batch (ring e))
      (min (walk_count lib max_batch (ring e)) (limit - length (items out))) (ring e') out'"
proof -
  let ?k = "walk_count lib max_batch (ring e)"
  have kb: "?k < 2 ^ 32" "?k \<le> length (visible_cqes lib (ring e))"
    using cq by (auto simp: walk_count_def cq_documented_def intro: le_less_trans [OF min.cobounded2])
  let ?e = "e\<lparr>ring := if (of_nat ?k :: size_t) > 0 then io_uring_cq_advance lib (ring e) (ucast (of_nat ?k :: size_t)) else ring e\<rparr>"
  have "\<exists>more. visible_cqes lib (ring ?e) = drop ?k (visible_cqes lib (ring e)) @ more"
    using cq_advance_visible [OF cq kb(2,1)] of_nat_pos_64 [OF kb(1)] by auto
  moreover obtain out' where "harvest_completions lib try_push e out max_batch =
      Some (of_nat (min ?k (limit - length (items out))), ?e, out')" "inv out'"
    "items out' = items out @ take (min ?k (limit - length (items out))) (map (completion_of lib) (visible_cqes lib (ring e)))"
    using harvest_eq [OF assms(2,3)] by blast
  ultimately show ?thesis by (intro exI [of _ ?e] exI [of _ out']) (simp add: harvested_def)
qed

end

section \<open>A reference ring\<close>

text \<open>A ring with \<open>n\<close> entries that keeps the documented promises: the entries ever acquired, how
  many of them were submitted, completed and consumed, and the result 512 for each.\<close>

record ref_ring =
  ref_entries :: "sqe list"
  ref_sub :: nat
  ref_done :: nat
  ref_seen :: nat

definition ref_new :: ref_ring where
  "ref_new = \<lparr>ref_entries = [], ref_sub = 0, ref_done = 0, ref_seen = 0\<rparr>"

definition blank_sqe :: sqe where
  "blank_sqe = \<lparr>sqe_opcode = 0, sqe_flags = 0, sqe_fd = 0, sqe_off = 0, sqe_addr = 0, sqe_len = 0,
     sqe_buf_index = 0, sqe_user_data = 0\<rparr>"

definition ref_prep :: "u8 \<Rightarrow> sqe \<Rightarrow> i32 \<Rightarrow> addr \<Rightarrow> u32 \<Rightarrow> u64 \<Rightarrow> i32 \<Rightarrow> sqe" where
  "ref_prep opc e fd buf n off bi = \<lparr>sqe_opcode = opc, sqe_flags = 0, sqe_fd = fd, sqe_off = off,
     sqe_addr = buf, sqe_len = n, sqe_buf_index = ucast bi, sqe_user_data = 0\<rparr>"

definition ref_room :: "nat \<Rightarrow> ref_ring \<Rightarrow> nat" where
  "ref_room n r = n - (length (ref_entries r) - ref_seen r)"

definition ref_get_sqe :: "nat \<Rightarrow> ref_ring \<Rightarrow> nat option \<times> ref_ring" where
  "ref_get_sqe n r = (if ref_room n r = 0 then (None, r)
     else (Some (length (ref_entries r)), r\<lparr>ref_entries := ref_entries r @ [blank_sqe],
       ref_sub := min (ref_sub r) (length (ref_entries r)), ref_seen := min (ref_seen r) (length (ref_entries r))\<rparr>))"

definition ref_visible :: "ref_ring \<Rightarrow> cqe list" where
  "ref_visible r = take 4096 (drop (ref_seen r) (map (\<lambda>e. \<lparr>cqe_user_data = sqe_user_data e, cqe_res = 512\<rparr>)
     (take (ref_done r) (ref_entries r))))"

definition ref_lib :: "nat \<Rightarrow> ref_ring liburing" where
  "ref_lib n = \<lparr>IORING_SETUP_SQPOLL = 2, IORING_SETUP_ATTACH_WQ = 32, IOSQE_FIXED_FILE = 1,
     IORING_OP_READ_FIXED = 4, IORING_OP_WRITE_FIXED = 5, HAVE_REGISTER_RING_FD = False,
     ring_fd = (\<lambda>_. 3),
     io_uring_queue_init_params = (\<lambda>entries params. (if entries = 0 then - 22 else 0, ref_new)),
     io_uring_register_ring_fd = (\<lambda>r. (0, r)), io_uring_queue_exit = (\<lambda>r. r),
     io_uring_register_files = (\<lambda>r fds k. (0, r)), io_uring_register_buffers = (\<lambda>r vs k. (0, r)),
     io_uring_get_sqe = ref_get_sqe n,
     load_sqe = (\<lambda>r pos. ref_entries r ! pos),
     store_sqe = (\<lambda>r pos e. r\<lparr>ref_entries := (ref_entries r)[pos := e]\<rparr>),
     io_uring_prep_read_fixed = ref_prep 4, io_uring_prep_write_fixed = ref_prep 5,
     io_uring_sqe_set_data = (\<lambda>e d. e\<lparr>sqe_user_data := d\<rparr>),
     io_uring_submit = (\<lambda>r. (int (length (ref_entries r) - ref_sub r), r\<lparr>ref_sub := length (ref_entries r)\<rparr>)),
     visible_cqes = ref_visible, io_uring_cqe_get_data = cqe_user_data,
     io_uring_cq_advance = (\<lambda>r k. r\<lparr>ref_seen := ref_seen r + unat k\<rparr>)\<rparr>"

definition ref_view :: "nat \<Rightarrow> ref_ring ring_view" where
  "ref_view n = \<lparr>view_pending = (\<lambda>r. drop (ref_sub r) (ref_entries r)),
     view_submitted = (\<lambda>r. take (ref_sub r) (ref_entries r)), view_room = ref_room n\<rparr>"

lemma ref_lib_prep: "prep_documented (ref_lib n)"
  by (simp add: prep_documented_def ref_lib_def ref_prep_def)

lemma ref_lib_sq: "sq_documented (ref_lib n) (ref_view n)"
  by (auto simp: sq_documented_def ref_lib_def ref_view_def ref_get_sqe_def list_update_append ref_room_def min_def)

lemma ref_lib_documented: "liburing_documented (ref_lib n) (ref_view n)"
  by (simp add: liburing_documented_def ref_lib_prep ref_lib_sq)

lemma take_drop_more: "\<exists>more. take m (drop k xs) = drop k (take m xs) @ more"
proof -
  have "take (m - k) (take m (drop k xs)) = drop k (take m xs)" by (simp add: drop_take min_absorb1)
  then show ?thesis using append_take_drop_id [of "m - k" "take m (drop k xs)"] by metis
qed

lemma ref_lib_cq: "cq_documented (ref_lib n)"
proof -
  have "\<exists>more. ref_visible (r\<lparr>ref_seen := ref_seen r + k\<rparr>) = drop k (ref_visible r) @ more" for r k
    using take_drop_more [of 4096 k] by (simp add: ref_visible_def add.commute flip: drop_drop)
  then show ?thesis by (simp add: cq_documented_def ref_lib_def ref_visible_def min_less_iff_disj)
qed

lemma demo_queue:
  obtains q where "spsc_inv 4 q" and "spsc_items 4 q = [IoRequest_default]"
proof -
  have p: "pow2_cap 4" by (simp add: pow2_cap_def capacity_assert_def)
  show thesis
    using spsc_push_room [OF SpscRing_inv [OF p], of IoRequest_default IoRequest_default] that
    by (auto simp: SpscRing_items)
qed

definition ref_start :: "ref_ring SqpollEngine" where
  "ref_start = \<lparr>ring = ref_new\<rparr>"

section \<open>Properties\<close>

text \<open>(C5) Draining an SPSC request queue: the call returns; its count \<open>k\<close> is at most
  \<open>max_batch\<close> and the queue length; the entries added to the ring are the translations of the
  first \<open>k\<close> requests, in order, after all earlier ones. If the submission queue has room for the
  batch, exactly \<open>min max_batch length\<close> requests leave the queue and all are translated.\<close>

theorem drain_spsc:
  assumes "liburing_documented lib v" and "spsc_inv cap q"
  shows "\<exists>k e' q'. drain_and_submit lib (\<lambda>q. Some (spsc_try_pop cap q)) e q pool max_batch
      = Some (of_nat k, e', q') \<and> spsc_inv cap q' \<and>
    k \<le> unat max_batch \<and> k \<le> length (spsc_items cap q) \<and>
    view_entries v (ring e') = view_entries v (ring e) @ map (request_sqe lib pool) (take k (spsc_items cap q)) \<and>
    (min (unat max_batch) (length (spsc_items cap q)) \<le> view_room v (ring e) \<longrightarrow>
      k = min (unat max_batch) (length (spsc_items cap q)) \<and> spsc_items cap q' = drop k (spsc_items cap q))"
  using spsc_req.drain_drained [OF assms, of e pool max_batch] unfolding drained_def
  by (elim exE) (rule exI, rule exI, rule exI, auto)

theorem drain_spsc_witness:
  "\<exists>q e' q'. spsc_items 4 q = [IoRequest_default] \<and>
     drain_and_submit (ref_lib 8) (\<lambda>q. Some (spsc_try_pop 4 q)) ref_start q (built_pool 65536 3 4096) 32
       = Some (1, e', q') \<and> spsc_items 4 q' = []"
proof -
  obtain q where q: "spsc_inv 4 q" "spsc_items 4 q = [IoRequest_default]" by (rule demo_queue)
  have "view_room (ref_view 8) (ring ref_start) = 8" by (simp add: ref_view_def ref_start_def ref_new_def ref_room_def)
  with drain_spsc [OF ref_lib_documented [of 8] q(1), of ref_start "built_pool 65536 3 4096" 32] q(2)
  show ?thesis by (intro exI [of _ q]) auto
qed

text \<open>The same for an MPMC request queue, whatever exchanges fail spuriously.\<close>

lemma drain_mpmc:
  assumes "liburing_documented lib v" and "mpmc_inv cap q"
  shows "\<exists>k e' q'. drain_and_submit lib (mpmc_try_pop cap ws) e q pool max_batch
      = Some (of_nat k, e', q') \<and> mpmc_inv cap q' \<and>
    k \<le> unat max_batch \<and> k \<le> length (mpmc_items cap q) \<and>
    view_entries v (ring e') = view_entries v (ring e) @ map (request_sqe lib pool) (take k (mpmc_items cap q)) \<and>
    (min (unat max_batch) (length (mpmc_items cap q)) \<le> view_room v (ring e) \<longrightarrow>
      k = min (unat max_batch) (length (mpmc_items cap q)) \<and> mpmc_items cap q' = drop k (mpmc_items cap q))"
  using mpmc_req.drain_drained [OF assms, of ws e pool max_batch] unfolding drained_def
  by (elim exE) (rule exI, rule exI, rule exI, auto)

text \<open>(C25) A full submission queue loses a request: with a nonempty request queue and no vacant
  entry, one call returns 0 and adds no entry, but the oldest request has left the queue.\<close>

theorem drain_full_loses_request:
  assumes "liburing_documented lib v" and "spsc_inv cap q" and "spsc_items cap q = x # xs"
    and "view_room v (ring e) = 0" and "0 < max_batch"
  shows "\<exists>q'. drain_and_submit lib (\<lambda>q. Some (spsc_try_pop cap q)) e q pool max_batch = Some (0, e, q') \<and>
    spsc_items cap q' = xs"
proof -
  obtain q' where "spsc_try_pop cap q = (Some x, q')" "spsc_items cap q' = xs"
    using spsc_pop_item [OF assms(2,3)] by blast
  moreover have "io_uring_get_sqe lib (ring e) = (None, ring e)"
    using assms(1,4) by (intro get_sqe_full) (auto simp: liburing_documented_def)
  ultimately show ?thesis using assms(5) by (simp add: drain_and_submit_def drain_loop.simps)
qed

theorem drain_full_loses_request_witness:
  "\<exists>q q'. spsc_items 4 q = [IoRequest_default] \<and>
     drain_and_submit (ref_lib 0) (\<lambda>q. Some (spsc_try_pop 4 q)) ref_start q (built_pool 65536 3 4096) 32
       = Some (0, ref_start, q') \<and> spsc_items 4 q' = []"
proof -
  obtain q where q: "spsc_inv 4 q" "spsc_items 4 q = [IoRequest_default]" by (rule demo_queue)
  with drain_full_loses_request [OF ref_lib_documented [of 0] q, of ref_start 32 "built_pool 65536 3 4096"]
  show ?thesis by (auto simp: ref_view_def ref_room_def)
qed

text \<open>(C26) The return value of \<open>io_uring_submit\<close> is not looked at. With a nonempty request queue and room
  for the batch, \<open>drain_and_submit\<close> returns the size of the batch, which is not 0, and one and the same
  state, whatever code \<open>io_uring_submit\<close> returns: a caller cannot tell a failed submit from a
  successful one.\<close>

theorem drain_ignores_submit_error:
  assumes "liburing_documented lib v" and "spsc_inv cap q" and "spsc_items cap q \<noteq> []" and "0 < max_batch"
    and "min (unat max_batch) (length (spsc_items cap q)) \<le> view_room v (ring e)"
  shows "\<exists>n e' q'. 0 < n \<and> unat n = min (unat max_batch) (length (spsc_items cap q)) \<and>
    (\<forall>code. drain_and_submit (lib\<lparr>io_uring_submit := \<lambda>r. (code r, snd (io_uring_submit lib r))\<rparr>)
      (\<lambda>q. Some (spsc_try_pop cap q)) e q pool max_batch = Some (n, e', q'))"
proof -
  let ?k = "min (unat max_batch) (length (spsc_items cap q))"
  obtain k e' q' where
    k: "drain_and_submit lib (\<lambda>q. Some (spsc_try_pop cap q)) e q pool max_batch = Some (of_nat k, e', q')"
    "drained (spsc_inv cap) (spsc_items cap) lib v pool (unat max_batch) (ring e) q k (ring e') q'"
    using spsc_req.drain_drained [OF assms(1,2), of e pool max_batch] by blast
  have "k = ?k" using k(2) assms(5) by (auto simp: drained_def)
  moreover have "?k < 2 ^ 64" using unat_lt_64 [of max_batch] by simp
  then have "unat (of_nat ?k :: size_t) = ?k" by (simp add: unat_of_nat take_bit_nat_eq_self)
  moreover have "0 < ?k" using assms(3,4) by (simp add: unat_gt_0 word_gt_0)
  ultimately show ?thesis using k(1) unfolding drain_submit_code
    by (intro exI [of _ "of_nat k"] exI [of _ e'] exI [of _ q']) (simp add: word_less_nat_alt)
qed

theorem drain_ignores_submit_error_witness:
  "\<exists>q n e' q'. spsc_items 4 q = [IoRequest_default] \<and> unat n = 1 \<and>
     drain_and_submit ((ref_lib 8)\<lparr>io_uring_submit := \<lambda>r. (- 16, snd (io_uring_submit (ref_lib 8) r))\<rparr>)
       (\<lambda>q. Some (spsc_try_pop 4 q)) ref_start q (built_pool 65536 3 4096) 32 = Some (n, e', q') \<and>
     drain_and_submit ((ref_lib 8)\<lparr>io_uring_submit := \<lambda>r. (1, snd (io_uring_submit (ref_lib 8) r))\<rparr>)
       (\<lambda>q. Some (spsc_try_pop 4 q)) ref_start q (built_pool 65536 3 4096) 32 = Some (n, e', q')"
proof -
  obtain q where q: "spsc_inv 4 q" "spsc_items 4 q = [IoRequest_default]" by (rule demo_queue)
  have "view_room (ref_view 8) (ring ref_start) = 8"
    by (simp add: ref_view_def ref_start_def ref_new_def ref_room_def)
  with drain_ignores_submit_error [OF ref_lib_documented [of 8] q(1), of 32 ref_start "built_pool 65536 3 4096"] q(2)
  show ?thesis by (intro exI [of _ q]) auto
qed

text \<open>(C6) Harvesting into an SPSC queue: the call returns; it walks \<open>min max_batch visible\<close>
  entries and consumes exactly those, delivers the first of them in order as far as the queue has
  room, and returns the number delivered. With room for \<open>max_batch\<close> nothing is dropped.\<close>

theorem harvest_spsc:
  assumes "cq_documented lib" and "spsc_inv cap out"
  shows "\<exists>k d e' out' more.
    harvest_completions lib (\<lambda>q x. Some (spsc_try_push cap q x)) e out max_batch = Some (of_nat d, e', out') \<and>
    spsc_inv cap out' \<and> k = min (unat max_batch) (length (visible_cqes lib (ring e))) \<and>
    visible_cqes lib (ring e') = drop k (visible_cqes lib (ring e)) @ more \<and>
    d = min k (unat cap - length (spsc_items cap out)) \<and>
    spsc_items cap out' = spsc_items cap out @ map (completion_of lib) (take d (visible_cqes lib (ring e))) \<and>
    (unat max_batch \<le> unat cap - length (spsc_items cap out) \<longrightarrow> d = k)"
  using spsc_comp.harvest_harvested [OF assms, of e max_batch] unfolding harvested_def walk_count_def
  by (fastforce simp: take_map)

definition ref_done_one :: "ref_ring SqpollEngine" where
  "ref_done_one = \<lparr>ring = \<lparr>ref_entries = [request_sqe (ref_lib 8) (built_pool 65536 3 4096) IoRequest_default],
     ref_sub = 1, ref_done = 1, ref_seen = 0\<rparr>\<rparr>"

theorem harvest_spsc_witness:
  "\<exists>e' out'. harvest_completions (ref_lib 8) (\<lambda>q x. Some (spsc_try_push 4 q x)) ref_done_one
     (SpscRing 4 IoCompletion_default) 32 = Some (1, e', out') \<and>
     spsc_items 4 out' = map (completion_of (ref_lib 8)) (visible_cqes (ref_lib 8) (ring ref_done_one))"
proof -
  have "spsc_inv 4 (SpscRing 4 IoCompletion_default)"
    by (rule SpscRing_inv) (simp add: pow2_cap_def capacity_assert_def)
  moreover have "length (visible_cqes (ref_lib 8) (ring ref_done_one)) = 1"
    by (simp add: ref_lib_def ref_visible_def ref_done_one_def)
  ultimately show ?thesis using harvest_spsc [OF ref_lib_cq [of 8], of 4 "SpscRing 4 IoCompletion_default" ref_done_one 32]
    by (auto simp: SpscRing_items)
qed

text \<open>The same for an MPMC completion queue inside its counter range.\<close>

lemma harvest_mpmc:
  assumes "cq_documented lib" and "mpmc_inv cap out"
    and "mpmc_can_issue cap out (min (unat max_batch) (length (visible_cqes lib (ring e))))"
  shows "\<exists>k d e' out' more.
    harvest_completions lib (mpmc_try_push cap ws) e out max_batch = Some (of_nat d, e', out') \<and>
    mpmc_inv cap out' \<and> k = min (unat max_batch) (length (visible_cqes lib (ring e))) \<and>
    visible_cqes lib (ring e') = drop k (visible_cqes lib (ring e)) @ more \<and>
    d = min k (unat cap - length (mpmc_items cap out)) \<and>
    mpmc_items cap out' = mpmc_items cap out @ map (completion_of lib) (take d (visible_cqes lib (ring e))) \<and>
    (unat max_batch \<le> unat cap - length (mpmc_items cap out) \<longrightarrow> d = k)"
  using mpmc_comp.harvest_harvested [OF assms(1,2), of max_batch e ws] assms(3)
  unfolding harvested_def walk_count_def by (fastforce simp: take_map)

text \<open>(C3) End to end: all requests of a queue are drained in one call; if the kernel completes
  every entry once, in any order, echoing its user data, then one harvest into an empty queue of
  sufficient capacity delivers exactly one completion per request, with the request's token.\<close>

theorem engine_token_roundtrip:
  assumes doc: "liburing_documented lib v" "cq_documented lib"
    and q: "spsc_inv cap q" "length (spsc_items cap q) \<le> unat max_batch"
      "length (spsc_items cap q) \<le> view_room v (ring e)" "view_entries v (ring e) = []"
    and drain: "drain_and_submit lib (\<lambda>q. Some (spsc_try_pop cap q)) e q pool max_batch = Some (n, e1, q1)"
    and kernel: "mset ss = mset (view_entries v (ring e1))"
      "visible_cqes lib (ring e2) = map (\<lambda>s. \<lparr>cqe_user_data = sqe_user_data s, cqe_res = result s\<rparr>) ss"
    and out: "spsc_inv cap' out" "spsc_items cap' out = []"
      "length (spsc_items cap q) \<le> unat cap'" "length (spsc_items cap q) \<le> unat max_batch'"
  shows "n = of_nat (length (spsc_items cap q)) \<and> spsc_items cap q1 = [] \<and>
    (\<exists>e3 out'. harvest_completions lib (\<lambda>q x. Some (spsc_try_push cap' q x)) e2 out max_batch' = Some (n, e3, out') \<and>
      mset (map comp_token (spsc_items cap' out')) = mset (map token (spsc_items cap q)))"
proof -
  let ?reqs = "spsc_items cap q"
  obtain k where k: "n = of_nat k" "drained (spsc_inv cap) (spsc_items cap) lib v pool (unat max_batch) (ring e) q k (ring e1) q1"
    using spsc_req.drain_drained [OF doc(1) q(1), of e pool max_batch] drain by auto
  then have kl: "k = length ?reqs" "spsc_items cap q1 = []"
    and en: "view_entries v (ring e1) = map (request_sqe lib pool) ?reqs"
    using q(2,3,4) by (auto simp: drained_def)
  have len: "length ss = length ?reqs" using kernel(1) en by (metis length_map size_mset)
  obtain e3 out' where h: "harvest_completions lib (\<lambda>q x. Some (spsc_try_push cap' q x)) e2 out max_batch' = Some (n, e3, out')"
    "harvested (spsc_items cap') lib (ring e2) out (length ?reqs) (length ?reqs) (ring e3) out'"
    using spsc_comp.harvest_harvested [OF doc(2) out(1), of e2 max_batch'] kernel(2) len out(2,3,4) k(1) kl(1)
    by (auto simp: walk_count_def)
  have "map comp_token (spsc_items cap' out') = map sqe_user_data ss"
    using h(2) out(2) len kernel(2) doc(1)
    by (simp add: harvested_def liburing_documented_def completion_of_token)
  then have "mset (map comp_token (spsc_items cap' out')) = mset (map token ?reqs)"
    using kernel(1) en by (simp add: request_sqe_def multiset.map_comp comp_def)
  with h(1) k(1) kl show ?thesis by blast
qed

theorem engine_token_roundtrip_witness:
  "\<exists>q n e1 q1 e3 out'.
     drain_and_submit (ref_lib 8) (\<lambda>q. Some (spsc_try_pop 4 q)) ref_start q (built_pool 65536 3 4096) 32
       = Some (n, e1, q1) \<and>
     harvest_completions (ref_lib 8) (\<lambda>q x. Some (spsc_try_push 4 q x))
       ref_done_one
       (SpscRing 4 IoCompletion_default) 32 = Some (n, e3, out') \<and>
     mset (map comp_token (spsc_items 4 out')) = mset (map token (spsc_items 4 q))"
proof -
  let ?pool = "built_pool 65536 3 4096"
  let ?e2 = "ref_done_one"
  obtain q where q: "spsc_inv 4 q" "spsc_items 4 q = [IoRequest_default]" by (rule demo_queue)
  have view: "view_room (ref_view 8) (ring ref_start) = 8" "view_entries (ref_view 8) (ring ref_start) = []"
    by (simp_all add: ref_view_def ref_start_def ref_new_def ref_room_def view_entries_def)
  obtain e1 q1 where d: "drain_and_submit (ref_lib 8) (\<lambda>q. Some (spsc_try_pop 4 q)) ref_start q ?pool 32
      = Some (1, e1, q1)" "view_entries (ref_view 8) (ring e1) = [request_sqe (ref_lib 8) ?pool IoRequest_default]"
    using spsc_req.drain_drained [OF ref_lib_documented [of 8] q(1), of ref_start ?pool 32] q(2) view
    by (auto simp: drained_def)
  have out: "spsc_inv 4 (SpscRing 4 IoCompletion_default)"
    by (rule SpscRing_inv) (simp add: pow2_cap_def capacity_assert_def)
  have vis: "visible_cqes (ref_lib 8) (ring ?e2) = map (\<lambda>s. \<lparr>cqe_user_data = sqe_user_data s, cqe_res = 512\<rparr>)
      [request_sqe (ref_lib 8) ?pool IoRequest_default]"
    by (simp add: ref_lib_def ref_visible_def ref_done_one_def)
  have ss: "mset [request_sqe (ref_lib 8) ?pool IoRequest_default] = mset (view_entries (ref_view 8) (ring e1))"
    using d(2) by simp
  have "\<exists>e3 out'. harvest_completions (ref_lib 8) (\<lambda>q x. Some (spsc_try_push 4 q x)) ?e2
      (SpscRing 4 IoCompletion_default) 32 = Some (1, e3, out') \<and>
      mset (map comp_token (spsc_items 4 out')) = mset (map token (spsc_items 4 q))"
    using engine_token_roundtrip [OF ref_lib_documented [of 8] ref_lib_cq q(1) _ _ view(2) d(1) ss vis out, of 32]
      q(2) view(1) by (simp add: SpscRing_items)
  with d(1) show ?thesis by blast
qed

end
