(* ===== verification/Kernel_Contract.thy ===== *)
theory Kernel_Contract
  imports Sqpoll_Engine
begin

text \<open>
  The kernel behind the engine, as a client of the whole library relies on it: which tokens are in the
  ring, which completions were consumed, and what the two engine calls and the kernel change of them.
  The lemmas on draining and harvesting are proved in the contracts of the engine's queues, and hold
  for both rings. The reference ring keeps the contract.
\<close>

section \<open>What a client relies on\<close>

definition entry_tokens :: "'r ring_view \<Rightarrow> 'r \<Rightarrow> u64 multiset" where
  "entry_tokens v r = mset (map sqe_user_data (view_entries v r))"

text \<open>\<open>consumed\<close> are the tokens of the completions already advanced over. Only advancing changes
  it; the kernel neither adds nor removes entries; every visible completion belongs to an entry
  not consumed before; and the submission queue has \<open>n\<close> entries, of which only those of
  requests in flight can be occupied.\<close>

definition kernel_documented :: "'r liburing \<Rightarrow> 'r ring_view \<Rightarrow> ('r \<Rightarrow> u64 multiset) \<Rightarrow> (nat \<Rightarrow> 'r \<Rightarrow> 'r) \<Rightarrow> nat \<Rightarrow> bool" where
  "kernel_documented lib v consumed kern n \<longleftrightarrow>
     liburing_documented lib v \<and> cq_documented lib \<and>
     (\<forall>r pos r' e. io_uring_get_sqe lib r = (Some pos, r') \<longrightarrow> consumed (store_sqe lib r' pos e) = consumed r) \<and>
     (\<forall>r. consumed (snd (io_uring_submit lib r)) = consumed r) \<and>
     (\<forall>r k. unat k \<le> length (visible_cqes lib r) \<longrightarrow>
        consumed (io_uring_cq_advance lib r k) = consumed r + mset (map cqe_user_data (take (unat k) (visible_cqes lib r))) \<and>
        view_entries v (io_uring_cq_advance lib r k) = view_entries v r) \<and>
     (\<forall>t r. consumed (kern t r) = consumed r \<and> view_entries v (kern t r) = view_entries v r) \<and>
     (\<forall>r. consumed r + mset (map cqe_user_data (visible_cqes lib r)) \<subseteq># entry_tokens v r) \<and>
     (\<forall>r. n + size (consumed r) \<le> view_room v r + length (view_entries v r))"

lemma kernel_documentedD:
  assumes "kernel_documented lib v consumed kern n"
  shows "liburing_documented lib v" and "cq_documented lib"
    and "\<And>r pos r' e. io_uring_get_sqe lib r = (Some pos, r') \<Longrightarrow> consumed (store_sqe lib r' pos e) = consumed r"
    and "\<And>r. consumed (snd (io_uring_submit lib r)) = consumed r"
    and "\<And>r k. unat k \<le> length (visible_cqes lib r) \<Longrightarrow>
      consumed (io_uring_cq_advance lib r k) = consumed r + mset (map cqe_user_data (take (unat k) (visible_cqes lib r)))"
    and "\<And>r k. unat k \<le> length (visible_cqes lib r) \<Longrightarrow>
      view_entries v (io_uring_cq_advance lib r k) = view_entries v r"
    and "\<And>t r. consumed (kern t r) = consumed r" and "\<And>t r. view_entries v (kern t r) = view_entries v r"
    and "\<And>r. n + size (consumed r) \<le> view_room v r + length (view_entries v r)"
  using assms unfolding kernel_documented_def by simp_all

lemma consumed_le:
  assumes "kernel_documented lib v consumed kern n"
  shows "consumed r \<subseteq># entry_tokens v r"
proof -
  have "consumed r + mset (map cqe_user_data (visible_cqes lib r)) \<subseteq># entry_tokens v r"
    using assms unfolding kernel_documented_def by blast
  then show ?thesis by (meson mset_subset_eq_add_left subset_mset.order_trans)
qed

lemma visible_prefix_le:
  assumes "kernel_documented lib v consumed kern n"
  shows "consumed r + mset (map cqe_user_data (take k (visible_cqes lib r))) \<subseteq># entry_tokens v r"
proof -
  have "mset (map cqe_user_data (take k (visible_cqes lib r))) \<subseteq># mset (map cqe_user_data (visible_cqes lib r))"
    by (metis append_take_drop_id map_append mset_append mset_subset_eq_add_left)
  moreover have "consumed r + mset (map cqe_user_data (visible_cqes lib r)) \<subseteq># entry_tokens v r"
    using assms unfolding kernel_documented_def by blast
  ultimately show ?thesis by (meson subset_mset.add_left_mono subset_mset.order_trans)
qed

lemma consumed_null:
  assumes "kernel_documented lib v consumed kern n" and "io_uring_get_sqe lib r = (None, r')"
  shows "consumed r' = consumed r"
proof -
  have sq: "sq_documented lib v" using kernel_documentedD(1) [OF assms(1)] by (simp add: liburing_documented_def)
  have "view_room v r = 0" using assms(2) get_sqe_room [OF sq, of r] by fastforce
  then have "r' = r" using get_sqe_full [OF sq] assms(2) by simp
  then show ?thesis by simp
qed

section \<open>What the calls of the engine do to the tokens\<close>

lemma entry_tokens_drained:
  "view_entries v r' = view_entries v r @ map (request_sqe lib pool) reqs \<Longrightarrow>
   entry_tokens v r' = entry_tokens v r + mset (map token reqs)"
  by (simp add: entry_tokens_def request_sqe_def multiset.map_comp comp_def)

context request_queue
begin

lemma drain_tokens:
  assumes doc: "kernel_documented lib v consumed kern n" and q: "inv q"
  shows "\<exists>k e' q'. drain_and_submit lib try_pop e q pool max_batch = Some (of_nat k, e', q') \<and>
    drained inv items lib v pool (unat max_batch) (ring e) q k (ring e') q' \<and>
    consumed (ring e') = consumed (ring e) \<and>
    entry_tokens v (ring e') = entry_tokens v (ring e) + mset (map token (take k (items q)))"
proof -
  obtain k e' q' where d: "drain_and_submit lib try_pop e q pool max_batch = Some (of_nat k, e', q')"
    "drained inv items lib v pool (unat max_batch) (ring e) q k (ring e') q'"
    using drain_drained [OF kernel_documentedD(1) [OF doc] q] by blast
  have "consumed (ring e') = consumed (ring e)"
    by (rule drain_observer [OF kernel_documentedD(3) [OF doc] consumed_null [OF doc] kernel_documentedD(4) [OF doc] d(1)])
  moreover have "entry_tokens v (ring e') = entry_tokens v (ring e) + mset (map token (take k (items q)))"
    using d(2) by (intro entry_tokens_drained [of _ _ _ lib pool]) (simp add: drained_def)
  ultimately show ?thesis using d by blast
qed

end

context completion_queue
begin

text \<open>With room for all that is walked, the tokens consumed are the tokens delivered.\<close>

lemma harvest_tokens:
  assumes doc: "kernel_documented lib v consumed kern n" and out: "inv out"
    and issue: "can_issue out (walk_count lib max_batch (ring e))"
    and room: "length (items out) + walk_count lib max_batch (ring e) \<le> limit"
  shows "\<exists>e' out'. harvest_completions lib try_push e out max_batch =
      Some (of_nat (walk_count lib max_batch (ring e)), e', out') \<and> inv out' \<and>
    items out' = items out @ map (completion_of lib) (take (walk_count lib max_batch (ring e)) (visible_cqes lib (ring e))) \<and>
    consumed (ring e') = consumed (ring e) +
      mset (map cqe_user_data (take (walk_count lib max_batch (ring e)) (visible_cqes lib (ring e)))) \<and>
    view_entries v (ring e') = view_entries v (ring e)"
proof -
  let ?k = "walk_count lib max_batch (ring e)" and ?vis = "visible_cqes lib (ring e)"
  let ?e = "e\<lparr>ring := if (of_nat ?k :: size_t) > 0 then io_uring_cq_advance lib (ring e) (ucast (of_nat ?k :: size_t)) else ring e\<rparr>"
  have m: "min ?k (limit - length (items out)) = ?k" using room by simp
  obtain out' where out': "harvest_completions lib try_push e out max_batch = Some (of_nat ?k, ?e, out')" "inv out'"
    "items out' = items out @ take ?k (map (completion_of lib) ?vis)"
    using harvest_eq [OF out issue] m by auto
  have k: "?k \<le> length ?vis" "?k < 2 ^ 32"
    using kernel_documentedD(2) [OF doc] by (auto simp: walk_count_def cq_documented_def intro: le_less_trans [OF min.cobounded2])
  have u: "unat (ucast (of_nat ?k :: size_t) :: u32) = ?k" "0 < (of_nat ?k :: size_t) \<longleftrightarrow> 0 < ?k"
    using k(2) ucast_of_nat_32 [of ?k] of_nat_pos_64 [of ?k] by auto
  have "consumed (ring ?e) = consumed (ring e) + mset (map cqe_user_data (take ?k ?vis))"
    using kernel_documentedD(5) [OF doc, of "ucast (of_nat ?k :: size_t)" "ring e"] u k(1) by auto
  moreover have "view_entries v (ring ?e) = view_entries v (ring e)"
    using kernel_documentedD(6) [OF doc, of "ucast (of_nat ?k :: size_t)" "ring e"] u k(1) by auto
  ultimately show ?thesis using out' by (intro exI [of _ ?e] exI [of _ out']) (simp add: take_map)
qed

end

section \<open>The reference ring as a kernel\<close>

text \<open>A kernel over the reference ring that completes at every pass all that was submitted.\<close>

definition ref_consumed :: "ref_ring \<Rightarrow> u64 multiset" where
  "ref_consumed r = mset (map sqe_user_data (take (ref_seen r) (ref_entries r)))"

definition ref_kernel :: "nat \<Rightarrow> ref_ring \<Rightarrow> ref_ring" where
  "ref_kernel t r = r\<lparr>ref_done := max (ref_done r) (ref_sub r)\<rparr>"

lemma ref_view_entries: "view_entries (ref_view n) r = ref_entries r"
  by (simp add: view_entries_def ref_view_def)

lemma ref_advance_consumed:
  assumes "k \<le> length (ref_visible r)"
  shows "ref_consumed (r\<lparr>ref_seen := ref_seen r + k\<rparr>) = ref_consumed r + mset (map cqe_user_data (take k (ref_visible r)))"
proof -
  have k: "k \<le> 4096" "k \<le> ref_done r - ref_seen r" using assms by (auto simp: ref_visible_def)
  have "map cqe_user_data (take k (ref_visible r)) = map sqe_user_data (take k (drop (ref_seen r) (ref_entries r)))"
    using k by (simp add: ref_visible_def take_map drop_map drop_take min_absorb1 comp_def)
  then show ?thesis by (simp add: ref_consumed_def take_add)
qed

lemma ref_visible_le:
  "ref_consumed r + mset (map cqe_user_data (ref_visible r)) \<subseteq># entry_tokens (ref_view n) r"
proof -
  let ?ts = "map sqe_user_data (ref_entries r)" and ?m = "min 4096 (ref_done r - ref_seen r)"
  have vis: "map cqe_user_data (ref_visible r) = take ?m (drop (ref_seen r) ?ts)"
    by (simp add: ref_visible_def take_map drop_map drop_take comp_def)
  have "mset ?ts = mset (take (ref_seen r) ?ts) + mset (drop (ref_seen r) ?ts)"
    by (simp only: append_take_drop_id flip: mset_append)
  also have "mset (drop (ref_seen r) ?ts) = mset (take ?m (drop (ref_seen r) ?ts)) + mset (drop ?m (drop (ref_seen r) ?ts))"
    by (simp only: append_take_drop_id flip: mset_append)
  finally have "entry_tokens (ref_view n) r = (ref_consumed r + mset (map cqe_user_data (ref_visible r)))
      + mset (drop ?m (drop (ref_seen r) ?ts))"
    unfolding vis ref_consumed_def entry_tokens_def ref_view_entries by (simp only: take_map add.assoc)
  then show ?thesis by (simp only: mset_subset_eq_add_left)
qed

lemma ref_kernel_documented: "kernel_documented (ref_lib n) (ref_view n) ref_consumed ref_kernel n"
  unfolding kernel_documented_def
proof (intro conjI allI impI)
  show "liburing_documented (ref_lib n) (ref_view n)" "cq_documented (ref_lib n)"
    by (rule ref_lib_documented, rule ref_lib_cq)
  fix r r' pos e and k :: u32 and t :: nat
  show "ref_consumed (store_sqe (ref_lib n) r' pos e) = ref_consumed r"
    if "io_uring_get_sqe (ref_lib n) r = (Some pos, r')"
    using that by (auto simp: ref_lib_def ref_get_sqe_def ref_consumed_def list_update_append min_def split: if_splits)
  show "ref_consumed (snd (io_uring_submit (ref_lib n) r)) = ref_consumed r"
    by (simp add: ref_lib_def ref_consumed_def)
  show "ref_consumed (io_uring_cq_advance (ref_lib n) r k) =
      ref_consumed r + mset (map cqe_user_data (take (unat k) (visible_cqes (ref_lib n) r)))"
    and "view_entries (ref_view n) (io_uring_cq_advance (ref_lib n) r k) = view_entries (ref_view n) r"
    if "unat k \<le> length (visible_cqes (ref_lib n) r)"
    using that ref_advance_consumed [of "unat k" r] by (simp_all add: ref_lib_def ref_view_entries)
  show "ref_consumed (ref_kernel t r) = ref_consumed r" "view_entries (ref_view n) (ref_kernel t r) = view_entries (ref_view n) r"
    by (simp_all add: ref_kernel_def ref_consumed_def ref_view_entries)
  show "ref_consumed r + mset (map cqe_user_data (visible_cqes (ref_lib n) r)) \<subseteq># entry_tokens (ref_view n) r"
    using ref_visible_le by (simp add: ref_lib_def)
  show "n + size (ref_consumed r) \<le> view_room (ref_view n) r + length (view_entries (ref_view n) r)"
    by (simp add: ref_consumed_def ref_view_entries) (simp add: ref_view_def ref_room_def)
qed

end
