(* ===== verification/Sqe_Typing.thy ===== *)
theory Sqe_Typing
  imports Sqpoll_Engine
begin

text \<open>
  The entries \<open>drain_and_submit\<close> writes are well-typed for the kernel: a fixed operation on a fixed
  file whose transfer lies inside the registered buffer that the entry names. The registered buffers
  are the iovecs of the pool, in the order \<open>register_with\<close> hands them over.
\<close>

definition iovec_contains :: "iovec \<Rightarrow> addr \<Rightarrow> u32 \<Rightarrow> bool" where
  "iovec_contains iov a n \<longleftrightarrow> unat (iov_base iov) \<le> unat a \<and> unat a + unat n \<le> unat (iov_base iov) + unat (iov_len iov)"

definition sqe_typed :: "'r liburing \<Rightarrow> BufferPool \<Rightarrow> sqe \<Rightarrow> bool" where
  "sqe_typed lib pool e \<longleftrightarrow>
     (sqe_opcode e = IORING_OP_READ_FIXED lib \<or> sqe_opcode e = IORING_OP_WRITE_FIXED lib) \<and>
     sqe_flags e = IOSQE_FIXED_FILE lib \<and> unat (sqe_buf_index e) < length (pool_iovecs pool) \<and>
     iovec_contains (pool_iovecs pool ! unat (sqe_buf_index e)) (sqe_addr e) (sqe_len e)"

text \<open>A request a client may push: a buffer of the pool, and no more bytes than a buffer holds.\<close>

definition request_ok :: "BufferPool \<Rightarrow> IoRequest \<Rightarrow> bool" where
  "request_ok pool req \<longleftrightarrow> unat (buffer_index req) < unat (pool_buffer_count pool) \<and>
     unat (req_length req) \<le> unat (pool_buffer_size pool)"

lemma buf_index_exact: "unat (i :: u32) < 65536 \<Longrightarrow> unat (ucast i :: 16 word) = unat i"
  by (simp add: unsigned_ucast_eq take_bit_nat_eq_self)

lemma request_sqe_typed:
  assumes "BufferPool_ctor env n sz = (Inr pool, calls)" and "unat n \<le> 65536" and "request_ok pool req"
  shows "sqe_typed lib pool (request_sqe lib pool req)"
proof -
  have i: "unat (buffer_index req) < unat n" and l: "unat (req_length req) \<le> unat sz"
    using assms(3) ctor_sizes [OF assms(1)] by (simp_all add: request_ok_def)
  have "unat (ucast (buffer_index req) :: 16 word) = unat (buffer_index req)"
    using i assms(2) by (intro buf_index_exact) simp
  then show ?thesis
    using ctor_iovec [OF assms(1) i] ctor_sizes [OF assms(1)] i l
    by (cases "op req") (simp_all add: sqe_typed_def request_sqe_def iovec_contains_def)
qed

text \<open>(C7) Draining keeps the submission ring well-typed: if every queued request names a buffer of
  the pool and at most a buffer's bytes, and all entries in the ring are well-typed, then so are all
  entries after the call: each is a fixed read or write on a fixed file, and its address and length
  lie inside the registered buffer its 16-bit index names. The pool may have up to 65536 buffers,
  which is more than the kernel registers.\<close>

theorem drain_entries_typed:
  assumes "liburing_documented lib v" and "spsc_inv cap q"
    and "BufferPool_ctor env n sz = (Inr pool, calls)" and "unat n \<le> 65536"
    and "\<forall>req \<in> set (spsc_items cap q). request_ok pool req"
    and "\<forall>s \<in> set (view_entries v (ring e)). sqe_typed lib pool s"
  shows "\<exists>k e' q'. drain_and_submit lib (\<lambda>q. Some (spsc_try_pop cap q)) e q pool max_batch = Some (k, e', q') \<and>
    (\<forall>s \<in> set (view_entries v (ring e')). sqe_typed lib pool s) \<and>
    (\<forall>req \<in> set (spsc_items cap q'). request_ok pool req)"
proof -
  obtain k e' q' where k: "drain_and_submit lib (\<lambda>q. Some (spsc_try_pop cap q)) e q pool max_batch = Some (of_nat k, e', q')"
    and d: "drained (spsc_inv cap) (spsc_items cap) lib v pool (unat max_batch) (ring e) q k (ring e') q'"
    using spsc_req.drain_drained [OF assms(1,2)] by blast
  have "view_entries v (ring e') = view_entries v (ring e) @ map (request_sqe lib pool) (take k (spsc_items cap q))"
    using d by (simp add: drained_def)
  then have "\<forall>s \<in> set (view_entries v (ring e')). sqe_typed lib pool s"
    using assms(5,6) by (auto intro!: request_sqe_typed [OF assms(3,4)] dest: in_set_takeD)
  moreover have "set (spsc_items cap q') \<subseteq> set (spsc_items cap q)"
    using d set_drop_subset by (auto simp: drained_def dest: in_set_dropD)
  ultimately show ?thesis using k assms(5) by blast
qed

theorem drain_entries_typed_witness:
  "\<exists>q k e' q'. spsc_items 4 q = [IoRequest_default] \<and>
     drain_and_submit (ref_lib 8) (\<lambda>q. Some (spsc_try_pop 4 q)) ref_start q (built_pool 65536 3 4096) 32
       = Some (k, e', q') \<and>
     (\<forall>s \<in> set (view_entries (ref_view 8) (ring e')). sqe_typed (ref_lib 8) (built_pool 65536 3 4096) s)"
proof -
  obtain q where q: "spsc_inv 4 q" "spsc_items 4 q = [IoRequest_default]" by (rule demo_queue)
  have "request_ok (built_pool 65536 3 4096) IoRequest_default"
    by (simp add: request_ok_def IoRequest_default_def built_pool_def pool_buffer_count_def)
  moreover have "view_entries (ref_view 8) (ring ref_start) = []"
    by (simp add: view_entries_def ref_view_def ref_start_def ref_new_def)
  ultimately show ?thesis
    using drain_entries_typed [OF ref_lib_documented [of 8] q(1) demo_ctor, of ref_start 32] q(2) by auto
qed

end
