(* ===== verification/Engine_System.thy ===== *)
theory Engine_System
  imports Kernel_Contract Sqe_Typing
begin

text \<open>
  The library in use: any number of workers, the engine thread and the kernel share one pool, one
  request queue, one engine and one completion queue. A worker acquires a buffer, pushes a request for
  it with the buffer index as token, and takes a completion to get the buffer back; the engine drains
  and harvests; the kernel acts on the ring at any time. Every call of a library function is one step
  (the thread models of the rings and of the pool show that their calls take effect at one point), in
  any order. The specification is the ownership of buffers: each buffer is at one place and only moves
  along the path of a request.
\<close>

section \<open>Ownership of buffers\<close>

record ownership =
  own_free :: "u32 multiset"
  own_held :: "u32 multiset"
  own_queued :: "u32 multiset"
  own_flight :: "u32 multiset"
  own_done :: "u32 multiset"

definition own_all :: "ownership \<Rightarrow> u32 multiset" where
  "own_all a = own_free a + own_held a + own_queued a + own_flight a + own_done a"

definition own_start :: "u32 set \<Rightarrow> ownership \<Rightarrow> bool" where
  "own_start U a \<longleftrightarrow> a = \<lparr>own_free = mset_set U, own_held = {#}, own_queued = {#}, own_flight = {#}, own_done = {#}\<rparr>"

text \<open>A worker takes, gives back or queues one buffer; the engine starts and finishes the requests of
  any number of buffers at once; a worker reaps one.\<close>

inductive own_step :: "ownership \<Rightarrow> ownership \<Rightarrow> bool" where
  own_take: "own_free a = add_mset i F \<Longrightarrow> own_step a (a\<lparr>own_free := F, own_held := add_mset i (own_held a)\<rparr>)"
| own_give: "own_held a = add_mset i H \<Longrightarrow> own_step a (a\<lparr>own_held := H, own_free := add_mset i (own_free a)\<rparr>)"
| own_submit: "own_held a = add_mset i H \<Longrightarrow> own_step a (a\<lparr>own_held := H, own_queued := add_mset i (own_queued a)\<rparr>)"
| own_begin: "own_queued a = Q + X \<Longrightarrow> own_step a (a\<lparr>own_queued := Q, own_flight := own_flight a + X\<rparr>)"
| own_finish: "own_flight a = F + X \<Longrightarrow> own_step a (a\<lparr>own_flight := F, own_done := own_done a + X\<rparr>)"
| own_reap: "own_done a = add_mset i D \<Longrightarrow> own_step a (a\<lparr>own_done := D, own_held := add_mset i (own_held a)\<rparr>)"

lemma own_step_all: "own_step a b \<Longrightarrow> own_all b = own_all a"
  by (induction rule: own_step.induct) (simp_all add: own_all_def ac_simps)

interpretation owners: inductive_invariant "own_start U" own_step "\<lambda>a. own_all a = mset_set U" for U
  by unfold_locales (simp add: own_start_def own_all_def, simp add: own_step_all)

section \<open>The system\<close>

text \<open>The parts of the system that a build chooses: the library behind the engine, the two queues
  (their calls take a schedule of spurious exchange failures), how many more pushes their counters
  allow, and what the kernel can do to the ring.\<close>

record ('rq, 'r, 'cq) system_ops =
  so_lib :: "'r liburing"
  so_kernel :: "nat \<Rightarrow> 'r \<Rightarrow> 'r"
  so_push :: "bool list \<Rightarrow> 'rq \<Rightarrow> IoRequest \<Rightarrow> (bool \<times> 'rq) option"
  so_pop :: "bool list \<Rightarrow> 'rq \<Rightarrow> (IoRequest option \<times> 'rq) option"
  so_deliver :: "bool list \<Rightarrow> 'cq \<Rightarrow> IoCompletion \<Rightarrow> (bool \<times> 'cq) option"
  so_take :: "bool list \<Rightarrow> 'cq \<Rightarrow> (IoCompletion option \<times> 'cq) option"
  so_req_range :: "'rq \<Rightarrow> nat \<Rightarrow> bool"
  so_comp_range :: "'cq \<Rightarrow> nat \<Rightarrow> bool"

record ('rq, 'r, 'cq) system =
  sy_pool :: BufferPool
  sy_requests :: 'rq
  sy_engine :: "'r SqpollEngine"
  sy_completions :: 'cq
  sy_held :: "u32 multiset"

inductive worker_step :: "('rq, 'r, 'cq) system_ops \<Rightarrow> ('rq, 'r, 'cq) system \<Rightarrow> ('rq, 'r, 'cq) system \<Rightarrow> bool"
  for ops :: "('rq, 'r, 'cq) system_ops" where
  sys_acquire: "acquire ws (sy_pool s) = Some (i, p) \<Longrightarrow>
    worker_step ops s (s\<lparr>sy_pool := p, sy_held := if i = kInvalidIndex then sy_held s else add_mset i (sy_held s)\<rparr>)"
| sys_release: "i \<in># sy_held s \<Longrightarrow> release ws (sy_pool s) i = Some p \<Longrightarrow>
    worker_step ops s (s\<lparr>sy_pool := p, sy_held := sy_held s - {#i#}\<rparr>)"
| sys_submit: "buffer_index req \<in># sy_held s \<Longrightarrow> token req = ucast (buffer_index req) \<Longrightarrow>
    unat (req_length req) \<le> unat (pool_buffer_size (sy_pool s)) \<Longrightarrow>
    so_push ops ws (sy_requests s) req = Some (ok, q) \<Longrightarrow>
    worker_step ops s (s\<lparr>sy_requests := q, sy_held := if ok then sy_held s - {#buffer_index req#} else sy_held s\<rparr>)"
| sys_reap: "so_take ops ws (sy_completions s) = Some (c, out) \<Longrightarrow>
    worker_step ops s (s\<lparr>sy_completions := out, sy_held := (case c of None \<Rightarrow> sy_held s
      | Some c \<Rightarrow> add_mset (ucast (comp_token c)) (sy_held s))\<rparr>)"

inductive sys_step :: "('rq, 'r, 'cq) system_ops \<Rightarrow> ('rq, 'r, 'cq) system \<Rightarrow> ('rq, 'r, 'cq) system \<Rightarrow> bool"
  for ops :: "('rq, 'r, 'cq) system_ops" where
  sys_worker: "worker_step ops s t \<Longrightarrow> sys_step ops s t"
| sys_drain: "drain_and_submit (so_lib ops) (so_pop ops ws) (sy_engine s) (sy_requests s) (sy_pool s) max_batch
      = Some (k, e, q) \<Longrightarrow>
    sys_step ops s (s\<lparr>sy_engine := e, sy_requests := q\<rparr>)"
| sys_kernel: "sys_step ops s (s\<lparr>sy_engine := (sy_engine s)\<lparr>ring := so_kernel ops t (ring (sy_engine s))\<rparr>\<rparr>)"
| sys_harvest: "harvest_completions (so_lib ops) (so_deliver ops ws) (sy_engine s) (sy_completions s) max_batch
      = Some (k, e, out) \<Longrightarrow>
    sys_step ops s (s\<lparr>sy_engine := e, sy_completions := out\<rparr>)"

text \<open>Steps inside the range of the queues' counters.\<close>

definition sys_range :: "('rq, 'r, 'cq) system_ops \<Rightarrow> ('rq, 'r, 'cq) system \<Rightarrow> bool" where
  "sys_range ops s \<longleftrightarrow> so_req_range ops (sy_requests s) 1 \<and>
     (\<forall>k \<le> unat (pool_buffer_count (sy_pool s)). so_comp_range ops (sy_completions s) k)"

definition sys_step_in :: "('rq, 'r, 'cq) system_ops \<Rightarrow> ('rq, 'r, 'cq) system \<Rightarrow> ('rq, 'r, 'cq) system \<Rightarrow> bool" where
  "sys_step_in ops s t \<longleftrightarrow> sys_step ops s t \<and> sys_range ops s"

section \<open>Pool calls and the geometry of the pool\<close>

definition same_geometry :: "BufferPool \<Rightarrow> BufferPool \<Rightarrow> bool" where
  "same_geometry p p' \<longleftrightarrow> bp_base p' = bp_base p \<and> bp_buffer_size p' = bp_buffer_size p \<and>
     bp_buffer_count p' = bp_buffer_count p \<and> bp_iovecs p' = bp_iovecs p"

lemma acquire_geometry: "acquire ws p = Some (i, p') \<Longrightarrow> same_geometry p p'"
  using acquire_loop_current [of p "padded_get (free_head p)" ws]
  by (cases "UnpackIndex (padded_get (free_head p)) = kInvalidIndex";
      cases "length (free_next p) \<le> unat (UnpackIndex (padded_get (free_head p)))")
    (auto simp: acquire_def acquire_loop.simps [of ws] same_geometry_def)

lemma release_geometry: "release ws p i = Some p' \<Longrightarrow> same_geometry p p'"
  using release_loop_current [of p "padded_get (free_head p)" i ws]
  by (cases "length (free_next p) \<le> unat i")
    (auto simp: release_def release_loop.simps [of ws] same_geometry_def)

lemma same_geometryD:
  assumes "same_geometry p p'"
  shows "pool_data p' = pool_data p" "pool_buffer_size p' = pool_buffer_size p"
    "pool_buffer_count p' = pool_buffer_count p" "pool_iovecs p' = pool_iovecs p"
  using assms by (auto simp: same_geometry_def pool_data_def pool_buffer_size_def pool_buffer_count_def pool_iovecs_def)

section \<open>Abstraction and invariant\<close>

text \<open>How to look at the parts: the ring (its entries, the tokens consumed, the number of entries of its
  submission queue) and the content, invariant and capacity of the queues.\<close>

record ('rq, 'r, 'cq) system_view =
  sv_ring :: "'r ring_view"
  sv_consumed :: "'r \<Rightarrow> u64 multiset"
  sv_entries :: nat
  sv_ritems :: "'rq \<Rightarrow> IoRequest list"
  sv_rinv :: "'rq \<Rightarrow> bool"
  sv_citems :: "'cq \<Rightarrow> IoCompletion list"
  sv_cinv :: "'cq \<Rightarrow> bool"
  sv_climit :: nat

definition tokens_in_flight :: "('rq, 'r, 'cq) system_view \<Rightarrow> 'r \<Rightarrow> u64 multiset" where
  "tokens_in_flight vw r = entry_tokens (sv_ring vw) r - sv_consumed vw r"

definition sys_abs :: "('rq, 'r, 'cq) system_view \<Rightarrow> ('rq, 'r, 'cq) system \<Rightarrow> ownership" where
  "sys_abs vw s = \<lparr>own_free = mset (pool_free (sy_pool s)), own_held = sy_held s,
     own_queued = mset (map buffer_index (sv_ritems vw (sy_requests s))),
     own_flight = image_mset ucast (tokens_in_flight vw (ring (sy_engine s))),
     own_done = mset (map (ucast \<circ> comp_token) (sv_citems vw (sy_completions s)))\<rparr>"

text \<open>The buffers fit into the submission queue and into the completion queue.\<close>

definition sys_fits :: "('rq, 'r, 'cq) system_view \<Rightarrow> u32 set \<Rightarrow> bool" where
  "sys_fits vw U \<longleftrightarrow> card U \<le> sv_entries vw \<and> card U \<le> sv_climit vw"

definition queued_ok :: "BufferPool \<Rightarrow> IoRequest \<Rightarrow> bool" where
  "queued_ok p req \<longleftrightarrow> token req = ucast (buffer_index req) \<and> unat (req_length req) \<le> unat (pool_buffer_size p)"

definition entry_ok :: "BufferPool \<Rightarrow> sqe \<Rightarrow> bool" where
  "entry_ok p e \<longleftrightarrow> sqe_addr e = pool_data p (ucast (sqe_user_data e)) \<and> unat (sqe_len e) \<le> unat (pool_buffer_size p)"

definition sys_ok :: "('rq, 'r, 'cq) system_ops \<Rightarrow> ('rq, 'r, 'cq) system_view \<Rightarrow> u32 set \<Rightarrow> ('rq, 'r, 'cq) system \<Rightarrow> bool" where
  "sys_ok ops vw U s \<longleftrightarrow>
     kernel_documented (so_lib ops) (sv_ring vw) (sv_consumed vw) (so_kernel ops) (sv_entries vw) \<and> sys_fits vw U \<and>
     pool_inv (sy_pool s) \<and> pool_univ (sy_pool s) = U \<and>
     sv_rinv vw (sy_requests s) \<and> sv_cinv vw (sy_completions s) \<and>
     (\<forall>req \<in> set (sv_ritems vw (sy_requests s)). queued_ok (sy_pool s) req) \<and>
     (\<forall>e \<in> set (view_entries (sv_ring vw) (ring (sy_engine s))). entry_ok (sy_pool s) e)"

definition sys_inv :: "('rq, 'r, 'cq) system_ops \<Rightarrow> ('rq, 'r, 'cq) system_view \<Rightarrow> u32 set \<Rightarrow> ('rq, 'r, 'cq) system \<Rightarrow> bool" where
  "sys_inv ops vw U s \<longleftrightarrow> sys_ok ops vw U s \<and> own_all (sys_abs vw s) = mset_set U"

text \<open>The system starts with a fresh pool, empty queues and an engine whose ring was not used, on a kernel
  that behaves as documented.\<close>

definition sys_start :: "('rq, 'r, 'cq) system_ops \<Rightarrow> ('rq, 'r, 'cq) system_view \<Rightarrow> u32 set \<Rightarrow> ('rq, 'r, 'cq) system \<Rightarrow> bool" where
  "sys_start ops vw U s \<longleftrightarrow>
     kernel_documented (so_lib ops) (sv_ring vw) (sv_consumed vw) (so_kernel ops) (sv_entries vw) \<and> sys_fits vw U \<and>
     (\<exists>env n sz calls. BufferPool_ctor env n sz = (Inr (sy_pool s), calls) \<and> unat n < 2 ^ 32 \<and> U = {i. unat i < unat n}) \<and>
     sv_rinv vw (sy_requests s) \<and> sv_ritems vw (sy_requests s) = [] \<and>
     sv_cinv vw (sy_completions s) \<and> sv_citems vw (sy_completions s) = [] \<and>
     view_entries (sv_ring vw) (ring (sy_engine s)) = [] \<and> sv_consumed vw (ring (sy_engine s)) = {#} \<and>
     sy_held s = {#}"

lemma sys_start_abs:
  assumes "sys_start ops vw U s"
  shows "sys_ok ops vw U s \<and> own_start U (sys_abs vw s)"
proof -
  obtain env n sz calls where c: "BufferPool_ctor env n sz = (Inr (sy_pool s), calls)" "unat n < 2 ^ 32"
    "U = {i. unat i < unat n}" using assms unfolding sys_start_def by blast
  obtain base where b: "ctor_accepts env n sz base" "sy_pool s = built_pool base n sz"
    by (rule BufferPool_ctor_success [OF c(1)])
  have "n \<noteq> 0" using b(1) by (simp add: ctor_accepts_def)
  from built_pool_ok [OF this c(2)] b(2) c(3) have p: "pool_inv (sy_pool s)" "pool_univ (sy_pool s) = U"
    "pool_free (sy_pool s) = map of_nat (rev [0..<unat n])"
    by (simp_all add: built_pool_univ)
  have d: "distinct (pool_free (sy_pool s))" using p(1) by (simp add: pool_inv_def)
  have "set (pool_free (sy_pool s)) = U"
  proof
    show "set (pool_free (sy_pool s)) \<subseteq> U" using pool.free_univ [OF p(1)] p(2) by simp
    show "U \<subseteq> set (pool_free (sy_pool s))"
    proof
      fix i assume "i \<in> U"
      then have "unat i < unat n" using c(3) by simp
      then show "i \<in> set (pool_free (sy_pool s))" unfolding p(3) set_map set_rev set_upt
        by (intro image_eqI [of _ _ "unat i"]) simp_all
    qed
  qed
  then have "mset (pool_free (sy_pool s)) = mset_set U" using d by (metis mset_set_set)
  with p assms show ?thesis
    by (simp add: sys_start_def sys_ok_def own_start_def sys_abs_def tokens_in_flight_def entry_tokens_def)
qed

section \<open>Every step moves buffers along their path\<close>

lemma count_le_image: "count M x \<le> count (image_mset f M) (f x)"
  by (induction M) auto

lemma index_token [simp]: "(ucast (ucast i :: u64) :: u32) = i"
proof -
  have "unat (ucast w :: u32) = unat w" if "unat w < 2 ^ 32" for w :: u64
    using that by (simp add: unsigned_ucast_eq take_bit_nat_eq_self)
  moreover have "unat i < 2 ^ 32" using unsigned_less [of i, where ?'a = nat] by simp
  ultimately have "unat (ucast (ucast i :: u64) :: u32) = unat i" by (metis unat_ucast_u32)
  then show ?thesis by (rule unsigned_word_eqI)
qed

lemma place_unique:
  assumes "own_all a = mset_set U" and "i \<in># own_held a"
  shows "i \<in> U \<and> i \<notin># own_free a"
proof
  have "i \<in># own_all a" using assms(2) by (simp add: own_all_def)
  then show "i \<in> U" using assms(1) by (metis elem_mset_set equals0D mset_set.infinite set_mset_empty)
  show "i \<notin># own_free a"
  proof
    assume "i \<in># own_free a"
    then have "2 \<le> count (own_free a) i + count (own_held a) i"
      using assms(2) by (metis add_mono one_add_one count_greater_eq_one_iff)
    then have "2 \<le> count (own_all a) i" by (simp add: own_all_def)
    moreover have "count (mset_set U) i \<le> 1" by (cases "finite U"; cases "i \<in> U") simp_all
    ultimately show False using assms(1) by simp
  qed
qed

lemma flight_exclusive:
  assumes all: "own_all a = mset_set U" and fl: "own_flight a = image_mset ucast T + P" and t: "t \<in># T"
  shows "(ucast t :: u32) \<notin># own_held a \<and> (ucast t :: u32) \<notin># own_free a \<and> (ucast t :: u32) \<notin># P \<and> count T t = 1"
proof -
  have "count (own_all a) (ucast t) \<le> 1" unfolding all by (simp add: count_mset_set')
  then have le: "count (own_free a) (ucast t) + count (own_held a) (ucast t) + count (image_mset ucast T) (ucast t :: u32)
      + count P (ucast t) \<le> 1" unfolding own_all_def fl by simp
  moreover have "count T t \<le> count (image_mset ucast T) (ucast t :: u32)" by (rule count_le_image)
  moreover have "1 \<le> count T t" using t by simp
  ultimately have "count (own_held a) (ucast t) = 0" "count (own_free a) (ucast t) = 0" "count P (ucast t) = 0" "count T t = 1"
    by linarith+
  then show ?thesis by (simp add: not_in_iff)
qed

lemma card_pool_univ: "pool_inv p \<Longrightarrow> card (pool_univ p) \<le> unat (pool_buffer_count p)"
proof -
  assume inv: "pool_inv p"
  have "card (pool_univ p) \<le> card {..<unat (pool_buffer_count p)}"
    using inv by (intro card_inj_on_le [of unat])
      (auto simp: inj_on_def pool_univ_def pool_inv_def pool_buffer_count_def dest: unsigned_word_eqI)
  then show ?thesis by simp
qed

text \<open>The buffers bound what is queued, in flight and completed.\<close>

lemma sys_sizes:
  assumes "sys_inv ops vw U s"
  shows "length (sv_ritems vw (sy_requests s)) + size (tokens_in_flight vw (ring (sy_engine s))) +
    length (sv_citems vw (sy_completions s)) \<le> card U"
proof -
  have "size (own_all (sys_abs vw s)) = card U" using assms by (simp add: sys_inv_def)
  then show ?thesis by (simp add: own_all_def sys_abs_def)
qed

lemma flight_size:
  assumes "sys_ok ops vw U s"
  shows "size (tokens_in_flight vw r) + size (sv_consumed vw r) = length (view_entries (sv_ring vw) r)"
proof -
  have "sv_consumed vw r \<subseteq># entry_tokens (sv_ring vw) r"
    using assms by (intro consumed_le [where lib = "so_lib ops" and kern = "so_kernel ops" and n = "sv_entries vw"])
      (simp add: sys_ok_def)
  then have "size (tokens_in_flight vw r) + size (sv_consumed vw r) = size (entry_tokens (sv_ring vw) r)"
    unfolding tokens_in_flight_def by (simp add: size_Diff_submset size_mset_mono)
  then show ?thesis by (simp add: entry_tokens_def)
qed

lemma sys_room:
  assumes "sys_inv ops vw U s"
  shows "length (sv_ritems vw (sy_requests s)) \<le> view_room (sv_ring vw) (ring (sy_engine s))"
proof -
  have ok: "sys_ok ops vw U s" using assms by (simp add: sys_inv_def)
  then have "sv_entries vw + size (sv_consumed vw (ring (sy_engine s)))
      \<le> view_room (sv_ring vw) (ring (sy_engine s)) + length (view_entries (sv_ring vw) (ring (sy_engine s)))"
    by (intro kernel_documentedD(9) [where lib = "so_lib ops" and kern = "so_kernel ops"]) (simp add: sys_ok_def)
  moreover have "card U \<le> sv_entries vw" using ok by (simp add: sys_ok_def sys_fits_def)
  ultimately show ?thesis using sys_sizes [OF assms] flight_size [OF ok, of "ring (sy_engine s)"] by linarith
qed

definition sys_moves :: "('rq, 'r, 'cq) system_ops \<Rightarrow> ('rq, 'r, 'cq) system_view \<Rightarrow> u32 set \<Rightarrow>
    ('rq, 'r, 'cq) system \<Rightarrow> ('rq, 'r, 'cq) system \<Rightarrow> bool" where
  "sys_moves ops vw U s t \<longleftrightarrow> sys_ok ops vw U t \<and> (sys_abs vw t = sys_abs vw s \<or> own_step (sys_abs vw s) (sys_abs vw t))"

lemma sys_ok_pool:
  assumes "sys_ok ops vw U s" and "same_geometry (sy_pool s) p" and "pool_inv p" and "pool_univ p = U"
  shows "sys_ok ops vw U (s\<lparr>sy_pool := p, sy_held := h\<rparr>)"
  using assms same_geometryD [OF assms(2)] by (simp add: sys_ok_def queued_ok_def entry_ok_def)

lemma acquire_moves:
  assumes inv: "sys_ok ops vw U s" and a: "acquire ws (sy_pool s) = Some (i, p)"
  shows "sys_moves ops vw U s (s\<lparr>sy_pool := p, sy_held := if i = kInvalidIndex then sy_held s else add_mset i (sy_held s)\<rparr>)"
proof -
  have ok: "sys_ok ops vw U s" "pool_inv (sy_pool s)" "pool_univ (sy_pool s) = U"
    using inv by (simp_all add: sys_ok_def)
  show ?thesis
  proof (cases "pool_free (sy_pool s)")
    case Nil
    then have "i = kInvalidIndex \<and> p = sy_pool s" using pool.acquire_empty [OF ok(2) Nil, of ws] a by simp
    with ok show ?thesis by (simp add: sys_moves_def)
  next
    case (Cons x xs)
    then have p: "i = x" "pool_inv p" "pool_free p = xs" "pool_univ p = U"
      using pool.acquire_first [OF ok(2) Cons, of ws] a ok(3) by auto
    have "x \<noteq> kInvalidIndex" using pool.free_univ [OF ok(2)] pool.invalid_univ [OF ok(2)] Cons by auto
    moreover have "own_step (sys_abs vw s) (sys_abs vw (s\<lparr>sy_pool := p, sy_held := add_mset x (sy_held s)\<rparr>))"
      using own_take [of "sys_abs vw s" x "mset xs"] Cons p(3) by (simp add: sys_abs_def)
    ultimately show ?thesis
      using sys_ok_pool [OF ok(1) acquire_geometry [OF a] p(2,4)] p(1) by (simp add: sys_moves_def)
  qed
qed

lemma release_moves:
  assumes inv: "sys_ok ops vw U s" and h: "i \<in># sy_held s" "i \<in> U" "i \<notin> set (pool_free (sy_pool s))" and r: "release ws (sy_pool s) i = Some p"
  shows "sys_moves ops vw U s (s\<lparr>sy_pool := p, sy_held := sy_held s - {#i#}\<rparr>)"
proof -
  have ok: "sys_ok ops vw U s" "pool_inv (sy_pool s)" "pool_univ (sy_pool s) = U"
    using inv by (simp_all add: sys_ok_def)
  have p: "pool_inv p" "pool_free p = i # pool_free (sy_pool s)" "pool_univ p = U"
    using pool.release_held [OF ok(2), of i ws] r ok(3) h by auto
  have "own_step (sys_abs vw s) (sys_abs vw (s\<lparr>sy_pool := p, sy_held := sy_held s - {#i#}\<rparr>))"
    using own_give [of "sys_abs vw s" i "sy_held s - {#i#}"] h(1) p(2) by (simp add: sys_abs_def)
  then show ?thesis using sys_ok_pool [OF ok(1) release_geometry [OF r] p(1,3)] by (simp add: sys_moves_def)
qed

lemma kernel_moves:
  assumes "sys_inv ops vw U s"
  shows "sys_moves ops vw U s (s\<lparr>sy_engine := (sy_engine s)\<lparr>ring := so_kernel ops t (ring (sy_engine s))\<rparr>\<rparr>)"
proof -
  have ok: "sys_ok ops vw U s" using assms by (simp add: sys_inv_def)
  then have doc: "kernel_documented (so_lib ops) (sv_ring vw) (sv_consumed vw) (so_kernel ops) (sv_entries vw)"
    by (simp add: sys_ok_def)
  show ?thesis using ok kernel_documentedD(7,8) [OF doc]
    by (simp add: sys_moves_def sys_ok_def sys_abs_def tokens_in_flight_def entry_tokens_def)
qed

text \<open>What the system relies on of its queues.\<close>

locale engine_queues =
  fixes ops :: "('rq, 'r, 'cq) system_ops" and vw :: "('rq, 'r, 'cq) system_view" and rlimit :: nat
  assumes requests: "bounded_queue (so_pop ops ws) (sv_ritems vw) (sv_rinv vw) (so_req_range ops) (so_push ops ws) rlimit"
    and completions: "bounded_queue (so_take ops ws) (sv_citems vw) (sv_cinv vw) (so_comp_range ops) (so_deliver ops ws) (sv_climit vw)"

sublocale engine_queues < rq: bounded_queue "so_pop ops ws" "sv_ritems vw" "sv_rinv vw" "so_req_range ops" "so_push ops ws" rlimit for ws
  by (rule requests)

sublocale engine_queues < cq: bounded_queue "so_take ops ws" "sv_citems vw" "sv_cinv vw" "so_comp_range ops" "so_deliver ops ws" "sv_climit vw" for ws
  by (rule completions)

sublocale engine_queues < req: request_queue "so_pop ops ws" "sv_ritems vw" "sv_rinv vw" "so_req_range ops" for ws
  by unfold_locales

sublocale engine_queues < comp: completion_queue "so_deliver ops ws" "sv_citems vw" "sv_cinv vw" "so_comp_range ops" "sv_climit vw" for ws
  by unfold_locales

context engine_queues
begin

lemma submit_moves:
  assumes inv: "sys_ok ops vw U s" and rng: "sys_range ops s" and h: "buffer_index x \<in># sy_held s"
    and x: "queued_ok (sy_pool s) x" and push: "so_push ops ws (sy_requests s) x = Some (ok, q)"
  shows "sys_moves ops vw U s (s\<lparr>sy_requests := q, sy_held := if ok then sy_held s - {#buffer_index x#} else sy_held s\<rparr>)"
proof -
  have okS: "sys_ok ops vw U s" and i: "sv_rinv vw (sy_requests s)" using inv by (simp_all add: sys_ok_def)
  show ?thesis
  proof (cases "length (sv_ritems vw (sy_requests s)) < rlimit")
    case True
    have "so_req_range ops (sy_requests s) (Suc 0)" using rng by (simp add: sys_range_def)
    from rq.push_room [OF i True this, of ws x] push
    have q: "ok" "sv_rinv vw q" "sv_ritems vw q = sv_ritems vw (sy_requests s) @ [x]" by auto
    have "own_step (sys_abs vw s) (sys_abs vw (s\<lparr>sy_requests := q, sy_held := sy_held s - {#buffer_index x#}\<rparr>))"
      using own_submit [of "sys_abs vw s" "buffer_index x" "sy_held s - {#buffer_index x#}"] h q(3)
      by (simp add: sys_abs_def)
    then show ?thesis using okS q x by (auto simp: sys_moves_def sys_ok_def)
  next
    case False
    with rq.items_limit [OF i] have "length (sv_ritems vw (sy_requests s)) = rlimit" by simp
    from rq.push_full [OF i this, of ws x] push okS show ?thesis by (simp add: sys_moves_def)
  qed
qed

lemma drain_moves:
  assumes inv: "sys_inv ops vw U s"
    and d: "drain_and_submit (so_lib ops) (so_pop ops ws) (sy_engine s) (sy_requests s) (sy_pool s) max_batch = Some (n, e, q)"
  shows "sys_moves ops vw U s (s\<lparr>sy_engine := e, sy_requests := q\<rparr>)"
proof -
  let ?items = "sv_ritems vw (sy_requests s)" and ?r = "ring (sy_engine s)"
  have ok: "sys_ok ops vw U s" and i: "sv_rinv vw (sy_requests s)"
    and doc: "kernel_documented (so_lib ops) (sv_ring vw) (sv_consumed vw) (so_kernel ops) (sv_entries vw)"
    using inv by (simp_all add: sys_inv_def sys_ok_def)
  obtain k where k: "drained (sv_rinv vw) (sv_ritems vw) (so_lib ops) (sv_ring vw) (sy_pool s) (unat max_batch) ?r (sy_requests s) k (ring e) q"
    "sv_consumed vw (ring e) = sv_consumed vw ?r"
    "entry_tokens (sv_ring vw) (ring e) = entry_tokens (sv_ring vw) ?r + mset (map token (take k ?items))"
    using req.drain_tokens [OF doc i, of ws "sy_engine s" "sy_pool s" max_batch] d by auto
  have q: "sv_rinv vw q" "sv_ritems vw q = drop k ?items" "view_entries (sv_ring vw) (ring e) =
      view_entries (sv_ring vw) ?r @ map (request_sqe (so_lib ops) (sy_pool s)) (take k ?items)"
    using k(1) sys_room [OF inv] by (auto simp: drained_def)
  have reqs: "queued_ok (sy_pool s) x" if "x \<in> set ?items" for x using ok that by (simp add: sys_ok_def)
  have "entry_ok (sy_pool s) (request_sqe (so_lib ops) (sy_pool s) x)" if "x \<in> set (take k ?items)" for x
    using reqs [OF in_set_takeD [OF that]] by (simp add: queued_ok_def entry_ok_def request_sqe_def)
  then have ok': "sys_ok ops vw U (s\<lparr>sy_engine := e, sy_requests := q\<rparr>)"
    using ok q reqs by (auto simp: sys_ok_def dest: in_set_dropD)
  obtain Y where "entry_tokens (sv_ring vw) ?r = sv_consumed vw ?r + Y"
    using consumed_le [OF doc] by (metis mset_subset_eq_exists_conv)
  then have "tokens_in_flight vw (ring e) = tokens_in_flight vw ?r + mset (map token (take k ?items))"
    unfolding tokens_in_flight_def k(2,3) by (simp add: add.assoc)
  moreover have "map (ucast \<circ> token) (take k ?items) = map buffer_index (take k ?items)"
    using reqs by (auto simp: queued_ok_def dest!: in_set_takeD)
  ultimately have fl: "image_mset ucast (tokens_in_flight vw (ring e)) =
      image_mset ucast (tokens_in_flight vw ?r) + mset (map buffer_index (take k ?items))"
    by (metis (no_types) image_mset_union mset_map map_map)
  have "own_queued (sys_abs vw s) = mset (map buffer_index (drop k ?items)) + mset (map buffer_index (take k ?items))"
    by (simp add: sys_abs_def) (metis append_take_drop_id image_mset_union mset_append union_commute)
  from own_begin [OF this] have "own_step (sys_abs vw s) (sys_abs vw (s\<lparr>sy_engine := e, sy_requests := q\<rparr>))"
    using fl q(2) by (simp add: sys_abs_def)
  with ok' show ?thesis by (simp add: sys_moves_def)
qed

lemma reap_moves:
  assumes inv: "sys_ok ops vw U s" and take: "so_take ops ws (sy_completions s) = Some (c, out)"
  shows "sys_moves ops vw U s (s\<lparr>sy_completions := out, sy_held := (case c of None \<Rightarrow> sy_held s
      | Some c \<Rightarrow> add_mset (ucast (comp_token c)) (sy_held s))\<rparr>)"
proof -
  have ok: "sys_ok ops vw U s" and i: "sv_cinv vw (sy_completions s)" using inv by (simp_all add: sys_ok_def)
  show ?thesis
  proof (cases "sv_citems vw (sy_completions s)")
    case Nil
    from cq.pop_empty [OF i Nil, of ws] take ok show ?thesis by (auto simp: sys_moves_def)
  next
    case (Cons x xs)
    from cq.pop_item [OF i Cons, of ws] take have c: "c = Some x" "sv_cinv vw out" "sv_citems vw out = xs" by auto
    have "own_step (sys_abs vw s) (sys_abs vw (s\<lparr>sy_completions := out, sy_held := add_mset (ucast (comp_token x)) (sy_held s)\<rparr>))"
      using own_reap [of "sys_abs vw s" "ucast (comp_token x)" "mset (map (ucast \<circ> comp_token) xs)"] Cons c(3)
      by (simp add: sys_abs_def)
    with ok c show ?thesis by (simp add: sys_moves_def sys_ok_def)
  qed
qed

text \<open>A call of a worker, whatever the engine is doing: it needs that no held buffer is free.\<close>

lemma worker_moves:
  assumes ok: "sys_ok ops vw U s" and rng: "sys_range ops s"
    and held: "\<And>i. i \<in># sy_held s \<Longrightarrow> i \<in> U \<and> i \<notin> set (pool_free (sy_pool s))" and st: "worker_step ops s t"
  shows "sys_moves ops vw U s t"
  using st
proof cases
  case sys_acquire
  then show ?thesis using acquire_moves [OF ok] by simp
next
  case (sys_release i)
  then show ?thesis using release_moves [OF ok sys_release(2)] held [OF sys_release(2)] by simp
next
  case sys_reap
  then show ?thesis using reap_moves [OF ok] by simp
next
  case (sys_submit req ws b q)
  have "queued_ok (sy_pool s) req" using sys_submit(3,4) by (simp add: queued_ok_def)
  from submit_moves [OF ok rng sys_submit(2) this sys_submit(5)] sys_submit(1) show ?thesis by simp
qed

lemma harvest_moves:
  assumes inv: "sys_inv ops vw U s" and rng: "sys_range ops s"
    and h: "harvest_completions (so_lib ops) (so_deliver ops ws) (sy_engine s) (sy_completions s) max_batch = Some (n, e, out)"
  shows "sys_moves ops vw U s (s\<lparr>sy_engine := e, sy_completions := out\<rparr>)"
proof -
  let ?r = "ring (sy_engine s)" and ?items = "sv_citems vw (sy_completions s)"
  let ?vis = "visible_cqes (so_lib ops) ?r" and ?k = "walk_count (so_lib ops) max_batch ?r"
  let ?ts = "map cqe_user_data (take ?k ?vis)"
  have ok: "sys_ok ops vw U s" and i: "sv_cinv vw (sy_completions s)" "pool_inv (sy_pool s)" "pool_univ (sy_pool s) = U"
    and doc: "kernel_documented (so_lib ops) (sv_ring vw) (sv_consumed vw) (so_kernel ops) (sv_entries vw)"
    using inv by (simp_all add: sys_inv_def sys_ok_def)
  have sub: "sv_consumed vw ?r + mset ?ts \<subseteq># entry_tokens (sv_ring vw) ?r"
    by (rule visible_prefix_le [OF doc])
  have size_ts: "length ?ts = ?k" by (simp add: walk_count_def)
  have kf: "?k \<le> size (tokens_in_flight vw ?r)"
    using size_mset_mono [OF sub] flight_size [OF ok, of ?r] size_ts by (simp add: entry_tokens_def)
  then have kU: "length ?items + ?k \<le> card U" using sys_sizes [OF inv] by linarith
  have "so_comp_range ops (sy_completions s) ?k"
    using rng kU card_pool_univ [OF i(2)] i(3) unfolding sys_range_def by (meson add_leE le_trans)
  moreover have "length ?items + ?k \<le> sv_climit vw" using kU ok by (simp add: sys_ok_def sys_fits_def)
  ultimately have out': "sv_cinv vw out" "sv_citems vw out = ?items @ map (completion_of (so_lib ops)) (take ?k ?vis)"
    "sv_consumed vw (ring e) = sv_consumed vw ?r + mset ?ts" "view_entries (sv_ring vw) (ring e) = view_entries (sv_ring vw) ?r"
    using comp.harvest_tokens [OF doc i(1), of max_batch "sy_engine s" ws] h by auto
  have "prep_documented (so_lib ops)" using kernel_documentedD(1) [OF doc] by (simp add: liburing_documented_def)
  then have tk: "map (ucast \<circ> comp_token :: _ \<Rightarrow> u32) (sv_citems vw out) = map (ucast \<circ> comp_token) ?items @ map ucast ?ts"
    using out'(2) by (simp add: completion_of_token)
  obtain Z where "entry_tokens (sv_ring vw) ?r = sv_consumed vw ?r + mset ?ts + Z"
    using sub by (metis mset_subset_eq_exists_conv)
  then have "tokens_in_flight vw ?r = tokens_in_flight vw (ring e) + mset ?ts"
    unfolding tokens_in_flight_def out'(3) entry_tokens_def out'(4) by (simp add: add.assoc)
  then have "own_flight (sys_abs vw s) = image_mset ucast (tokens_in_flight vw (ring e)) + image_mset ucast (mset ?ts)"
    by (simp add: sys_abs_def)
  from own_finish [OF this] have "own_step (sys_abs vw s) (sys_abs vw (s\<lparr>sy_engine := e, sy_completions := out\<rparr>))"
    using tk by (simp add: sys_abs_def flip: mset_map)
  moreover have "sys_ok ops vw U (s\<lparr>sy_engine := e, sy_completions := out\<rparr>)"
    using ok out'(1,4) by (simp add: sys_ok_def)
  ultimately show ?thesis by (simp add: sys_moves_def)
qed

lemma step_moves:
  assumes "sys_inv ops vw U s" and "sys_step_in ops s t"
  shows "sys_moves ops vw U s t"
proof -
  have st: "sys_step ops s t" and rng: "sys_range ops s" using assms(2) by (simp_all add: sys_step_in_def)
  from st show ?thesis
  proof cases
    case sys_worker
    have "i \<in> U \<and> i \<notin> set (pool_free (sy_pool s))" if "i \<in># sy_held s" for i
      using place_unique [of "sys_abs vw s" U i] assms(1) that by (simp add: sys_inv_def sys_abs_def)
    with sys_worker show ?thesis using worker_moves [OF _ rng] assms(1) by (simp add: sys_inv_def)
  next
    case sys_drain
    then show ?thesis using drain_moves [OF assms(1)] by simp
  next
    case sys_kernel
    then show ?thesis using kernel_moves [OF assms(1)] by simp
  next
    case sys_harvest
    then show ?thesis using harvest_moves [OF assms(1) rng] by simp
  qed
qed

lemma system_simulation:
  "forward_simulation (sys_start ops vw U) (sys_step_in ops) (sys_inv ops vw U) (sys_abs vw) (own_start U) own_step"
proof unfold_locales
  show "sys_inv ops vw U s" if "sys_start ops vw U s" for s
    using sys_start_abs [OF that] by (auto simp: sys_inv_def own_start_def own_all_def)
  show "sys_inv ops vw U t" if "sys_inv ops vw U s" "sys_step_in ops s t" for s t
    using step_moves [OF that] that(1) by (auto simp: sys_moves_def sys_inv_def own_step_all)
  show "own_start U (sys_abs vw s)" if "sys_start ops vw U s" for s
    using sys_start_abs [OF that] by simp
  show "sys_abs vw t = sys_abs vw s \<or> own_step (sys_abs vw s) (sys_abs vw t)"
    if "sys_inv ops vw U s" "sys_step_in ops s t" for s t
    using step_moves [OF that] by (simp add: sys_moves_def)
qed

end

sublocale engine_queues < sys: forward_simulation "sys_start ops vw U" "sys_step_in ops" "sys_inv ops vw U" "sys_abs vw" "own_start U" own_step for U
  by (rule system_simulation)

context engine_queues
begin

lemma calls_return:
  assumes inv: "sys_inv ops vw U s" and rng: "sys_range ops s" and big: "card U \<le> unat max_batch"
  shows "\<exists>k e q. drain_and_submit (so_lib ops) (so_pop ops ws) (sy_engine s) (sy_requests s) (sy_pool s) max_batch
      = Some (k, e, q) \<and> sv_ritems vw q = []"
    and "\<exists>k e out. harvest_completions (so_lib ops) (so_deliver ops ws) (sy_engine s) (sy_completions s) max_batch
      = Some (k, e, out) \<and> sv_citems vw out = sv_citems vw (sy_completions s) @
          map (completion_of (so_lib ops)) (visible_cqes (so_lib ops) (ring (sy_engine s)))"
    and "\<exists>c out. so_take ops ws (sy_completions s) = Some (c, out) \<and> (c = None \<longleftrightarrow> sv_citems vw (sy_completions s) = [])"
proof -
  let ?r = "ring (sy_engine s)"
  have ok: "sys_ok ops vw U s" and i: "sv_rinv vw (sy_requests s)" "sv_cinv vw (sy_completions s)" "pool_inv (sy_pool s)" "pool_univ (sy_pool s) = U"
    and doc: "kernel_documented (so_lib ops) (sv_ring vw) (sv_consumed vw) (so_kernel ops) (sv_entries vw)"
    using inv by (simp_all add: sys_inv_def sys_ok_def)
  note sizes = sys_sizes [OF inv]
  obtain k e q where d: "drain_and_submit (so_lib ops) (so_pop ops ws) (sy_engine s) (sy_requests s) (sy_pool s) max_batch = Some (of_nat k, e, q)"
    "drained (sv_rinv vw) (sv_ritems vw) (so_lib ops) (sv_ring vw) (sy_pool s) (unat max_batch) ?r (sy_requests s) k (ring e) q"
    using req.drain_tokens [OF doc i(1)] by blast
  have "sv_ritems vw q = []" using d(2) sys_room [OF inv] sizes big by (auto simp: drained_def)
  with d(1) show "\<exists>k e q. drain_and_submit (so_lib ops) (so_pop ops ws) (sy_engine s) (sy_requests s) (sy_pool s) max_batch
      = Some (k, e, q) \<and> sv_ritems vw q = []" by blast
  have "length (visible_cqes (so_lib ops) ?r) \<le> size (tokens_in_flight vw ?r)"
    using size_mset_mono [OF visible_prefix_le [OF doc, of ?r "length (visible_cqes (so_lib ops) ?r)"]] flight_size [OF ok, of ?r]
    by (simp add: entry_tokens_def)
  then have k: "walk_count (so_lib ops) max_batch ?r = length (visible_cqes (so_lib ops) ?r)"
    "length (sv_citems vw (sy_completions s)) + length (visible_cqes (so_lib ops) ?r) \<le> card U"
    using sizes big by (simp_all add: walk_count_def)
  then have "so_comp_range ops (sy_completions s) (walk_count (so_lib ops) max_batch ?r)"
    using rng card_pool_univ [OF i(3)] i(4) unfolding sys_range_def by simp
  moreover have "length (sv_citems vw (sy_completions s)) + walk_count (so_lib ops) max_batch ?r \<le> sv_climit vw"
    using k ok by (simp add: sys_ok_def sys_fits_def)
  ultimately show "\<exists>k e out. harvest_completions (so_lib ops) (so_deliver ops ws) (sy_engine s) (sy_completions s) max_batch
      = Some (k, e, out) \<and> sv_citems vw out = sv_citems vw (sy_completions s) @
          map (completion_of (so_lib ops)) (visible_cqes (so_lib ops) ?r)"
    using comp.harvest_tokens [OF doc i(2)] k(1) by fastforce
  show "\<exists>c out. so_take ops ws (sy_completions s) = Some (c, out) \<and> (c = None \<longleftrightarrow> sv_citems vw (sy_completions s) = [])"
    using cq.pop_empty [OF i(2)] cq.pop_item [OF i(2)] by (cases "sv_citems vw (sy_completions s)") fastforce+
qed

end

lemma pool_calls_return:
  assumes inv: "sys_inv ops vw U s"
  shows "\<exists>i p. acquire ws (sy_pool s) = Some (i, p) \<and> (i = kInvalidIndex \<longleftrightarrow> pool_free (sy_pool s) = [])"
    and "i \<in># sy_held s \<Longrightarrow> \<exists>p. release ws (sy_pool s) i = Some p"
proof -
  have ok: "pool_inv (sy_pool s)" "pool_univ (sy_pool s) = U" using inv by (simp_all add: sys_inv_def sys_ok_def)
  show "\<exists>i p. acquire ws (sy_pool s) = Some (i, p) \<and> (i = kInvalidIndex \<longleftrightarrow> pool_free (sy_pool s) = [])"
  proof (cases "pool_free (sy_pool s)")
    case Nil
    with pool.acquire_empty [OF ok(1)] show ?thesis by blast
  next
    case (Cons x xs)
    have "x \<noteq> kInvalidIndex" using pool.free_univ [OF ok(1)] pool.invalid_univ [OF ok(1)] Cons by auto
    with Cons pool.acquire_first [OF ok(1) Cons, of ws] show ?thesis by auto
  qed
  show "i \<in># sy_held s \<Longrightarrow> \<exists>p. release ws (sy_pool s) i = Some p"
    using place_unique [of "sys_abs vw s" U i] inv pool.release_held [OF ok(1), of i ws] ok(2)
    by (auto simp: sys_inv_def sys_abs_def)
qed

section \<open>The system over the two rings\<close>

definition mpmc_system :: "size_t \<Rightarrow> size_t \<Rightarrow> 'r liburing \<Rightarrow> (nat \<Rightarrow> 'r \<Rightarrow> 'r) \<Rightarrow>
    (IoRequest mpmc_ring, 'r, IoCompletion mpmc_ring) system_ops" where
  "mpmc_system rcap ccap lib kern = \<lparr>so_lib = lib, so_kernel = kern,
     so_push = mpmc_try_push rcap, so_pop = mpmc_try_pop rcap,
     so_deliver = mpmc_try_push ccap, so_take = mpmc_try_pop ccap,
     so_req_range = mpmc_can_issue rcap, so_comp_range = mpmc_can_issue ccap\<rparr>"

definition mpmc_view :: "size_t \<Rightarrow> size_t \<Rightarrow> 'r ring_view \<Rightarrow> ('r \<Rightarrow> u64 multiset) \<Rightarrow> nat \<Rightarrow>
    (IoRequest mpmc_ring, 'r, IoCompletion mpmc_ring) system_view" where
  "mpmc_view rcap ccap v consumed n = \<lparr>sv_ring = v, sv_consumed = consumed, sv_entries = n,
     sv_ritems = mpmc_items rcap, sv_rinv = mpmc_inv rcap,
     sv_citems = mpmc_items ccap, sv_cinv = mpmc_inv ccap, sv_climit = unat ccap\<rparr>"

definition spsc_system :: "size_t \<Rightarrow> size_t \<Rightarrow> 'r liburing \<Rightarrow> (nat \<Rightarrow> 'r \<Rightarrow> 'r) \<Rightarrow>
    (IoRequest spsc_ring, 'r, IoCompletion spsc_ring) system_ops" where
  "spsc_system rcap ccap lib kern = \<lparr>so_lib = lib, so_kernel = kern,
     so_push = (\<lambda>_ q x. Some (spsc_try_push rcap q x)), so_pop = (\<lambda>_ q. Some (spsc_try_pop rcap q)),
     so_deliver = (\<lambda>_ q x. Some (spsc_try_push ccap q x)), so_take = (\<lambda>_ q. Some (spsc_try_pop ccap q)),
     so_req_range = (\<lambda>_ _. True), so_comp_range = (\<lambda>_ _. True)\<rparr>"

definition spsc_view :: "size_t \<Rightarrow> size_t \<Rightarrow> 'r ring_view \<Rightarrow> ('r \<Rightarrow> u64 multiset) \<Rightarrow> nat \<Rightarrow>
    (IoRequest spsc_ring, 'r, IoCompletion spsc_ring) system_view" where
  "spsc_view rcap ccap v consumed n = \<lparr>sv_ring = v, sv_consumed = consumed, sv_entries = n,
     sv_ritems = spsc_items rcap, sv_rinv = spsc_inv rcap,
     sv_citems = spsc_items ccap, sv_cinv = spsc_inv ccap, sv_climit = unat ccap\<rparr>"

interpretation mpmc_sys: engine_queues "mpmc_system rcap ccap lib kern" "mpmc_view rcap ccap v consumed n" "unat rcap"
  for rcap ccap lib kern v consumed n
  by (rule engine_queues.intro) (simp_all add: mpmc_system_def mpmc_view_def mpmc.bounded_queue_axioms)

interpretation spsc_sys: engine_queues "spsc_system rcap ccap lib kern" "spsc_view rcap ccap v consumed n" "unat rcap"
  for rcap ccap lib kern v consumed n
  by (rule engine_queues.intro) (simp_all add: spsc_system_def spsc_view_def spsc.bounded_queue_axioms)

abbreviation mpmc_sys_reach :: "size_t \<Rightarrow> size_t \<Rightarrow> 'r liburing \<Rightarrow> (nat \<Rightarrow> 'r \<Rightarrow> 'r) \<Rightarrow> 'r ring_view \<Rightarrow> ('r \<Rightarrow> u64 multiset) \<Rightarrow>
    nat \<Rightarrow> u32 set \<Rightarrow> (IoRequest mpmc_ring, 'r, IoCompletion mpmc_ring) system \<Rightarrow> bool" where
  "mpmc_sys_reach rcap ccap lib kern v consumed n U \<equiv>
     reach (sys_start (mpmc_system rcap ccap lib kern) (mpmc_view rcap ccap v consumed n) U)
       (sys_step_in (mpmc_system rcap ccap lib kern))"

text \<open>A running system: three buffers, rings of four entries, one buffer acquired.\<close>

definition demo_sys :: "BufferPool \<Rightarrow> u32 multiset \<Rightarrow> (IoRequest mpmc_ring, ref_ring, IoCompletion mpmc_ring) system" where
  "demo_sys p h = \<lparr>sy_pool = p, sy_requests = MpmcRing 4 IoRequest_default, sy_engine = ref_start,
     sy_completions = MpmcRing 4 IoCompletion_default, sy_held = h\<rparr>"

definition demo_univ :: "u32 set" where
  "demo_univ = {i. unat i < 3}"

lemma demo_sys_start0:
  "sys_start (mpmc_system 4 4 (ref_lib 8) ref_kernel) (mpmc_view 4 4 (ref_view 8) ref_consumed 8) demo_univ
    (demo_sys (built_pool 65536 3 4096) {#})"
proof -
  have r: "mpmc_inv 4 (MpmcRing 4 d)" for d :: 'a
    by (rule MpmcRing_inv) (simp_all add: pow2_cap_def capacity_assert_def)
  have "card demo_univ \<le> card {..<3 :: nat}"
    by (intro card_inj_on_le [of unat]) (auto simp: demo_univ_def inj_on_def dest: unsigned_word_eqI)
  then have "sys_fits (mpmc_view 4 4 (ref_view 8) ref_consumed 8) demo_univ"
    by (simp add: sys_fits_def mpmc_view_def)
  moreover have "\<exists>env n sz calls. BufferPool_ctor env n sz = (Inr (built_pool 65536 3 4096), calls) \<and> unat n < 2 ^ 32 \<and>
      demo_univ = {i. unat i < unat n}"
    using demo_ctor by (intro exI [of _ demo_env] exI [of _ 3] exI [of _ 4096]) (simp add: demo_univ_def)
  ultimately show "sys_start (mpmc_system 4 4 (ref_lib 8) ref_kernel) (mpmc_view 4 4 (ref_view 8) ref_consumed 8) demo_univ
      (demo_sys (built_pool 65536 3 4096) {#})"
    using ref_kernel_documented [of 8]
    by (simp add: sys_start_def mpmc_system_def mpmc_view_def demo_sys_def r MpmcRing_items ref_view_entries
        ref_start_def ref_new_def ref_consumed_def)
qed

lemma demo_sys_start:
  "mpmc_sys_reach 4 4 (ref_lib 8) ref_kernel (ref_view 8) ref_consumed 8 demo_univ (demo_sys (built_pool 65536 3 4096) {#})"
  by (rule reach.reach_start) (rule demo_sys_start0)

lemma demo_sys_range: "pool_buffer_count p = 3 \<Longrightarrow> sys_range (mpmc_system 4 4 (ref_lib 8) ref_kernel) (demo_sys p h)"
  by (simp add: sys_range_def demo_sys_def mpmc_system_def mpmc_can_issue_def MpmcRing_def)

lemma demo_acquire:
  "\<exists>p. worker_step (mpmc_system 4 4 (ref_lib 8) ref_kernel) (demo_sys (built_pool 65536 3 4096) {#}) (demo_sys p {#2#}) \<and>
    pool_buffer_count p = 3"
proof -
  have fr: "pool_inv (built_pool 65536 3 4096)" "pool_free (built_pool 65536 3 4096) = [2, 1, 0]"
    using built_pool_ok [of 3 65536 4096] by (simp_all add: upt_rec)
  obtain p where p: "acquire [] (built_pool 65536 3 4096) = Some (2, p)"
    using pool.acquire_first [OF fr, of "[]"] by blast
  have "worker_step (mpmc_system 4 4 (ref_lib 8) ref_kernel) (demo_sys (built_pool 65536 3 4096) {#}) (demo_sys p {#2#})"
    using sys_acquire [of "[]" "demo_sys (built_pool 65536 3 4096) {#}" 2 p] p by (simp add: demo_sys_def kInvalidIndex_def)
  moreover have "pool_buffer_count (built_pool 65536 3 4096) = 3" by (simp add: pool_buffer_count_def built_pool_def)
  ultimately show ?thesis using same_geometryD(3) [OF acquire_geometry [OF p]] by auto
qed

lemma demo_sys_held:
  "\<exists>p. mpmc_sys_reach 4 4 (ref_lib 8) ref_kernel (ref_view 8) ref_consumed 8 demo_univ (demo_sys p {#2#}) \<and>
    pool_buffer_count p = 3"
proof -
  obtain p where p: "worker_step (mpmc_system 4 4 (ref_lib 8) ref_kernel) (demo_sys (built_pool 65536 3 4096) {#}) (demo_sys p {#2#})"
    "pool_buffer_count p = 3" using demo_acquire by blast
  have "pool_buffer_count (built_pool 65536 3 4096) = 3" by (simp add: pool_buffer_count_def built_pool_def)
  with sys_worker [OF p(1)] demo_sys_range
  have "sys_step_in (mpmc_system 4 4 (ref_lib 8) ref_kernel) (demo_sys (built_pool 65536 3 4096) {#}) (demo_sys p {#2#})"
    by (simp add: sys_step_in_def)
  from reach.reach_step [OF demo_sys_start this] p(2) show ?thesis by blast
qed

section \<open>Properties\<close>

text \<open>The running library refines the ownership of buffers. However the calls of workers, engine and
  kernel interleave (inside the range of the counters), with as many buffers as fit the submission queue
  and the completion queue, every reachable state is, through its abstraction, reachable in the
  specification: a buffer only moves from free to held, from held to free or to a queued request, from
  queued to in flight, from in flight to completed, and from completed to held.\<close>

lemma system_refines_ownership:
  assumes "mpmc_sys_reach rcap ccap lib kern v consumed n U s"
  shows "reach (own_start U) own_step (sys_abs (mpmc_view rcap ccap v consumed n) s)"
  using assms by (rule mpmc_sys.sys.reach_abs)

text \<open>No request, completion or buffer is lost or doubled, end to end: in every reachable state each
  buffer of the pool is at exactly one of the five places; a buffer a worker holds is not being
  transferred; no buffer has two transfers in flight; and every entry in the ring addresses the buffer
  of its token and no byte behind it.\<close>

lemma system_buffers_exclusive:
  assumes "mpmc_sys_reach rcap ccap lib kern v consumed n U s"
  shows "own_all (sys_abs (mpmc_view rcap ccap v consumed n) s) = mset_set U \<and>
    (\<forall>t \<in># tokens_in_flight (mpmc_view rcap ccap v consumed n) (ring (sy_engine s)).
       (ucast t :: u32) \<notin># sy_held s \<and> (ucast t :: u32) \<notin> set (pool_free (sy_pool s)) \<and>
       count (tokens_in_flight (mpmc_view rcap ccap v consumed n) (ring (sy_engine s))) t = 1) \<and>
    (\<forall>e \<in> set (view_entries v (ring (sy_engine s))).
       sqe_addr e = pool_data (sy_pool s) (ucast (sqe_user_data e)) \<and>
       unat (sqe_len e) \<le> unat (pool_buffer_size (sy_pool s)))"
proof (intro conjI ballI)
  let ?vw = "mpmc_view rcap ccap v consumed n"
  have inv: "sys_inv (mpmc_system rcap ccap lib kern) ?vw U s" using assms by (rule mpmc_sys.sys.reach_inv)
  then show all: "own_all (sys_abs ?vw s) = mset_set U" by (simp add: sys_inv_def)
  fix t assume t: "t \<in># tokens_in_flight ?vw (ring (sy_engine s))"
  have "own_flight (sys_abs ?vw s) = image_mset ucast (tokens_in_flight ?vw (ring (sy_engine s))) + {#}" by (simp add: sys_abs_def)
  from flight_exclusive [OF all this t] show "(ucast t :: u32) \<notin># sy_held s" "(ucast t :: u32) \<notin> set (pool_free (sy_pool s))"
    "count (tokens_in_flight ?vw (ring (sy_engine s))) t = 1" by (simp_all add: sys_abs_def)
next
  fix e assume "e \<in> set (view_entries v (ring (sy_engine s)))"
  moreover have "sys_inv (mpmc_system rcap ccap lib kern) (mpmc_view rcap ccap v consumed n) U s"
    using assms by (rule mpmc_sys.sys.reach_inv)
  ultimately show "sqe_addr e = pool_data (sy_pool s) (ucast (sqe_user_data e))"
    "unat (sqe_len e) \<le> unat (pool_buffer_size (sy_pool s))"
    by (simp_all add: sys_inv_def sys_ok_def mpmc_view_def entry_ok_def)
qed

text \<open>Nothing is stuck: in every reachable state (inside the range of the counters) every call
  returns. A drain that may take as many requests as there are buffers empties the request queue; such a
  harvest delivers everything the kernel has completed; a completion can be taken whenever one is there;
  a buffer can be acquired whenever one is free; and a held buffer can be released.\<close>

lemma system_calls_return:
  assumes "mpmc_sys_reach rcap ccap lib kern v consumed n U s"
    and "sys_range (mpmc_system rcap ccap lib kern) s" and "card U \<le> unat max_batch"
  shows "(\<exists>k e q. drain_and_submit lib (mpmc_try_pop rcap ws) (sy_engine s) (sy_requests s) (sy_pool s) max_batch
       = Some (k, e, q) \<and> mpmc_items rcap q = []) \<and>
    (\<exists>k e out. harvest_completions lib (mpmc_try_push ccap ws) (sy_engine s) (sy_completions s) max_batch
       = Some (k, e, out) \<and> mpmc_items ccap out = mpmc_items ccap (sy_completions s) @
           map (completion_of lib) (visible_cqes lib (ring (sy_engine s)))) \<and>
    (\<exists>c out. mpmc_try_pop ccap ws (sy_completions s) = Some (c, out) \<and> (c = None \<longleftrightarrow> mpmc_items ccap (sy_completions s) = [])) \<and>
    (\<exists>i p. acquire ws (sy_pool s) = Some (i, p) \<and> (i = kInvalidIndex \<longleftrightarrow> pool_free (sy_pool s) = [])) \<and>
    (\<forall>i \<in># sy_held s. \<exists>p. release ws (sy_pool s) i = Some p)"
proof -
  have inv: "sys_inv (mpmc_system rcap ccap lib kern) (mpmc_view rcap ccap v consumed n) U s"
    using assms(1) by (rule mpmc_sys.sys.reach_inv)
  from mpmc_sys.calls_return [OF inv assms(2,3), of ws] pool_calls_return(1) [OF inv, of ws] pool_calls_return(2) [OF inv, of _ ws] show ?thesis
    by (simp add: mpmc_system_def mpmc_view_def)
qed

end
