(* ===== verification/Engine_Threads.thy ===== *)
theory Engine_Threads
  imports Engine_System
begin

text \<open>
  The engine thread split at its shared accesses. In \<open>Engine_System\<close> each call of the engine is one step;
  here \<open>drain_and_submit\<close> and \<open>harvest_completions\<close> take one step per pop, per entry filled, per completion
  pushed, for the submit and for the advance, and workers and kernel act in between: requests arrive while
  the engine drains, entries complete while it walks the completion ring (the walk reads the tail again at
  every entry), and a worker can reap a completion and queue its buffer again before the engine has
  advanced the ring over it. The specification is the ownership of buffers, as for the coarse model.
\<close>

section \<open>The engine thread\<close>

text \<open>Where the engine is: between calls; at the head of the drain loop; with a request popped and no entry
  yet; before the submit; at the head of the walk; before the advance.\<close>

datatype engine_pc =
    E_idle
  | E_drain size_t size_t
  | E_popped size_t size_t IoRequest
  | E_submit size_t
  | E_harvest size_t size_t size_t
  | E_advance size_t size_t

record ('rq, 'r, 'cq) engine_sys =
  es_sys :: "('rq, 'r, 'cq) system"
  es_pc :: engine_pc
  es_ret :: size_t

definition es_ring :: "('rq, 'r, 'cq) engine_sys \<Rightarrow> 'r" where
  "es_ring s = ring (sy_engine (es_sys s))"

definition put_ring :: "'r \<Rightarrow> ('rq, 'r, 'cq) system \<Rightarrow> ('rq, 'r, 'cq) system" where
  "put_ring r s = s\<lparr>sy_engine := (sy_engine s)\<lparr>ring := r\<rparr>\<rparr>"

inductive engine_step :: "('rq, 'r, 'cq) system_ops \<Rightarrow> ('rq, 'r, 'cq) engine_sys \<Rightarrow> ('rq, 'r, 'cq) engine_sys \<Rightarrow> bool"
  for ops :: "('rq, 'r, 'cq) system_ops" where
  e_drain: "es_pc s = E_idle \<Longrightarrow> engine_step ops s (s\<lparr>es_pc := E_drain max_batch 0\<rparr>)"
| e_batch: "es_pc s = E_drain max_batch submitted \<Longrightarrow> \<not> submitted < max_batch \<Longrightarrow>
    engine_step ops s (s\<lparr>es_pc := E_submit submitted\<rparr>)"
| e_empty: "es_pc s = E_drain max_batch submitted \<Longrightarrow> submitted < max_batch \<Longrightarrow>
    so_pop ops ws (sy_requests (es_sys s)) = Some (None, q) \<Longrightarrow>
    engine_step ops s (s\<lparr>es_sys := (es_sys s)\<lparr>sy_requests := q\<rparr>, es_pc := E_submit submitted\<rparr>)"
| e_pop: "es_pc s = E_drain max_batch submitted \<Longrightarrow> submitted < max_batch \<Longrightarrow>
    so_pop ops ws (sy_requests (es_sys s)) = Some (Some req, q) \<Longrightarrow>
    engine_step ops s (s\<lparr>es_sys := (es_sys s)\<lparr>sy_requests := q\<rparr>, es_pc := E_popped max_batch submitted req\<rparr>)"
| e_full: "es_pc s = E_popped max_batch submitted req \<Longrightarrow> io_uring_get_sqe (so_lib ops) (es_ring s) = (None, r) \<Longrightarrow>
    engine_step ops s (s\<lparr>es_sys := put_ring r (es_sys s), es_pc := E_submit submitted\<rparr>)"
| e_fill: "es_pc s = E_popped max_batch submitted req \<Longrightarrow> io_uring_get_sqe (so_lib ops) (es_ring s) = (Some pos, r) \<Longrightarrow>
    engine_step ops s (s\<lparr>es_sys := put_ring (store_sqe (so_lib ops) r pos
        (fill_sqe (so_lib ops) (sy_pool (es_sys s)) req (load_sqe (so_lib ops) r pos))) (es_sys s),
      es_pc := E_drain max_batch (submitted + 1)\<rparr>)"
| e_submit: "es_pc s = E_submit submitted \<Longrightarrow>
    engine_step ops s (s\<lparr>es_sys := put_ring (if submitted > 0 then snd (io_uring_submit (so_lib ops) (es_ring s))
        else es_ring s) (es_sys s), es_pc := E_idle, es_ret := submitted\<rparr>)"
| e_harvest: "es_pc s = E_idle \<Longrightarrow> engine_step ops s (s\<lparr>es_pc := E_harvest max_batch 0 0\<rparr>)"
| e_deliver: "es_pc s = E_harvest max_batch walked delivered \<Longrightarrow>
    unat walked < length (visible_cqes (so_lib ops) (es_ring s)) \<Longrightarrow> \<not> walked \<ge> max_batch \<Longrightarrow>
    so_deliver ops ws (sy_completions (es_sys s))
      (completion_of (so_lib ops) (visible_cqes (so_lib ops) (es_ring s) ! unat walked)) = Some (ok, out) \<Longrightarrow>
    engine_step ops s (s\<lparr>es_sys := (es_sys s)\<lparr>sy_completions := out\<rparr>,
      es_pc := E_harvest max_batch (walked + 1) (if ok then delivered + 1 else delivered)\<rparr>)"
| e_walked: "es_pc s = E_harvest max_batch walked delivered \<Longrightarrow>
    length (visible_cqes (so_lib ops) (es_ring s)) \<le> unat walked \<or> walked \<ge> max_batch \<Longrightarrow>
    engine_step ops s (s\<lparr>es_pc := E_advance walked delivered\<rparr>)"
| e_advance: "es_pc s = E_advance walked delivered \<Longrightarrow>
    engine_step ops s (s\<lparr>es_sys := put_ring (if walked > 0 then io_uring_cq_advance (so_lib ops) (es_ring s) (ucast walked)
        else es_ring s) (es_sys s), es_pc := E_idle, es_ret := delivered\<rparr>)"

text \<open>The engine, the workers and the kernel in any order, inside the range of the queues' counters.\<close>

inductive eng_step :: "('rq, 'r, 'cq) system_ops \<Rightarrow> ('rq, 'r, 'cq) engine_sys \<Rightarrow> ('rq, 'r, 'cq) engine_sys \<Rightarrow> bool"
  for ops :: "('rq, 'r, 'cq) system_ops" where
  eng_own: "engine_step ops s t \<Longrightarrow> eng_step ops s t"
| eng_worker: "worker_step ops (es_sys s) t \<Longrightarrow> eng_step ops s (s\<lparr>es_sys := t\<rparr>)"
| eng_kernel: "eng_step ops s (s\<lparr>es_sys := put_ring (so_kernel ops t (es_ring s)) (es_sys s)\<rparr>)"

definition eng_step_in :: "('rq, 'r, 'cq) system_ops \<Rightarrow> ('rq, 'r, 'cq) engine_sys \<Rightarrow> ('rq, 'r, 'cq) engine_sys \<Rightarrow> bool" where
  "eng_step_in ops s t \<longleftrightarrow> eng_step ops s t \<and> sys_range ops (es_sys s)"

section \<open>Abstraction and invariant\<close>

text \<open>A popped request counts as in flight; a completion that was walked no longer does, although the ring
  is not advanced over it yet.\<close>

fun pc_popped :: "engine_pc \<Rightarrow> u32 multiset" where
  "pc_popped (E_popped _ _ req) = {#buffer_index req#}"
| "pc_popped _ = {#}"

fun pc_walked :: "engine_pc \<Rightarrow> nat" where
  "pc_walked (E_harvest _ walked _) = unat walked"
| "pc_walked (E_advance walked _) = unat walked"
| "pc_walked _ = 0"

definition walked_tokens :: "'r liburing \<Rightarrow> engine_pc \<Rightarrow> 'r \<Rightarrow> u64 multiset" where
  "walked_tokens lib pc r = mset (map cqe_user_data (take (pc_walked pc) (visible_cqes lib r)))"

definition eng_tokens :: "('rq, 'r, 'cq) system_ops \<Rightarrow> ('rq, 'r, 'cq) system_view \<Rightarrow> engine_pc \<Rightarrow> 'r \<Rightarrow> u64 multiset" where
  "eng_tokens ops vw pc r = tokens_in_flight vw r - walked_tokens (so_lib ops) pc r"

definition eng_abs :: "('rq, 'r, 'cq) system_ops \<Rightarrow> ('rq, 'r, 'cq) system_view \<Rightarrow> ('rq, 'r, 'cq) engine_sys \<Rightarrow> ownership" where
  "eng_abs ops vw s = (sys_abs vw (es_sys s))\<lparr>own_flight :=
     image_mset ucast (eng_tokens ops vw (es_pc s) (es_ring s)) + pc_popped (es_pc s)\<rparr>"

text \<open>The kernel only adds completions behind those that are visible.\<close>

definition kernel_appends :: "'r liburing \<Rightarrow> (nat \<Rightarrow> 'r \<Rightarrow> 'r) \<Rightarrow> bool" where
  "kernel_appends lib kern \<longleftrightarrow> (\<forall>t r. \<exists>more. visible_cqes lib (kern t r) = visible_cqes lib r @ more)"

fun engine_pc_ok :: "BufferPool \<Rightarrow> nat \<Rightarrow> engine_pc \<Rightarrow> bool" where
  "engine_pc_ok p visible (E_drain max_batch submitted) \<longleftrightarrow> submitted \<le> max_batch"
| "engine_pc_ok p visible (E_popped max_batch submitted req) \<longleftrightarrow> submitted < max_batch \<and> queued_ok p req"
| "engine_pc_ok p visible (E_harvest max_batch walked delivered) \<longleftrightarrow> walked \<le> max_batch \<and> unat walked \<le> visible"
| "engine_pc_ok p visible (E_advance walked delivered) \<longleftrightarrow> unat walked \<le> visible"
| "engine_pc_ok p visible _ \<longleftrightarrow> True"

definition eng_ok :: "('rq, 'r, 'cq) system_ops \<Rightarrow> ('rq, 'r, 'cq) system_view \<Rightarrow> u32 set \<Rightarrow> ('rq, 'r, 'cq) engine_sys \<Rightarrow> bool" where
  "eng_ok ops vw U s \<longleftrightarrow> sys_ok ops vw U (es_sys s) \<and> kernel_appends (so_lib ops) (so_kernel ops) \<and>
     engine_pc_ok (sy_pool (es_sys s)) (length (visible_cqes (so_lib ops) (es_ring s))) (es_pc s)"

definition eng_inv :: "('rq, 'r, 'cq) system_ops \<Rightarrow> ('rq, 'r, 'cq) system_view \<Rightarrow> u32 set \<Rightarrow> ('rq, 'r, 'cq) engine_sys \<Rightarrow> bool" where
  "eng_inv ops vw U s \<longleftrightarrow> eng_ok ops vw U s \<and> own_all (eng_abs ops vw s) = mset_set U"

definition eng_start :: "('rq, 'r, 'cq) system_ops \<Rightarrow> ('rq, 'r, 'cq) system_view \<Rightarrow> u32 set \<Rightarrow> ('rq, 'r, 'cq) engine_sys \<Rightarrow> bool" where
  "eng_start ops vw U s \<longleftrightarrow> sys_start ops vw U (es_sys s) \<and> kernel_appends (so_lib ops) (so_kernel ops) \<and> es_pc s = E_idle"

definition eng_moves :: "('rq, 'r, 'cq) system_ops \<Rightarrow> ('rq, 'r, 'cq) system_view \<Rightarrow> u32 set \<Rightarrow>
    ('rq, 'r, 'cq) engine_sys \<Rightarrow> ('rq, 'r, 'cq) engine_sys \<Rightarrow> bool" where
  "eng_moves ops vw U s t \<longleftrightarrow> eng_ok ops vw U t \<and>
     (eng_abs ops vw t = eng_abs ops vw s \<or> own_step (eng_abs ops vw s) (eng_abs ops vw t))"

lemma ring_put [simp]:
  "ring (sy_engine (put_ring r s)) = r" "sy_pool (put_ring r s) = sy_pool s" "sy_requests (put_ring r s) = sy_requests s"
  "sy_completions (put_ring r s) = sy_completions s" "sy_held (put_ring r s) = sy_held s"
  by (simp_all add: put_ring_def)

lemma put_ring_update [simp]:
  "(put_ring r s)\<lparr>sy_requests := q\<rparr> = put_ring r (s\<lparr>sy_requests := q\<rparr>)" "put_ring r' (put_ring r s) = put_ring r' s"
  by (cases s; simp add: put_ring_def)+

lemma sys_ok_ring:
  assumes "sys_ok ops vw U s" and "\<And>e. e \<in> set (view_entries (sv_ring vw) r) \<Longrightarrow> entry_ok (sy_pool s) e"
  shows "sys_ok ops vw U (put_ring r s)"
  using assms by (simp add: sys_ok_def)

lemma sys_ok_entries:
  "sys_ok ops vw U s \<Longrightarrow> view_entries (sv_ring vw) r = view_entries (sv_ring vw) (ring (sy_engine s)) \<Longrightarrow>
   sys_ok ops vw U (put_ring r s)"
  by (rule sys_ok_ring) (simp_all add: sys_ok_def)

lemmas eng_defs = eng_ok_def eng_abs_def eng_tokens_def walked_tokens_def es_ring_def

section \<open>Steps of workers and kernel\<close>

lemma own_step_flight:
  assumes "own_step a b" and "own_flight b = own_flight a"
  shows "own_step (a\<lparr>own_flight := F\<rparr>) (b\<lparr>own_flight := F\<rparr>)"
  using assms
proof cases
  case (own_take i H)
  then show ?thesis using own_step.own_take [of "a\<lparr>own_flight := F\<rparr>" i H] by (cases a) simp
next
  case (own_give i H)
  then show ?thesis using own_step.own_give [of "a\<lparr>own_flight := F\<rparr>" i H] by (cases a) simp
next
  case (own_submit i H)
  then show ?thesis using own_step.own_submit [of "a\<lparr>own_flight := F\<rparr>" i H] by (cases a) simp
next
  case (own_begin Q X)
  then show ?thesis using own_step.own_begin [of "a\<lparr>own_flight := F\<rparr>" Q "{#}"] assms(2) by (cases a) simp
next
  case (own_finish G X)
  then show ?thesis using own_step.own_finish [of "a\<lparr>own_flight := F\<rparr>" F "{#}"] assms(2) by (cases a) simp
next
  case (own_reap i D)
  then show ?thesis using own_step.own_reap [of "a\<lparr>own_flight := F\<rparr>" i D] by (cases a) simp
qed

lemma same_geometry_refl: "same_geometry p p"
  by (simp add: same_geometry_def)

lemma worker_step_frame:
  assumes "worker_step ops s t"
  shows "sy_engine t = sy_engine s" and "same_geometry (sy_pool s) (sy_pool t)"
proof -
  show "sy_engine t = sy_engine s" using assms by cases simp_all
  show "same_geometry (sy_pool s) (sy_pool t)" using assms
    by cases (simp_all add: acquire_geometry release_geometry same_geometry_refl)
qed

lemma held_not_free:
  assumes "eng_inv ops vw U s" and "i \<in># sy_held (es_sys s)"
  shows "i \<in> U \<and> i \<notin> set (pool_free (sy_pool (es_sys s)))"
  using place_unique [of "eng_abs ops vw s" U i] assms by (simp add: eng_inv_def eng_abs_def sys_abs_def)

lemma kernel_eng_moves:
  assumes "eng_inv ops vw U s"
  shows "eng_moves ops vw U s (s\<lparr>es_sys := put_ring (so_kernel ops t (es_ring s)) (es_sys s)\<rparr>)"
proof -
  let ?r = "es_ring s" and ?r' = "so_kernel ops t (es_ring s)" and ?lib = "so_lib ops"
  have ok: "sys_ok ops vw U (es_sys s)" "kernel_appends ?lib (so_kernel ops)"
    "engine_pc_ok (sy_pool (es_sys s)) (length (visible_cqes ?lib ?r)) (es_pc s)"
    using assms by (simp_all add: eng_inv_def eng_ok_def)
  then have doc: "kernel_documented ?lib (sv_ring vw) (sv_consumed vw) (so_kernel ops) (sv_entries vw)"
    by (simp add: sys_ok_def)
  obtain more where more: "visible_cqes ?lib ?r' = visible_cqes ?lib ?r @ more"
    using ok(2) unfolding kernel_appends_def by blast
  have w: "pc_walked (es_pc s) \<le> length (visible_cqes ?lib ?r)" using ok(3) by (cases "es_pc s") simp_all
  have "engine_pc_ok (sy_pool (es_sys s)) (length (visible_cqes ?lib ?r')) (es_pc s)"
    using ok(3) unfolding more by (cases "es_pc s") simp_all
  moreover have "sys_ok ops vw U (put_ring ?r' (es_sys s))"
    using ok(1) kernel_documentedD(8) [OF doc] by (intro sys_ok_entries) (simp_all add: es_ring_def)
  moreover have "eng_tokens ops vw (es_pc s) ?r' = eng_tokens ops vw (es_pc s) ?r"
    using kernel_documentedD(7,8) [OF doc] w
    by (simp add: eng_tokens_def walked_tokens_def more tokens_in_flight_def entry_tokens_def)
  ultimately show ?thesis using ok(2)
    by (simp add: eng_moves_def eng_ok_def eng_abs_def es_ring_def sys_abs_def)
qed

section \<open>Steps of the engine\<close>

lemma eng_invD:
  assumes "eng_inv ops vw U s"
  shows "sys_ok ops vw U (es_sys s)" and "kernel_appends (so_lib ops) (so_kernel ops)"
    and "engine_pc_ok (sy_pool (es_sys s)) (length (visible_cqes (so_lib ops) (es_ring s))) (es_pc s)"
    and "kernel_documented (so_lib ops) (sv_ring vw) (sv_consumed vw) (so_kernel ops) (sv_entries vw)"
    and "prep_documented (so_lib ops)"
proof -
  show ok: "sys_ok ops vw U (es_sys s)" "kernel_appends (so_lib ops) (so_kernel ops)"
    "engine_pc_ok (sy_pool (es_sys s)) (length (visible_cqes (so_lib ops) (es_ring s))) (es_pc s)"
    using assms by (simp_all add: eng_inv_def eng_ok_def)
  from ok(1) show doc: "kernel_documented (so_lib ops) (sv_ring vw) (sv_consumed vw) (so_kernel ops) (sv_entries vw)"
    by (simp add: sys_ok_def)
  from kernel_documentedD(1) [OF doc] show "prep_documented (so_lib ops)" by (simp add: liburing_documented_def)
qed

text \<open>The buffers bound everything that is under way.\<close>

lemma eng_sizes:
  assumes "eng_inv ops vw U s"
  shows "length (sv_ritems vw (sy_requests (es_sys s))) + size (eng_tokens ops vw (es_pc s) (es_ring s)) +
    size (pc_popped (es_pc s)) + length (sv_citems vw (sy_completions (es_sys s))) \<le> card U"
proof -
  have "size (own_all (eng_abs ops vw s)) = card U" using assms by (simp add: eng_inv_def)
  then show ?thesis by (simp add: own_all_def eng_abs_def sys_abs_def)
qed

lemma walked_le:
  assumes "eng_inv ops vw U s"
  shows "sv_consumed vw (es_ring s) + mset (map cqe_user_data (take k (visible_cqes (so_lib ops) (es_ring s))))
    \<subseteq># entry_tokens (sv_ring vw) (es_ring s)"
  by (rule visible_prefix_le [OF eng_invD(4) [OF assms]])

text \<open>With a request popped there is a vacant entry, so that \<open>io_uring_get_sqe\<close> does not return null.\<close>

lemma popped_room:
  assumes inv: "eng_inv ops vw U s" and pc: "es_pc s = E_popped max_batch submitted req"
  shows "view_room (sv_ring vw) (es_ring s) \<noteq> 0"
proof -
  note ok = eng_invD(1) [OF inv]
  have "1 + size (tokens_in_flight vw (es_ring s)) \<le> card U"
    using eng_sizes [OF inv] by (simp add: pc eng_tokens_def walked_tokens_def)
  moreover have "card U \<le> sv_entries vw" using ok by (simp add: sys_ok_def sys_fits_def)
  ultimately show ?thesis
    using kernel_documentedD(9) [OF eng_invD(4) [OF inv], of "es_ring s"] flight_size [OF ok, of "es_ring s"] by linarith
qed

lemma fill_moves:
  assumes inv: "eng_inv ops vw U s" and pc: "es_pc s = E_popped max_batch submitted req"
    and get: "io_uring_get_sqe (so_lib ops) (es_ring s) = (Some pos, r)"
  shows "eng_moves ops vw U s (s\<lparr>es_sys := put_ring (store_sqe (so_lib ops) r pos
        (fill_sqe (so_lib ops) (sy_pool (es_sys s)) req (load_sqe (so_lib ops) r pos))) (es_sys s),
      es_pc := E_drain max_batch (submitted + 1)\<rparr>)"
proof -
  let ?e = "request_sqe (so_lib ops) (sy_pool (es_sys s)) req"
  let ?r = "store_sqe (so_lib ops) r pos ?e"
  note ok = eng_invD(1,2) [OF inv] and doc = eng_invD(4) [OF inv]
  have f: "fill_sqe (so_lib ops) (sy_pool (es_sys s)) req (load_sqe (so_lib ops) r pos) = ?e"
    by (rule fill_sqe_request [OF eng_invD(5) [OF inv]])
  have sq: "sq_documented (so_lib ops) (sv_ring vw)"
    using kernel_documentedD(1) [OF doc] by (simp add: liburing_documented_def)
  have ent: "view_entries (sv_ring vw) ?r = view_entries (sv_ring vw) (es_ring s) @ [?e]"
    using get_sqe_room [OF sq popped_room [OF inv pc]] get by (metis view_entries_def append.assoc option.inject prod.inject)
  have q: "queued_ok (sy_pool (es_sys s)) req" "submitted < max_batch" using eng_invD(3) [OF inv] by (simp_all add: pc)
  have "entry_ok (sy_pool (es_sys s)) ?e" using q by (simp add: queued_ok_def entry_ok_def request_sqe_def)
  then have "sys_ok ops vw U (put_ring ?r (es_sys s))"
    using ok(1) unfolding sys_ok_def ring_put ent by (simp add: es_ring_def)
  moreover have "submitted + 1 \<le> max_batch" using q(2) by (simp add: inc_le)
  moreover have "eng_tokens ops vw (E_drain max_batch (submitted + 1)) ?r = add_mset (token req) (eng_tokens ops vw (es_pc s) (es_ring s))"
  proof -
    obtain Y where "entry_tokens (sv_ring vw) (es_ring s) = sv_consumed vw (es_ring s) + Y"
      using consumed_le [OF doc] by (metis mset_subset_eq_exists_conv)
    moreover have "entry_tokens (sv_ring vw) ?r = add_mset (token req) (entry_tokens (sv_ring vw) (es_ring s))"
      unfolding entry_tokens_def ent by (simp add: request_sqe_def)
    ultimately show ?thesis
      using kernel_documentedD(3) [OF doc get] by (simp add: eng_tokens_def walked_tokens_def tokens_in_flight_def pc)
  qed
  ultimately show ?thesis unfolding f using ok(2) q(1)
    by (simp add: eng_moves_def eng_ok_def eng_abs_def es_ring_def sys_abs_def pc queued_ok_def)
qed

lemma submit_eng_moves:
  assumes inv: "eng_inv ops vw U s" and pc: "es_pc s = E_submit submitted"
  shows "eng_moves ops vw U s (s\<lparr>es_sys := put_ring (if submitted > 0 then snd (io_uring_submit (so_lib ops) (es_ring s))
        else es_ring s) (es_sys s), es_pc := E_idle, es_ret := submitted\<rparr>)"
proof -
  let ?r = "if submitted > 0 then snd (io_uring_submit (so_lib ops) (es_ring s)) else es_ring s"
  note ok = eng_invD(1,2) [OF inv] and doc = eng_invD(4) [OF inv]
  have sq: "sq_documented (so_lib ops) (sv_ring vw)"
    using kernel_documentedD(1) [OF doc] by (simp add: liburing_documented_def)
  have ent: "view_entries (sv_ring vw) ?r = view_entries (sv_ring vw) (es_ring s)" by (simp add: submit_entries [OF sq])
  then have "sys_ok ops vw U (put_ring ?r (es_sys s))"
    using ok(1) by (intro sys_ok_entries) (simp_all add: es_ring_def)
  moreover have "eng_tokens ops vw E_idle ?r = eng_tokens ops vw (es_pc s) (es_ring s)"
    using ent kernel_documentedD(4) [OF doc]
    by (simp add: eng_tokens_def walked_tokens_def tokens_in_flight_def entry_tokens_def pc)
  ultimately show ?thesis using ok(2)
    by (simp add: eng_moves_def eng_ok_def eng_abs_def es_ring_def sys_abs_def pc)
qed

lemma advance_moves:
  assumes inv: "eng_inv ops vw U s" and pc: "es_pc s = E_advance walked delivered"
  shows "eng_moves ops vw U s (s\<lparr>es_sys := put_ring (if walked > 0
        then io_uring_cq_advance (so_lib ops) (es_ring s) (ucast walked) else es_ring s) (es_sys s),
      es_pc := E_idle, es_ret := delivered\<rparr>)"
proof -
  let ?r = "if walked > 0 then io_uring_cq_advance (so_lib ops) (es_ring s) (ucast walked) else es_ring s"
  let ?vis = "visible_cqes (so_lib ops) (es_ring s)"
  note ok = eng_invD(1,2) [OF inv] and doc = eng_invD(4) [OF inv]
  have w: "unat walked \<le> length ?vis" using eng_invD(3) [OF inv] by (simp add: pc)
  moreover have "length ?vis < 2 ^ 32" using kernel_documentedD(2) [OF doc] by (simp add: cq_documented_def)
  ultimately have u: "unat (ucast walked :: u32) = unat walked" by (simp add: unsigned_ucast_eq take_bit_nat_eq_self)
  have c: "sv_consumed vw ?r = sv_consumed vw (es_ring s) + mset (map cqe_user_data (take (unat walked) ?vis))"
    and ent: "view_entries (sv_ring vw) ?r = view_entries (sv_ring vw) (es_ring s)"
    using kernel_documentedD(5,6) [OF doc, of "ucast walked" "es_ring s"] w u by (auto simp: word_gt_0)
  have "sys_ok ops vw U (put_ring ?r (es_sys s))"
    using ok(1) ent by (intro sys_ok_entries) (simp_all add: es_ring_def)
  moreover have "eng_tokens ops vw E_idle ?r = eng_tokens ops vw (es_pc s) (es_ring s)"
    unfolding eng_tokens_def walked_tokens_def tokens_in_flight_def entry_tokens_def c ent pc by simp
  ultimately show ?thesis using ok(2)
    by (simp add: eng_moves_def eng_ok_def eng_abs_def es_ring_def sys_abs_def pc)
qed

lemma local_moves:
  assumes inv: "eng_inv ops vw U s" and pc: "engine_pc_ok (sy_pool (es_sys s)) (length (visible_cqes (so_lib ops) (es_ring s))) pc"
    and same: "pc_walked pc = pc_walked (es_pc s)" "pc_popped pc = pc_popped (es_pc s)"
  shows "eng_moves ops vw U s (s\<lparr>es_pc := pc\<rparr>)"
  using eng_invD(1,2) [OF inv] pc same by (simp add: eng_moves_def eng_defs)

context engine_queues
begin

lemma pop_moves:
  assumes inv: "eng_inv ops vw U s" and pc: "es_pc s = E_drain max_batch submitted" and lt: "submitted < max_batch"
    and pop: "so_pop ops ws (sy_requests (es_sys s)) = Some (Some x, q)"
  shows "eng_moves ops vw U s (s\<lparr>es_sys := (es_sys s)\<lparr>sy_requests := q\<rparr>, es_pc := E_popped max_batch submitted x\<rparr>)"
proof -
  note ok = eng_invD(1,2) [OF inv]
  have i: "sv_rinv vw (sy_requests (es_sys s))" using ok(1) by (simp add: sys_ok_def)
  obtain xs where items: "sv_ritems vw (sy_requests (es_sys s)) = x # xs"
    using rq.pop_empty [OF i, of ws] rq.pop_item [OF i, of _ _ ws] pop
    by (cases "sv_ritems vw (sy_requests (es_sys s))") fastforce+
  have q: "sv_rinv vw q" "sv_ritems vw q = xs" using rq.pop_item [OF i items, of ws] pop by auto
  let ?t = "s\<lparr>es_sys := (es_sys s)\<lparr>sy_requests := q\<rparr>, es_pc := E_popped max_batch submitted x\<rparr>"
  have "eng_ok ops vw U ?t" using ok q items lt by (auto simp: eng_ok_def sys_ok_def)
  moreover have "own_queued (eng_abs ops vw s) = mset (map buffer_index xs) + {#buffer_index x#}"
    using items by (simp add: eng_abs_def sys_abs_def)
  from own_begin [OF this] have "own_step (eng_abs ops vw s) (eng_abs ops vw ?t)"
    using q(2) by (simp add: eng_abs_def sys_abs_def es_ring_def eng_tokens_def walked_tokens_def pc)
  ultimately show ?thesis by (simp add: eng_moves_def)
qed

lemma empty_moves:
  assumes inv: "eng_inv ops vw U s" and pc: "es_pc s = E_drain max_batch submitted"
    and pop: "so_pop ops ws (sy_requests (es_sys s)) = Some (None, q)"
  shows "eng_moves ops vw U s (s\<lparr>es_sys := (es_sys s)\<lparr>sy_requests := q\<rparr>, es_pc := E_submit submitted\<rparr>)"
proof -
  have i: "sv_rinv vw (sy_requests (es_sys s))" using eng_invD(1) [OF inv] by (simp add: sys_ok_def)
  have "sv_ritems vw (sy_requests (es_sys s)) = []"
    using rq.pop_item [OF i, of _ _ ws] pop by (cases "sv_ritems vw (sy_requests (es_sys s))") fastforce+
  then have "q = sy_requests (es_sys s)" using rq.pop_empty [OF i, of ws] pop by simp
  then have "s\<lparr>es_sys := (es_sys s)\<lparr>sy_requests := q\<rparr>, es_pc := E_submit submitted\<rparr> = s\<lparr>es_pc := E_submit submitted\<rparr>" by simp
  with local_moves [OF inv, of "E_submit submitted"] show ?thesis by (simp add: pc)
qed

lemma deliver_room:
  assumes inv: "eng_inv ops vw U s" and rng: "sys_range ops (es_sys s)" and pc: "es_pc s = E_harvest max_batch walked delivered"
    and w: "unat walked < length (visible_cqes (so_lib ops) (es_ring s))"
  shows "\<exists>out. so_deliver ops ws (sy_completions (es_sys s)) x = Some (True, out) \<and> sv_cinv vw out \<and>
      sv_citems vw out = sv_citems vw (sy_completions (es_sys s)) @ [x]"
    and "eng_tokens ops vw (es_pc s) (es_ring s) = add_mset (cqe_user_data (visible_cqes (so_lib ops) (es_ring s) ! unat walked))
      (eng_tokens ops vw (E_harvest max_batch (walked + 1) d) (es_ring s))"
proof -
  let ?vis = "visible_cqes (so_lib ops) (es_ring s)"
  note ok = eng_invD(1) [OF inv]
  have len: "length ?vis < 2 ^ 32" using kernel_documentedD(2) [OF eng_invD(4) [OF inv]] by (simp add: cq_documented_def)
  then have u: "unat (walked + 1) = Suc (unat walked)" using w by (intro unat_suc_small [THEN trans]) simp_all
  obtain Z where "entry_tokens (sv_ring vw) (es_ring s) = sv_consumed vw (es_ring s) +
      mset (map cqe_user_data (take (Suc (unat walked)) ?vis)) + Z"
    using walked_le [OF inv, of "Suc (unat walked)"] by (metis mset_subset_eq_exists_conv)
  then show t: "eng_tokens ops vw (es_pc s) (es_ring s) = add_mset (cqe_user_data (?vis ! unat walked))
      (eng_tokens ops vw (E_harvest max_batch (walked + 1) d) (es_ring s))"
    using w by (simp add: eng_tokens_def walked_tokens_def tokens_in_flight_def pc u take_Suc_conv_app_nth)
  have c: "length (sv_citems vw (sy_completions (es_sys s))) < card U"
    using eng_sizes [OF inv] unfolding t by simp
  have i: "sv_cinv vw (sy_completions (es_sys s))" "pool_inv (sy_pool (es_sys s))" "pool_univ (sy_pool (es_sys s)) = U"
    "card U \<le> sv_climit vw" using ok by (simp_all add: sys_ok_def sys_fits_def)
  have "Suc 0 \<le> unat (pool_buffer_count (sy_pool (es_sys s)))" using c card_pool_univ [OF i(2)] i(3) by simp
  then have "so_comp_range ops (sy_completions (es_sys s)) (Suc 0)" using rng by (simp add: sys_range_def)
  from cq.push_room [OF i(1) _ this, of ws x] c i(4)
  show "\<exists>out. so_deliver ops ws (sy_completions (es_sys s)) x = Some (True, out) \<and> sv_cinv vw out \<and>
      sv_citems vw out = sv_citems vw (sy_completions (es_sys s)) @ [x]" by auto
qed

lemma deliver_moves:
  assumes inv: "eng_inv ops vw U s" and rng: "sys_range ops (es_sys s)" and pc: "es_pc s = E_harvest max_batch walked delivered"
    and w: "unat walked < length (visible_cqes (so_lib ops) (es_ring s))" "\<not> walked \<ge> max_batch"
    and push: "so_deliver ops ws (sy_completions (es_sys s))
      (completion_of (so_lib ops) (visible_cqes (so_lib ops) (es_ring s) ! unat walked)) = Some (b, out)"
  shows "eng_moves ops vw U s (s\<lparr>es_sys := (es_sys s)\<lparr>sy_completions := out\<rparr>,
      es_pc := E_harvest max_batch (walked + 1) (if b then delivered + 1 else delivered)\<rparr>)"
proof -
  let ?c = "visible_cqes (so_lib ops) (es_ring s) ! unat walked" and ?d = "if b then delivered + 1 else delivered"
  let ?t = "s\<lparr>es_sys := (es_sys s)\<lparr>sy_completions := out\<rparr>, es_pc := E_harvest max_batch (walked + 1) ?d\<rparr>"
  note ok = eng_invD(1,2) [OF inv] and room = deliver_room [OF inv rng pc w(1)]
  have out: "sv_cinv vw out" "sv_citems vw out = sv_citems vw (sy_completions (es_sys s)) @ [completion_of (so_lib ops) ?c]"
    using room(1) [of ws "completion_of (so_lib ops) ?c"] push by auto
  have len: "length (visible_cqes (so_lib ops) (es_ring s)) < 2 ^ 32"
    using kernel_documentedD(2) [OF eng_invD(4) [OF inv]] by (simp add: cq_documented_def)
  then have u: "unat (walked + 1) = Suc (unat walked)" using w by (intro unat_suc_small [THEN trans]) simp_all
  have "walked + 1 \<le> max_batch" using w(2) by (simp add: inc_le)
  then have "eng_ok ops vw U ?t" using ok out(1) w(1) u by (simp add: eng_ok_def sys_ok_def es_ring_def)
  moreover have "own_flight (eng_abs ops vw s) =
      image_mset ucast (eng_tokens ops vw (E_harvest max_batch (walked + 1) ?d) (es_ring s)) + {#ucast (cqe_user_data ?c)#}"
    using room(2) [of ?d] by (simp add: eng_abs_def pc)
  from own_finish [OF this] have "own_step (eng_abs ops vw s) (eng_abs ops vw ?t)"
    using out(2) by (simp add: eng_abs_def sys_abs_def es_ring_def completion_of_token [OF eng_invD(5) [OF inv]])
  ultimately show ?thesis by (simp add: eng_moves_def)
qed

lemma engine_moves:
  assumes inv: "eng_inv ops vw U s" and rng: "sys_range ops (es_sys s)" and st: "engine_step ops s t"
  shows "eng_moves ops vw U s t"
  using st
proof cases
  case e_pop
  then show ?thesis using pop_moves [OF inv] by simp
next
  case e_empty
  then show ?thesis using empty_moves [OF inv] by simp
next
  case (e_full max_batch submitted req r)
  have "sq_documented (so_lib ops) (sv_ring vw)"
    using kernel_documentedD(1) [OF eng_invD(4) [OF inv]] by (simp add: liburing_documented_def)
  from get_sqe_room [OF this popped_room [OF inv e_full(2)]] e_full(3) show ?thesis by (metis option.distinct(1) prod.inject)
next
  case e_fill
  then show ?thesis using fill_moves [OF inv] by simp
next
  case e_submit
  then show ?thesis using submit_eng_moves [OF inv] by simp
next
  case e_deliver
  then show ?thesis using deliver_moves [OF inv rng] by simp
next
  case e_advance
  then show ?thesis using advance_moves [OF inv] by simp
qed (use local_moves [OF inv] eng_invD(3) [OF inv] in simp_all)

lemma eng_step_moves:
  assumes inv: "eng_inv ops vw U s" and st: "eng_step_in ops s t"
  shows "eng_moves ops vw U s t"
proof -
  have rng: "sys_range ops (es_sys s)" and "eng_step ops s t" using st by (simp_all add: eng_step_in_def)
  from this(2) show ?thesis
  proof cases
    case eng_own
    with engine_moves [OF inv rng] show ?thesis .
  next
    case eng_kernel
    then show ?thesis using kernel_eng_moves [OF inv] by simp
  next
    case (eng_worker u)
    have mv: "sys_moves ops vw U (es_sys s) u"
      by (rule worker_moves [OF eng_invD(1) [OF inv] rng held_not_free [OF inv] eng_worker(2)])
    note fr = worker_step_frame [OF eng_worker(2)]
    have "engine_pc_ok (sy_pool u) (length (visible_cqes (so_lib ops) (es_ring s))) (es_pc s)"
      using eng_invD(3) [OF inv] same_geometryD [OF fr(2)] by (cases "es_pc s") (simp_all add: queued_ok_def)
    then have ok: "eng_ok ops vw U t" using mv eng_invD(2) [OF inv] fr(1) eng_worker(1)
      by (simp add: sys_moves_def eng_ok_def es_ring_def)
    have "own_flight (sys_abs vw u) = own_flight (sys_abs vw (es_sys s))" using fr(1) by (simp add: sys_abs_def)
    with own_step_flight [OF _ this] mv have "eng_abs ops vw t = eng_abs ops vw s \<or> own_step (eng_abs ops vw s) (eng_abs ops vw t)"
      using fr(1) eng_worker(1) by (auto simp: sys_moves_def eng_abs_def es_ring_def)
    with ok show ?thesis by (simp add: eng_moves_def)
  qed
qed

lemma eng_start_ok:
  assumes "eng_start ops vw U s"
  shows "eng_ok ops vw U s \<and> own_start U (eng_abs ops vw s)"
  using sys_start_abs [of ops vw U "es_sys s"] assms
  by (auto simp: eng_start_def eng_ok_def eng_abs_def own_start_def eng_tokens_def walked_tokens_def sys_abs_def es_ring_def)

lemma engine_simulation:
  "forward_simulation (eng_start ops vw U) (eng_step_in ops) (eng_inv ops vw U) (eng_abs ops vw) (own_start U) own_step"
proof unfold_locales
  show "eng_inv ops vw U s" if "eng_start ops vw U s" for s
    using eng_start_ok [OF that] by (auto simp: eng_inv_def own_start_def own_all_def)
  show "eng_inv ops vw U t" if "eng_inv ops vw U s" "eng_step_in ops s t" for s t
    using eng_step_moves [OF that] that(1) by (auto simp: eng_moves_def eng_inv_def own_step_all)
  show "own_start U (eng_abs ops vw s)" if "eng_start ops vw U s" for s
    using eng_start_ok [OF that] by simp
  show "eng_abs ops vw t = eng_abs ops vw s \<or> own_step (eng_abs ops vw s) (eng_abs ops vw t)"
    if "eng_inv ops vw U s" "eng_step_in ops s t" for s t
    using eng_step_moves [OF that] by (simp add: eng_moves_def)
qed

end

sublocale engine_queues < eng: forward_simulation "eng_start ops vw U" "eng_step_in ops" "eng_inv ops vw U" "eng_abs ops vw" "own_start U" own_step for U
  by (rule engine_simulation)

section \<open>The calls of the engine are runs of its steps\<close>

lemma drain_loop_cases:
  assumes "drain_loop lib pop pool max_batch submitted r q = Some (n, r', q')"
  obtains (batch) "\<not> submitted < max_batch" "n = submitted" "r' = r" "q' = q"
  | (none) "submitted < max_batch" "pop q = Some (None, q')" "n = submitted" "r' = r"
  | (full) req where "submitted < max_batch" "pop q = Some (Some req, q')" "io_uring_get_sqe lib r = (None, r')" "n = submitted"
  | (fill) req q1 pos r1 where "submitted < max_batch" "pop q = Some (Some req, q1)" "io_uring_get_sqe lib r = (Some pos, r1)"
      "drain_loop lib pop pool max_batch (submitted + 1) (store_sqe lib r1 pos (fill_sqe lib pool req (load_sqe lib r1 pos))) q1 =
         Some (n, r', q')"
  using assms by (subst (asm) drain_loop.simps) (auto split: if_splits option.splits prod.splits)

lemma drain_loop_run:
  assumes "drain_loop (so_lib ops) (so_pop ops ws) (sy_pool y) max_batch submitted r q = Some (n, r', q')"
  shows "(engine_step ops)\<^sup>*\<^sup>* \<lparr>es_sys = put_ring r (y\<lparr>sy_requests := q\<rparr>), es_pc = E_drain max_batch submitted, es_ret = v\<rparr>
    \<lparr>es_sys = put_ring r' (y\<lparr>sy_requests := q'\<rparr>), es_pc = E_submit n, es_ret = v\<rparr>"
  using assms
proof (induction "so_lib ops" "so_pop ops ws" "sy_pool y" max_batch submitted r q rule: drain_loop.induct)
  case (1 max_batch submitted r q)
  let ?st = "\<lambda>r q pc. \<lparr>es_sys = put_ring r (y\<lparr>sy_requests := q\<rparr>), es_pc = pc, es_ret = v\<rparr>"
  let ?s = "?st r q (E_drain max_batch submitted)"
  have pop: "engine_step ops ?s (?st r q1 (E_popped max_batch submitted req))"
    if "submitted < max_batch" "so_pop ops ws q = Some (Some req, q1)" for req q1
    using e_pop [of ?s max_batch submitted ops ws req q1] that by simp
  from "1.prems" show ?case
  proof (cases rule: drain_loop_cases)
    case batch
    with e_batch [of ?s max_batch submitted ops] show ?thesis by auto
  next
    case none
    with e_empty [of ?s max_batch submitted ops ws q'] have "engine_step ops ?s (?st r' q' (E_submit n))" by simp
    then show ?thesis ..
  next
    case (full req)
    with e_full [of "?st r q' (E_popped max_batch submitted req)" max_batch submitted req ops r']
    have "engine_step ops (?st r q' (E_popped max_batch submitted req)) (?st r' q' (E_submit n))" by (simp add: es_ring_def)
    with pop [OF full(1,2)] show ?thesis by (meson converse_rtranclp_into_rtranclp rtranclp.rtrancl_refl)
  next
    case (fill req q1 pos r1)
    let ?u = "?st r q1 (E_popped max_batch submitted req)"
      and ?r = "store_sqe (so_lib ops) r1 pos (fill_sqe (so_lib ops) (sy_pool y) req (load_sqe (so_lib ops) r1 pos))"
    have "engine_step ops ?u (?st ?r q1 (E_drain max_batch (submitted + 1)))"
      using e_fill [of ?u max_batch submitted req ops pos r1] fill(3) by (simp add: es_ring_def)
    with "1.hyps" [OF fill(1,2) refl refl fill(3) [symmetric] refl fill(4)] pop [OF fill(1,2)]
    show ?thesis by (meson converse_rtranclp_into_rtranclp)
  qed
qed

lemma drain_run:
  assumes "drain_and_submit (so_lib ops) (so_pop ops ws) (sy_engine y) (sy_requests y) (sy_pool y) max_batch = Some (n, e, q)"
  shows "(engine_step ops)\<^sup>*\<^sup>* \<lparr>es_sys = y, es_pc = E_idle, es_ret = v\<rparr>
    \<lparr>es_sys = y\<lparr>sy_engine := e, sy_requests := q\<rparr>, es_pc = E_idle, es_ret = n\<rparr>"
proof -
  obtain r where r: "drain_loop (so_lib ops) (so_pop ops ws) (sy_pool y) max_batch 0 (ring (sy_engine y)) (sy_requests y) = Some (n, r, q)"
    "e = (sy_engine y)\<lparr>ring := if n > 0 then snd (io_uring_submit (so_lib ops) r) else r\<rparr>"
    using assms by (auto simp: drain_and_submit_def split: option.splits)
  let ?s = "\<lparr>es_sys = y, es_pc = E_idle, es_ret = v\<rparr>"
  let ?m = "\<lparr>es_sys = put_ring (ring (sy_engine y)) (y\<lparr>sy_requests := sy_requests y\<rparr>), es_pc = E_drain max_batch 0, es_ret = v\<rparr>"
  let ?u = "\<lparr>es_sys = put_ring r (y\<lparr>sy_requests := q\<rparr>), es_pc = E_submit n, es_ret = v\<rparr>"
  have "engine_step ops ?s ?m" using e_drain [of ?s ops max_batch] by (simp add: put_ring_def)
  moreover have "(engine_step ops)\<^sup>*\<^sup>* ?m ?u" by (rule drain_loop_run [OF r(1)])
  moreover have "engine_step ops ?u \<lparr>es_sys = y\<lparr>sy_engine := e, sy_requests := q\<rparr>, es_pc = E_idle, es_ret = n\<rparr>"
    using e_submit [of ?u n ops] r(2) by (cases y; cases "n > 0") (simp_all add: put_ring_def es_ring_def)
  ultimately show ?thesis by (meson converse_rtranclp_into_rtranclp rtranclp.rtrancl_into_rtrancl)
qed

lemma harvest_loop_run:
  assumes "harvest_loop (so_lib ops) (so_deliver ops ws) max_batch cs walked delivered out = Some (w, d, out')"
    and "drop (unat walked) (visible_cqes (so_lib ops) (ring (sy_engine y))) = cs"
    and "length (visible_cqes (so_lib ops) (ring (sy_engine y))) < 2 ^ 32"
  shows "(engine_step ops)\<^sup>*\<^sup>* \<lparr>es_sys = y\<lparr>sy_completions := out\<rparr>, es_pc = E_harvest max_batch walked delivered, es_ret = v\<rparr>
    \<lparr>es_sys = y\<lparr>sy_completions := out'\<rparr>, es_pc = E_advance w d, es_ret = v\<rparr>"
  using assms
proof (induction cs arbitrary: walked delivered out)
  case Nil
  let ?s = "\<lparr>es_sys = y\<lparr>sy_completions := out\<rparr>, es_pc = E_harvest max_batch walked delivered, es_ret = v\<rparr>"
  from e_walked [of ?s max_batch walked delivered ops] Nil show ?case by (auto simp: es_ring_def)
next
  case (Cons c cs)
  let ?s = "\<lparr>es_sys = y\<lparr>sy_completions := out\<rparr>, es_pc = E_harvest max_batch walked delivered, es_ret = v\<rparr>"
  show ?case
  proof (cases "walked \<ge> max_batch")
    case True
    with e_walked [of ?s max_batch walked delivered ops] Cons.prems(1) show ?thesis by auto
  next
    case False
    then obtain b o1 where b: "so_deliver ops ws out (completion_of (so_lib ops) c) = Some (b, o1)"
      "harvest_loop (so_lib ops) (so_deliver ops ws) max_batch cs (walked + 1) (if b then delivered + 1 else delivered) o1 = Some (w, d, out')"
      using Cons.prems(1) by (auto split: option.splits prod.splits)
    have lt: "unat walked < length (visible_cqes (so_lib ops) (ring (sy_engine y)))"
      using Cons.prems(2) by (metis drop_eq_Nil list.distinct(1) not_le)
    have c: "visible_cqes (so_lib ops) (ring (sy_engine y)) ! unat walked = c"
      "drop (Suc (unat walked)) (visible_cqes (so_lib ops) (ring (sy_engine y))) = cs"
      using Cons.prems(2) lt by (simp_all add: Cons_nth_drop_Suc [symmetric])
    have "unat (walked + 1) = Suc (unat walked)" using lt Cons.prems(3) by (intro unat_suc_small [THEN trans]) simp_all
    then have "drop (unat (walked + 1)) (visible_cqes (so_lib ops) (ring (sy_engine y))) = cs" using c(2) by simp
    from Cons.IH [OF b(2) this Cons.prems(3)] e_deliver [of ?s max_batch walked delivered ops ws b o1] False lt c(1) b(1)
    show ?thesis by (simp add: es_ring_def converse_rtranclp_into_rtranclp)
  qed
qed

lemma harvest_run:
  assumes "cq_documented (so_lib ops)"
    and "harvest_completions (so_lib ops) (so_deliver ops ws) (sy_engine y) (sy_completions y) max_batch = Some (n, e, out)"
  shows "(engine_step ops)\<^sup>*\<^sup>* \<lparr>es_sys = y, es_pc = E_idle, es_ret = v\<rparr>
    \<lparr>es_sys = y\<lparr>sy_engine := e, sy_completions := out\<rparr>, es_pc = E_idle, es_ret = n\<rparr>"
proof -
  let ?vis = "visible_cqes (so_lib ops) (ring (sy_engine y))"
  obtain w where w: "harvest_loop (so_lib ops) (so_deliver ops ws) max_batch ?vis 0 0 (sy_completions y) = Some (w, n, out)"
    "e = (sy_engine y)\<lparr>ring := if w > 0 then io_uring_cq_advance (so_lib ops) (ring (sy_engine y)) (ucast w) else ring (sy_engine y)\<rparr>"
    using assms(2) by (auto simp: harvest_completions_def split: option.splits)
  let ?s = "\<lparr>es_sys = y, es_pc = E_idle, es_ret = v\<rparr>"
  let ?m = "\<lparr>es_sys = y\<lparr>sy_completions := sy_completions y\<rparr>, es_pc = E_harvest max_batch 0 0, es_ret = v\<rparr>"
  let ?u = "\<lparr>es_sys = y\<lparr>sy_completions := out\<rparr>, es_pc = E_advance w n, es_ret = v\<rparr>"
  have "engine_step ops ?s ?m" using e_harvest [of ?s ops max_batch] by simp
  moreover have "(engine_step ops)\<^sup>*\<^sup>* ?m ?u"
    by (rule harvest_loop_run [OF w(1)]) (use assms(1) in \<open>simp_all add: cq_documented_def\<close>)
  moreover have "engine_step ops ?u \<lparr>es_sys = y\<lparr>sy_engine := e, sy_completions := out\<rparr>, es_pc = E_idle, es_ret = n\<rparr>"
    using e_advance [of ?u w n ops] w(2) by (cases y; cases "w > 0") (simp_all add: put_ring_def es_ring_def)
  ultimately show ?thesis by (meson converse_rtranclp_into_rtranclp rtranclp.rtrancl_into_rtrancl)
qed

section \<open>The engine never waits\<close>

text \<open>Own steps to the end of the call at most.\<close>

fun engine_rank :: "engine_pc \<Rightarrow> nat" where
  "engine_rank E_idle = 0"
| "engine_rank (E_drain max_batch submitted) = 2 * (unat max_batch - unat submitted) + 2"
| "engine_rank (E_popped max_batch submitted req) = 2 * (unat max_batch - unat submitted) + 1"
| "engine_rank (E_submit submitted) = 1"
| "engine_rank (E_harvest max_batch walked delivered) = unat max_batch - unat walked + 2"
| "engine_rank (E_advance walked delivered) = 1"

lemma unat_room:
  fixes k m :: size_t
  assumes "k < m"
  shows "unat m - unat k = Suc (unat m - unat (k + 1))"
proof -
  have "unat (k + 1) = Suc (unat k)" "unat k < unat m" using assms by unat_arith+
  then show ?thesis by simp
qed

lemma engine_step_rank:
  assumes "engine_step ops s t" and "es_pc s \<noteq> E_idle"
    and "engine_pc_ok (sy_pool (es_sys s)) visible (es_pc s)"
  shows "engine_rank (es_pc t) < engine_rank (es_pc s)"
  using assms(1)
proof cases
  case (e_fill max_batch submitted)
  then have "submitted < max_batch" using assms(3) by simp
  from unat_room [OF this] e_fill show ?thesis by simp
next
  case (e_deliver max_batch walked)
  then have "walked < max_batch" by simp
  from unat_room [OF this] e_deliver show ?thesis by simp
next
  case (e_full max_batch submitted)
  then have "submitted < max_batch" using assms(3) by simp
  from unat_room [OF this] e_full show ?thesis by simp
qed (use assms(2) in simp_all)

context engine_queues
begin

lemma engine_enabled:
  assumes inv: "eng_inv ops vw U s" and rng: "sys_range ops (es_sys s)"
  shows "\<exists>t. engine_step ops s t"
proof (cases "es_pc s")
  case (E_drain max_batch submitted)
  have i: "sv_rinv vw (sy_requests (es_sys s))" using eng_invD(1) [OF inv] by (simp add: sys_ok_def)
  show ?thesis
  proof (cases "sv_ritems vw (sy_requests (es_sys s))")
    case Nil
    from rq.pop_empty [OF i this, of "[]"] e_empty [OF E_drain] e_batch [OF E_drain] show ?thesis by blast
  next
    case (Cons x xs)
    from rq.pop_item [OF i this, of "[]"] e_pop [OF E_drain] e_batch [OF E_drain] show ?thesis by blast
  qed
next
  case (E_popped max_batch submitted req)
  obtain g r where "io_uring_get_sqe (so_lib ops) (es_ring s) = (g, r)" by fastforce
  with e_full [OF E_popped] e_fill [OF E_popped] show ?thesis by (cases g) blast+
next
  case (E_harvest max_batch walked delivered)
  show ?thesis
  proof (cases "unat walked < length (visible_cqes (so_lib ops) (es_ring s)) \<and> \<not> walked \<ge> max_batch")
    case True
    with deliver_room(1) [OF inv rng E_harvest, of "[]"] e_deliver [OF E_harvest, of ops "[]"] show ?thesis by blast
  next
    case False
    with e_walked [OF E_harvest, of ops] show ?thesis by fastforce
  qed
qed (blast intro: e_drain e_submit e_advance)+

end

section \<open>The engine over the two rings\<close>

abbreviation mpmc_eng_reach :: "size_t \<Rightarrow> size_t \<Rightarrow> 'r liburing \<Rightarrow> (nat \<Rightarrow> 'r \<Rightarrow> 'r) \<Rightarrow> 'r ring_view \<Rightarrow> ('r \<Rightarrow> u64 multiset) \<Rightarrow>
    nat \<Rightarrow> u32 set \<Rightarrow> (IoRequest mpmc_ring, 'r, IoCompletion mpmc_ring) engine_sys \<Rightarrow> bool" where
  "mpmc_eng_reach rcap ccap lib kern v consumed n U \<equiv>
     reach (eng_start (mpmc_system rcap ccap lib kern) (mpmc_view rcap ccap v consumed n) U)
       (eng_step_in (mpmc_system rcap ccap lib kern))"

lemma ref_kernel_appends: "kernel_appends (ref_lib n) ref_kernel"
  unfolding kernel_appends_def
proof (intro allI)
  fix t and r :: ref_ring
  let ?f = "\<lambda>e. \<lparr>cqe_user_data = sqe_user_data e, cqe_res = 512\<rparr>" and ?d = "max (ref_done r) (ref_sub r)"
  have "take ?d (ref_entries r) = take (ref_done r) (ref_entries r) @ drop (ref_done r) (take ?d (ref_entries r))"
    by (metis append_take_drop_id min.absorb1 max.cobounded1 take_take)
  then have "map ?f (take ?d (ref_entries r)) = map ?f (take (ref_done r) (ref_entries r)) @ map ?f (drop (ref_done r) (take ?d (ref_entries r)))"
    by (metis map_append)
  then have "visible_cqes (ref_lib n) (ref_kernel t r) = take 4096 (drop (ref_seen r) (map ?f (take (ref_done r) (ref_entries r))) @
      drop (ref_seen r - length (take (ref_done r) (ref_entries r))) (map ?f (drop (ref_done r) (take ?d (ref_entries r)))))"
    by (simp add: ref_lib_def ref_visible_def ref_kernel_def)
  then show "\<exists>more. visible_cqes (ref_lib n) (ref_kernel t r) = visible_cqes (ref_lib n) r @ more"
    by (simp add: ref_lib_def ref_visible_def)
qed

text \<open>A worker acquires a buffer while the engine is inside a drain.\<close>

definition demo_eng :: "BufferPool \<Rightarrow> u32 multiset \<Rightarrow> engine_pc \<Rightarrow> (IoRequest mpmc_ring, ref_ring, IoCompletion mpmc_ring) engine_sys" where
  "demo_eng p h pc = \<lparr>es_sys = demo_sys p h, es_pc = pc, es_ret = 0\<rparr>"

lemma demo_eng_mid:
  "\<exists>p. mpmc_eng_reach 4 4 (ref_lib 8) ref_kernel (ref_view 8) ref_consumed 8 demo_univ (demo_eng p {#2#} (E_drain 32 0)) \<and>
    pool_buffer_count p = 3"
proof -
  let ?ops = "mpmc_system 4 4 (ref_lib 8) ref_kernel" and ?p = "built_pool 65536 3 4096"
  have "eng_start ?ops (mpmc_view 4 4 (ref_view 8) ref_consumed 8) demo_univ (demo_eng ?p {#} E_idle)"
    using demo_sys_start0 ref_kernel_appends [of 8] by (simp add: eng_start_def demo_eng_def mpmc_system_def)
  then have r0: "mpmc_eng_reach 4 4 (ref_lib 8) ref_kernel (ref_view 8) ref_consumed 8 demo_univ (demo_eng ?p {#} E_idle)"
    by (rule reach.reach_start)
  have c: "pool_buffer_count ?p = 3" by (simp add: pool_buffer_count_def built_pool_def)
  have "eng_step_in ?ops (demo_eng ?p {#} E_idle) (demo_eng ?p {#} (E_drain 32 0))"
    using eng_own [OF e_drain [of "demo_eng ?p {#} E_idle" ?ops 32]] demo_sys_range [OF c]
    by (simp add: eng_step_in_def demo_eng_def)
  from reach.reach_step [OF r0 this]
  have r1: "mpmc_eng_reach 4 4 (ref_lib 8) ref_kernel (ref_view 8) ref_consumed 8 demo_univ (demo_eng ?p {#} (E_drain 32 0))" .
  obtain p where p: "worker_step ?ops (demo_sys ?p {#}) (demo_sys p {#2#})" "pool_buffer_count p = 3"
    using demo_acquire by blast
  have "eng_step_in ?ops (demo_eng ?p {#} (E_drain 32 0)) (demo_eng p {#2#} (E_drain 32 0))"
    using eng_worker [of ?ops "demo_eng ?p {#} (E_drain 32 0)"] p(1) demo_sys_range [OF c]
    by (simp add: eng_step_in_def demo_eng_def)
  from reach.reach_step [OF r1 this] p(2) show ?thesis by blast
qed

section \<open>Properties\<close>



text \<open>(C2) No request, completion or buffer is lost or doubled, end to end and inside the calls of the engine:
  in every reachable state each buffer of the pool is at exactly one of the five places; a transfer the
  ring holds and the engine has not walked yet is of a buffer that no worker holds, that is not free and
  that the engine has not popped a second request for, and there is one such transfer per buffer; and
  every entry in the ring addresses the buffer of its token and no byte behind it.\<close>

theorem engine_threads_exclusive:
  assumes "mpmc_eng_reach rcap ccap lib kern v consumed n U s"
  shows "own_all (eng_abs (mpmc_system rcap ccap lib kern) (mpmc_view rcap ccap v consumed n) s) = mset_set U \<and>
    (\<forall>t \<in># eng_tokens (mpmc_system rcap ccap lib kern) (mpmc_view rcap ccap v consumed n) (es_pc s) (es_ring s).
       (ucast t :: u32) \<notin># sy_held (es_sys s) \<and> (ucast t :: u32) \<notin> set (pool_free (sy_pool (es_sys s))) \<and>
       (ucast t :: u32) \<notin># pc_popped (es_pc s) \<and>
       count (eng_tokens (mpmc_system rcap ccap lib kern) (mpmc_view rcap ccap v consumed n) (es_pc s) (es_ring s)) t = 1) \<and>
    (\<forall>e \<in> set (view_entries v (es_ring s)).
       sqe_addr e = pool_data (sy_pool (es_sys s)) (ucast (sqe_user_data e)) \<and>
       unat (sqe_len e) \<le> unat (pool_buffer_size (sy_pool (es_sys s))))"
proof -
  let ?ops = "mpmc_system rcap ccap lib kern" and ?vw = "mpmc_view rcap ccap v consumed n"
  have inv: "eng_inv ?ops ?vw U s" using assms by (rule mpmc_sys.eng.reach_inv)
  then have all: "own_all (eng_abs ?ops ?vw s) = mset_set U" by (simp add: eng_inv_def)
  have "own_flight (eng_abs ?ops ?vw s) = image_mset ucast (eng_tokens ?ops ?vw (es_pc s) (es_ring s)) + pc_popped (es_pc s)"
    by (simp add: eng_abs_def)
  note fl = flight_exclusive [OF all this]
  have "entry_ok (sy_pool (es_sys s)) e" if "e \<in> set (view_entries v (es_ring s))" for e
    using eng_invD(1) [OF inv] that by (simp add: sys_ok_def mpmc_view_def es_ring_def)
  with all fl show ?thesis by (simp add: eng_abs_def sys_abs_def entry_ok_def)
qed

theorem engine_threads_exclusive_witness:
  "\<exists>p. own_all (eng_abs (mpmc_system 4 4 (ref_lib 8) ref_kernel) (mpmc_view 4 4 (ref_view 8) ref_consumed 8)
     (demo_eng p {#2#} (E_drain 32 0))) = mset_set demo_univ"
  using demo_eng_mid engine_threads_exclusive by blast

text \<open>(C4) No step of the engine waits, whatever the workers and the kernel do: in every reachable state
  (inside the range of the counters) the engine can make a step; each of its own steps inside a call
  lowers the number of steps to the end of the call; and no call of a worker and no action of the kernel
  changes it. So \<open>drain_and_submit\<close> ends within \<open>2 * max_batch + 2\<close> and \<open>harvest_completions\<close> within
  \<open>max_batch + 2\<close> of its own steps, even while requests and completions keep arriving.\<close>

theorem engine_calls_wait_free:
  assumes "mpmc_eng_reach rcap ccap lib kern v consumed n U s"
    and "sys_range (mpmc_system rcap ccap lib kern) (es_sys s)"
  shows "(\<exists>t. engine_step (mpmc_system rcap ccap lib kern) s t) \<and>
    (es_pc s \<noteq> E_idle \<longrightarrow> (\<forall>t. engine_step (mpmc_system rcap ccap lib kern) s t \<longrightarrow>
       engine_rank (es_pc t) < engine_rank (es_pc s))) \<and>
    (\<forall>t. eng_step (mpmc_system rcap ccap lib kern) s t \<longrightarrow> engine_step (mpmc_system rcap ccap lib kern) s t \<or> es_pc t = es_pc s)"
proof -
  let ?ops = "mpmc_system rcap ccap lib kern"
  have inv: "eng_inv ?ops (mpmc_view rcap ccap v consumed n) U s" using assms(1) by (rule mpmc_sys.eng.reach_inv)
  show ?thesis
    using mpmc_sys.engine_enabled [OF inv assms(2)] engine_step_rank [OF _ _ eng_invD(3) [OF inv]]
    by (auto elim: eng_step.cases)
qed

theorem engine_calls_wait_free_witness:
  "\<exists>p t. engine_step (mpmc_system 4 4 (ref_lib 8) ref_kernel) (demo_eng p {#2#} (E_drain 32 0)) t"
proof -
  obtain p where p: "mpmc_eng_reach 4 4 (ref_lib 8) ref_kernel (ref_view 8) ref_consumed 8 demo_univ (demo_eng p {#2#} (E_drain 32 0))"
    "pool_buffer_count p = 3" using demo_eng_mid by blast
  have "sys_range (mpmc_system 4 4 (ref_lib 8) ref_kernel) (es_sys (demo_eng p {#2#} (E_drain 32 0)))"
    using demo_sys_range [OF p(2)] by (simp add: demo_eng_def)
  from engine_calls_wait_free [OF p(1) this] show ?thesis by blast
qed

end
