(* ===== verification/Bench_Support.thy ===== *)
theory Bench_Support
  imports Complex_Main Ringio_Prelude
begin

text \<open>
  The helpers of benchmarks/iops_throughput_benchmark.cpp: its constants, the environment override
  of the poller's idle time, the random block offsets, the scratch file with its descriptor
  handling, and the percentile and calls-per-operation counters. Files, the random distribution
  and floating-point arithmetic are parameters.
\<close>

section \<open>Constants\<close>

definition kBlockSize :: u32 where "kBlockSize = 4096"

definition kFileBlocks :: u64 where "kFileBlocks = 262144"

definition kFileBytes :: u64 where "kFileBytes = kFileBlocks * ucast kBlockSize"

definition kBurstDuration_ms :: int where "kBurstDuration_ms = 500"

definition kPipelinedThreadCounts :: "nat list" where "kPipelinedThreadCounts = [1, 2, 4, 8]"

definition kRingEntries :: u32 where "kRingEntries = 256"

text \<open>The queue depths the pipelined benchmarks are registered with.\<close>

definition queue_depth_args :: "nat list" where "queue_depth_args = [1, 8, 32, 64, 128]"

section \<open>Idle time of the poller\<close>

text \<open>\<open>strtol(s, nullptr, 10)\<close>: leading white space, a sign, the longest run of digits, clamped to
  the range of \<open>long\<close>.\<close>

definition is_space :: "char \<Rightarrow> bool" where
  "is_space c \<longleftrightarrow> c = CHR '' '' \<or> (9 \<le> (of_char c :: nat) \<and> (of_char c :: nat) \<le> 13)"

definition is_digit :: "char \<Rightarrow> bool" where
  "is_digit c \<longleftrightarrow> 48 \<le> (of_char c :: nat) \<and> (of_char c :: nat) \<le> 57"

definition digit_value :: "char \<Rightarrow> int" where
  "digit_value c = int (of_char c) - 48"

definition digits_value :: "string \<Rightarrow> int" where
  "digits_value s = foldl (\<lambda>n c. 10 * n + digit_value c) 0 (takeWhile is_digit s)"

definition strtol10 :: "string \<Rightarrow> int" where
  "strtol10 s =
     (let s = dropWhile is_space s;
          v = (case s of c # cs \<Rightarrow> if c = CHR ''-'' then - digits_value cs
                 else if c = CHR ''+'' then digits_value cs else digits_value s
               | [] \<Rightarrow> 0)
      in max (- (2 ^ 63)) (min (2 ^ 63 - 1) v))"

definition SqThreadIdleMs :: "string option \<Rightarrow> u32" where
  "SqThreadIdleMs env = (case env of None \<Rightarrow> 1000
     | Some s \<Rightarrow> (let parsed = strtol10 s in if parsed > 0 then word_of_int parsed else 1000))"

section \<open>Random offsets\<close>

text \<open>The distribution is a parameter: bounds and generator state to value and next state.\<close>

definition RandomBlockOffset :: "(u64 \<Rightarrow> u64 \<Rightarrow> 'g \<Rightarrow> u64 \<times> 'g) \<Rightarrow> 'g \<Rightarrow> u64 \<times> 'g" where
  "RandomBlockOffset draw rng = (let (v, rng') = draw 0 (kFileBlocks - 1) rng in (v * ucast kBlockSize, rng'))"

definition draw_documented :: "(u64 \<Rightarrow> u64 \<Rightarrow> 'g \<Rightarrow> u64 \<times> 'g) \<Rightarrow> bool" where
  "draw_documented draw \<longleftrightarrow> (\<forall>a b g. a \<le> b \<longrightarrow> a \<le> fst (draw a b g) \<and> fst (draw a b g) \<le> b)"

section \<open>The scratch file\<close>

text \<open>The answers of the file system to one call each, and the calls with their results.\<close>

record file_env =
  fe_mkstemp :: int
  fe_open :: int
  fe_ftruncate :: int

datatype file_call = Fc_mkstemp int | Fc_close int | Fc_open int | Fc_unlink | Fc_ftruncate int u64

definition MakeScratchFile :: "file_env \<Rightarrow> int \<times> file_call list" where
  "MakeScratchFile env =
     (let tmp_fd = fe_mkstemp env in
      if tmp_fd < 0 then (- 1, [Fc_mkstemp tmp_fd])
      else let fd = fe_open env;
               calls = [Fc_mkstemp tmp_fd, Fc_close tmp_fd, Fc_open fd, Fc_unlink] in
      if fd < 0 then (- 1, calls)
      else if fe_ftruncate env \<noteq> 0 then (- 1, calls @ [Fc_ftruncate fd kFileBytes, Fc_close fd])
      else (fd, calls @ [Fc_ftruncate fd kFileBytes]))"

text \<open>Open descriptors, whether the path exists, and the sizes set, after a sequence of calls.\<close>

fun fds_after :: "file_call list \<Rightarrow> int list \<Rightarrow> int list" where
  "fds_after [] fds = fds"
| "fds_after (Fc_mkstemp fd # cs) fds = fds_after cs (if fd < 0 then fds else fd # fds)"
| "fds_after (Fc_open fd # cs) fds = fds_after cs (if fd < 0 then fds else fd # fds)"
| "fds_after (Fc_close fd # cs) fds = fds_after cs (remove1 fd fds)"
| "fds_after (Fc_unlink # cs) fds = fds_after cs fds"
| "fds_after (Fc_ftruncate fd n # cs) fds = fds_after cs fds"

fun path_after :: "file_call list \<Rightarrow> bool \<Rightarrow> bool" where
  "path_after [] e = e"
| "path_after (Fc_mkstemp fd # cs) e = path_after cs (e \<or> 0 \<le> fd)"
| "path_after (Fc_unlink # cs) e = path_after cs False"
| "path_after (Fc_open fd # cs) e = path_after cs e"
| "path_after (Fc_close fd # cs) e = path_after cs e"
| "path_after (Fc_ftruncate fd n # cs) e = path_after cs e"

lemma fds_after_append: "fds_after (xs @ ys) fds = fds_after ys (fds_after xs fds)"
  by (induction xs fds rule: fds_after.induct) simp_all

lemma path_after_append: "path_after (xs @ ys) e = path_after ys (path_after xs e)"
  by (induction xs e rule: path_after.induct) simp_all

section \<open>Counters\<close>

text \<open>Double-precision operations of the counters: conversion, product and quotient.\<close>

record fp =
  fp_of_nat :: "nat \<Rightarrow> real"
  fp_mul :: "real \<Rightarrow> real \<Rightarrow> real"
  fp_div :: "real \<Rightarrow> real \<Rightarrow> real"

type_synonym counters = "string \<Rightarrow> real option"

definition percentile_at :: "fp \<Rightarrow> real list \<Rightarrow> real \<Rightarrow> real" where
  "percentile_at f lat p = lat ! nat \<lfloor>fp_mul f p (fp_of_nat f (length lat - 1))\<rfloor>"

definition ReportPercentiles :: "fp \<Rightarrow> counters \<Rightarrow> real list \<Rightarrow> counters \<times> real list" where
  "ReportPercentiles f cs latencies_us =
     (if latencies_us = [] then (cs, latencies_us)
      else let lat = sort latencies_us in
        (cs(''p50_us'' \<mapsto> percentile_at f lat 0.5, ''p95_us'' \<mapsto> percentile_at f lat 0.95,
            ''p99_us'' \<mapsto> percentile_at f lat 0.99, ''p99_9_us'' \<mapsto> percentile_at f lat 0.999), lat))"

definition ReportCallsPerOp :: "fp \<Rightarrow> counters \<Rightarrow> u64 \<Rightarrow> u64 \<Rightarrow> counters" where
  "ReportCallsPerOp f cs calls ops =
     cs(''calls_per_op'' \<mapsto> if ops > 0 then fp_div f (fp_of_nat f (unat calls)) (fp_of_nat f (unat ops)) else 0)"

text \<open>What is used of rounding: converting a length (below \<open>2 ^ 53\<close>) is exact, and a product with a
  factor from 0 to 1 stays between 0 and the other factor and grows with the first.\<close>

definition fp_documented :: "fp \<Rightarrow> bool" where
  "fp_documented f \<longleftrightarrow> (\<forall>n < 2 ^ 53. fp_of_nat f n = real n) \<and>
     (\<forall>p n. 0 \<le> p \<longrightarrow> p \<le> 1 \<longrightarrow> n < 2 ^ 53 \<longrightarrow> 0 \<le> fp_mul f p (real n) \<and> fp_mul f p (real n) \<le> real n) \<and>
     (\<forall>p q n. p \<le> q \<longrightarrow> n < 2 ^ 53 \<longrightarrow> fp_mul f p (real n) \<le> fp_mul f q (real n))"

section \<open>Properties\<close>

lemma kFileBytes_value: "unat kFileBytes = 1073741824"
  by (simp add: kFileBytes_def kFileBlocks_def kBlockSize_def)

lemma block_offset:
  assumes "v \<le> kFileBlocks - 1"
  shows "unat (v * ucast kBlockSize) = unat v * 4096" and "unat v * 4096 + 4096 \<le> unat kFileBytes"
proof -
  have v: "unat v \<le> 262143" using assms by (simp add: kFileBlocks_def word_le_nat_alt)
  then have "unat v * 4096 < 2 ^ 64" by simp
  then show "unat (v * ucast kBlockSize) = unat v * 4096"
    by (simp add: kBlockSize_def unat_word_ariths)
  show "unat v * 4096 + 4096 \<le> unat kFileBytes" using v by (simp add: kFileBytes_value)
qed

text \<open>A random offset is a multiple of the block size, and the block at it lies inside the
  scratch file.\<close>

lemma random_block_in_file:
  assumes "draw_documented draw"
  shows "4096 dvd unat (fst (RandomBlockOffset draw g)) \<and>
    unat (fst (RandomBlockOffset draw g)) + unat kBlockSize \<le> unat kFileBytes"
proof -
  have "(0 :: u64) \<le> kFileBlocks - 1" by simp
  then have "fst (draw 0 (kFileBlocks - 1) g) \<le> kFileBlocks - 1"
    using assms by (auto simp: draw_documented_def)
  from block_offset [OF this] show ?thesis
    by (simp add: RandomBlockOffset_def split_beta kBlockSize_def)
qed

text \<open>The scratch file never leaks: on failure no descriptor stays open, on success exactly the
  returned one does, and in every case the path no longer exists afterwards.\<close>

lemma scratch_file_no_leak:
  "case MakeScratchFile env of (fd, calls) \<Rightarrow>
     fds_after calls [] = (if fd < 0 then [] else [fd]) \<and> \<not> path_after calls False \<and>
     (0 \<le> fd \<longleftrightarrow> 0 \<le> fe_mkstemp env \<and> 0 \<le> fe_open env \<and> fe_ftruncate env = 0)"
  by (auto simp: MakeScratchFile_def Let_def)

lemma percentile_index:
  assumes "fp_documented f" and "0 \<le> p" and "p \<le> 1" and "lat \<noteq> []" and "length lat < 2 ^ 53"
  shows "nat \<lfloor>fp_mul f p (fp_of_nat f (length lat - 1))\<rfloor> < length lat"
proof -
  have l: "length lat - 1 < 2 ^ 53" using assms(5) by simp
  have "fp_mul f p (fp_of_nat f (length lat - 1)) \<le> real (length lat - 1)"
    using assms(1-3) l by (simp add: fp_documented_def)
  then have "nat \<lfloor>fp_mul f p (fp_of_nat f (length lat - 1))\<rfloor> \<le> length lat - 1" by linarith
  with assms(4) show ?thesis by (cases lat) auto
qed

lemma percentile_mono:
  assumes "fp_documented f" and "0 \<le> p" and "p \<le> q" and "q \<le> 1" and "lat \<noteq> []" and "length lat < 2 ^ 53"
  shows "percentile_at f (sort lat) p \<le> percentile_at f (sort lat) q"
proof -
  have l: "length lat - 1 < 2 ^ 53" using assms(6) by simp
  have "fp_mul f p (real (length lat - 1)) \<le> fp_mul f q (real (length lat - 1))"
    using assms(1,3) l unfolding fp_documented_def by blast
  moreover have "fp_of_nat f (length lat - 1) = real (length lat - 1)"
    using assms(1) l unfolding fp_documented_def by blast
  ultimately have "nat \<lfloor>fp_mul f p (fp_of_nat f (length (sort lat) - 1))\<rfloor>
      \<le> nat \<lfloor>fp_mul f q (fp_of_nat f (length (sort lat) - 1))\<rfloor>"
    by (simp add: floor_mono nat_mono)
  moreover have "sort lat \<noteq> []" using assms(5) by (metis length_0_conv length_sort)
  ultimately show ?thesis
    using percentile_index [OF assms(1) _ assms(4), of "sort lat"] assms(2,3,6)
    by (simp add: percentile_at_def sorted_nth_mono)
qed

text \<open>The reported percentiles are latencies that were measured (no index is out of range) and
  are ordered: p50, p95, p99, p99.9. Without measurements nothing is reported.\<close>

lemma percentiles_ordered:
  assumes "fp_documented f" and "length lat < 2 ^ 53" and "lat \<noteq> []"
  shows "\<exists>a b c d. fst (ReportPercentiles f cs lat) =
      cs(''p50_us'' \<mapsto> a, ''p95_us'' \<mapsto> b, ''p99_us'' \<mapsto> c, ''p99_9_us'' \<mapsto> d) \<and>
    a \<le> b \<and> b \<le> c \<and> c \<le> d \<and> {a, b, c, d} \<subseteq> set lat \<and>
    ReportPercentiles f cs [] = (cs, [])"
proof -
  have ne: "sort lat \<noteq> []" using assms(3) by (metis length_0_conv length_sort)
  have "percentile_at f (sort lat) p \<in> set lat" if "0 \<le> p" "p \<le> 1" for p
    using percentile_index [OF assms(1) that ne] assms(2) unfolding percentile_at_def
    by (metis length_sort nth_mem set_sort)
  with percentile_mono [OF assms(1) _ _ _ assms(3,2)] assms(3) show ?thesis
    by (intro exI [of _ "percentile_at f (sort lat) 0.5"] exI [of _ "percentile_at f (sort lat) 0.95"]
        exI [of _ "percentile_at f (sort lat) 0.99"] exI [of _ "percentile_at f (sort lat) 0.999"])
      (simp add: ReportPercentiles_def Let_def)
qed

end
