(* ===== verification/Sqpoll_Pipeline.thy ===== *)
theory Sqpoll_Pipeline
  imports Kernel_Contract Bench_Support
begin

text \<open>
  \<open>BM_SqpollIops\<close> of benchmarks/iops_throughput_benchmark.cpp: the one client in the repository
  that drives the whole library, from engine, pool and file set-up through the pipelined loop of
  draining, harvesting and resubmitting to the counters. The clock (its successive readings), the
  random distribution, the file system and the kernel (what it does to the ring between two passes)
  are parameters.
\<close>

section \<open>State\<close>

record ('r, 'g) bench_env =
  be_lib :: "'r liburing"
  be_kernel :: "nat \<Rightarrow> 'r \<Rightarrow> 'r"
  be_clock :: "nat \<Rightarrow> real"
  be_draw :: "u64 \<Rightarrow> u64 \<Rightarrow> 'g \<Rightarrow> u64 \<times> 'g"
  be_seed :: "u32 \<Rightarrow> 'g"
  be_file :: file_env
  be_pool :: pool_env
  be_idle :: "string option"
  be_fp :: fp
  be_ws :: "bool list"

record ('r, 'g) bench =
  b_engine :: "'r SqpollEngine"
  b_pool :: BufferPool
  b_submit :: "IoRequest spsc_ring"
  b_comp :: "IoCompletion spsc_ring"
  b_submitted_at :: "real list"
  b_rng :: 'g
  b_write_turn :: bool
  b_ops :: u64
  b_calls :: u64
  b_latencies :: "real list"
  b_tick :: nat

section \<open>Operations\<close>

definition bench_now :: "('r, 'g) bench_env \<Rightarrow> ('r, 'g) bench \<Rightarrow> real \<times> ('r, 'g) bench" where
  "bench_now env s = (be_clock env (b_tick s), s\<lparr>b_tick := Suc (b_tick s)\<rparr>)"

definition make_request :: "('r, 'g) bench_env \<Rightarrow> u32 \<Rightarrow> ('r, 'g) bench \<Rightarrow> IoRequest \<times> ('r, 'g) bench" where
  "make_request env buf_index s =
     (let (off, rng') = RandomBlockOffset (be_draw env) (b_rng s) in
      (IoRequest_default\<lparr>op := if b_write_turn s then kWrite else kRead, fixed_fd_index := 0,
         buffer_index := buf_index, offset := off, req_length := kBlockSize, token := ucast buf_index\<rparr>,
       s\<lparr>b_rng := rng', b_write_turn := \<not> b_write_turn s\<rparr>))"

text \<open>The result of \<open>try_push\<close> is not looked at; an index outside \<open>submitted_at\<close> is undefined.\<close>

definition push_request :: "('r, 'g) bench_env \<Rightarrow> u32 \<Rightarrow> ('r, 'g) bench \<Rightarrow> ('r, 'g) bench" where
  "push_request env slot s =
     (let (req, s') = make_request env slot s in s'\<lparr>b_submit := snd (spsc_try_push 128 (b_submit s') req)\<rparr>)"

fun prime :: "('r, 'g) bench_env \<Rightarrow> u32 list \<Rightarrow> ('r, 'g) bench \<Rightarrow> ('r, 'g) bench option" where
  "prime env [] s = Some s"
| "prime env (slot # slots) s =
     (let (now, s') = bench_now env (push_request env slot s) in
      if length (b_submitted_at s') \<le> unat slot then None
      else prime env slots (s'\<lparr>b_submitted_at := (b_submitted_at s')[unat slot := now]\<rparr>))"

definition bench_drain :: "('r, 'g) bench_env \<Rightarrow> u32 \<Rightarrow> ('r, 'g) bench \<Rightarrow> ('r, 'g) bench option" where
  "bench_drain env queue_depth s =
     (case drain_and_submit (be_lib env) (\<lambda>q. Some (spsc_try_pop 128 q)) (b_engine s) (b_submit s)
         (b_pool s) (ucast queue_depth) of
        None \<Rightarrow> None
      | Some (n, e, q) \<Rightarrow> Some (s\<lparr>b_engine := e, b_submit := q, b_calls := b_calls s + 1\<rparr>))"

partial_function (option) refill_loop ::
    "('r, 'g) bench_env \<Rightarrow> u32 \<Rightarrow> ('r, 'g) bench \<Rightarrow> (u32 \<times> ('r, 'g) bench) option" where
  "refill_loop env refilled s =
     (case spsc_try_pop 128 (b_comp s) of
        (None, q) \<Rightarrow> Some (refilled, s\<lparr>b_comp := q\<rparr>)
      | (Some c, q) \<Rightarrow>
          (let slot = ucast (comp_token c) :: u32;
               (now, s1) = bench_now env (s\<lparr>b_comp := q\<rparr>) in
           if length (b_submitted_at s1) \<le> unat slot then None
           else let s2 = s1\<lparr>b_latencies := b_latencies s1 @ [now - b_submitted_at s1 ! unat slot],
                   b_ops := b_ops s1 + 1\<rparr>;
                 s3 = push_request env slot s2 in
             refill_loop env (refilled + 1) (s3\<lparr>b_submitted_at := (b_submitted_at s3)[unat slot := now]\<rparr>)))"

text \<open>One pass of the loop; the idle counter decides between yielding and relaxing, which have no
  other effect.\<close>

definition bench_pass :: "('r, 'g) bench_env \<Rightarrow> u32 \<Rightarrow> u32 \<Rightarrow> ('r, 'g) bench \<Rightarrow> (u32 \<times> ('r, 'g) bench) option" where
  "bench_pass env queue_depth idle_spins s =
     (case harvest_completions (be_lib env) (\<lambda>q x. Some (spsc_try_push 128 q x)) (b_engine s) (b_comp s)
         (ucast queue_depth) of
        None \<Rightarrow> None
      | Some (delivered, e, q) \<Rightarrow>
          (case refill_loop env 0 (s\<lparr>b_engine := e, b_comp := q\<rparr>) of
             None \<Rightarrow> None
           | Some (refilled, s1) \<Rightarrow>
               if refilled > 0 then map_option (Pair 0) (bench_drain env queue_depth s1)
               else if delivered = 0 then Some (if idle_spins + 1 > 256 then 0 else idle_spins + 1, s1)
               else Some (idle_spins, s1)))"

definition kernel_acts :: "('r, 'g) bench_env \<Rightarrow> ('r, 'g) bench \<Rightarrow> ('r, 'g) bench" where
  "kernel_acts env s = s\<lparr>b_engine := (b_engine s)\<lparr>ring := be_kernel env (b_tick s) (ring (b_engine s))\<rparr>\<rparr>"

partial_function (option) burst_loop ::
    "('r, 'g) bench_env \<Rightarrow> u32 \<Rightarrow> real \<Rightarrow> u32 \<Rightarrow> ('r, 'g) bench \<Rightarrow> ('r, 'g) bench option" where
  "burst_loop env queue_depth deadline idle_spins s =
     (let (now, s') = bench_now env s in
      if now < deadline then
        (case bench_pass env queue_depth idle_spins (kernel_acts env s') of
           None \<Rightarrow> None
         | Some (idle, s'') \<Rightarrow> burst_loop env queue_depth deadline idle s'')
      else Some s')"

text \<open>A burst: prime every slot, then keep the pipeline going for \<open>duration_ms\<close> (the clock counts
  microseconds). It is the body of one iteration of \<open>BM_SqpollIops\<close>, and with two seconds the
  body of every worker thread of \<open>BM_SqpollSharedPollerIops\<close>.\<close>

definition bench_burst :: "int \<Rightarrow> ('r, 'g) bench_env \<Rightarrow> u32 \<Rightarrow> u32 list \<Rightarrow> ('r, 'g) bench \<Rightarrow> ('r, 'g) bench option" where
  "bench_burst duration_ms env queue_depth slot_buf s =
     (case prime env slot_buf s of
        None \<Rightarrow> None
      | Some s1 \<Rightarrow> (case bench_drain env queue_depth s1 of
          None \<Rightarrow> None
        | Some s2 \<Rightarrow> (let (now, s3) = bench_now env s2 in
            burst_loop env queue_depth (now + 1000 * real_of_int duration_ms) 0 s3)))"

definition bench_iteration :: "('r, 'g) bench_env \<Rightarrow> u32 \<Rightarrow> u32 list \<Rightarrow> ('r, 'g) bench \<Rightarrow> ('r, 'g) bench option" where
  "bench_iteration = bench_burst kBurstDuration_ms"

definition shared_poller_worker :: "('r, 'g) bench_env \<Rightarrow> u32 \<Rightarrow> u32 list \<Rightarrow> ('r, 'g) bench \<Rightarrow> ('r, 'g) bench option" where
  "shared_poller_worker = bench_burst 2000"

fun bench_iterations :: "('r, 'g) bench_env \<Rightarrow> u32 \<Rightarrow> u32 list \<Rightarrow> nat \<Rightarrow> ('r, 'g) bench \<Rightarrow> ('r, 'g) bench option" where
  "bench_iterations env queue_depth slot_buf 0 s = Some s"
| "bench_iterations env queue_depth slot_buf (Suc n) s =
     (case bench_iteration env queue_depth slot_buf s of
        None \<Rightarrow> None
      | Some s' \<Rightarrow> bench_iterations env queue_depth slot_buf n s')"

fun acquire_slots :: "bool list \<Rightarrow> nat \<Rightarrow> BufferPool \<Rightarrow> (u32 list \<times> BufferPool) option" where
  "acquire_slots ws 0 p = Some ([], p)"
| "acquire_slots ws (Suc n) p =
     (case acquire ws p of None \<Rightarrow> None
      | Some (i, p') \<Rightarrow> (case acquire_slots ws n p' of None \<Rightarrow> None
          | Some (is, p'') \<Rightarrow> Some (i # is, p'')))"

text \<open>The outcome: skipped with a message, terminated by an exception of the pool's constructor, or
  finished with the counters, the operations and the bytes reported.\<close>

datatype bench_outcome = Bench_skipped string | Bench_threw pool_error | Bench_done counters u64 u64

definition bench_start :: "('r, 'g) bench_env \<Rightarrow> u32 \<Rightarrow> u32 \<Rightarrow> 'r SqpollEngine \<Rightarrow> BufferPool \<Rightarrow> ('r, 'g) bench" where
  "bench_start env thread_index queue_depth e pool =
     \<lparr>b_engine = e, b_pool = pool, b_submit = SpscRing 128 IoRequest_default,
      b_comp = SpscRing 128 IoCompletion_default, b_submitted_at = replicate (unat queue_depth) 0,
      b_rng = be_seed env (thread_index + 1), b_write_turn = True, b_ops = 0, b_calls = 0,
      b_latencies = [], b_tick = 0\<rparr>"

definition BM_SqpollIops ::
    "('r, 'g) bench_env \<Rightarrow> u32 \<Rightarrow> u32 \<Rightarrow> nat \<Rightarrow> counters \<Rightarrow> (bench_outcome \<times> file_call list) option" where
  "BM_SqpollIops env thread_index queue_depth iterations cs =
     (case SqpollEngine_ctor (be_lib env) kRingEntries (SqThreadIdleMs (be_idle env)) None of
        Inl _ \<Rightarrow> Some (Bench_skipped ''SQPOLL io_uring unavailable in this environment'', [])
      | Inr e0 \<Rightarrow>
      (let (fd, calls) = MakeScratchFile (be_file env) in
       if fd < 0 then Some (Bench_skipped ''failed to create O_DIRECT scratch file (needs real storage under /tmp)'', calls)
       else let (ret, e1) = register_files (be_lib env) e0 [word_of_int fd] in
       if ret \<noteq> 0 then Some (Bench_skipped ''register_files failed'', calls @ [Fc_close fd])
       else case fst (BufferPool_ctor (be_pool env) (ucast queue_depth) (ucast kBlockSize)) of
         Inl err \<Rightarrow> Some (Bench_threw err, calls)
       | Inr pool \<Rightarrow>
       (let (ret, e2) = register_buffers (be_lib env) e1 pool in
        if ret \<noteq> 0 then Some (Bench_skipped ''register_buffers failed'', calls @ [Fc_close fd])
        else case acquire_slots (be_ws env) (unat queue_depth) pool of
          None \<Rightarrow> None
        | Some (slot_buf, pool') \<Rightarrow>
        (case bench_iterations env queue_depth slot_buf iterations
            (bench_start env thread_index queue_depth e2 pool') of
           None \<Rightarrow> None
         | Some s \<Rightarrow>
            Some (Bench_done (ReportCallsPerOp (be_fp env) (fst (ReportPercentiles (be_fp env) cs (b_latencies s)))
                (b_calls s) (b_ops s)) (b_ops s) (b_ops s * ucast kBlockSize), calls @ [Fc_close fd])))))"

section \<open>The balance of tokens\<close>

text \<open>Every token of \<open>S\<close> is at one place: in an entry not yet consumed, in the request queue or in
  the completion queue; and the operations counted are the completions consumed and popped.\<close>

definition pipe_inv :: "'r ring_view \<Rightarrow> ('r \<Rightarrow> u64 multiset) \<Rightarrow> nat \<Rightarrow> u64 multiset \<Rightarrow> ('r, 'g) bench \<Rightarrow> bool" where
  "pipe_inv v consumed qd S s \<longleftrightarrow>
     spsc_inv 128 (b_submit s) \<and> spsc_inv 128 (b_comp s) \<and> length (b_submitted_at s) = qd \<and>
     length (spsc_items 128 (b_submit s)) + length (spsc_items 128 (b_comp s)) \<le> qd \<and>
     entry_tokens v (ring (b_engine s)) + mset (map token (spsc_items 128 (b_submit s)))
       + mset (map comp_token (spsc_items 128 (b_comp s))) = consumed (ring (b_engine s)) + S \<and>
     b_ops s + of_nat (length (spsc_items 128 (b_comp s))) = of_nat (size (consumed (ring (b_engine s))))"

definition pipe_idle :: "'r ring_view \<Rightarrow> ('r \<Rightarrow> u64 multiset) \<Rightarrow> nat \<Rightarrow> u64 multiset \<Rightarrow> ('r, 'g) bench \<Rightarrow> bool" where
  "pipe_idle v consumed qd S s \<longleftrightarrow> pipe_inv v consumed qd S s \<and>
     spsc_items 128 (b_submit s) = [] \<and> spsc_items 128 (b_comp s) = []"

definition slots_in_range :: "nat \<Rightarrow> u64 multiset \<Rightarrow> bool" where
  "slots_in_range qd S \<longleftrightarrow> (\<forall>t \<in># S. unat t < qd) \<and> qd \<le> 128"

lemma slot_cast:
  assumes "unat (t :: u64) < 128"
  shows "unat (ucast t :: u32) = unat t" and "ucast (ucast t :: u32) = t"
proof -
  show u: "unat (ucast t :: u32) = unat t"
    using assms by (simp add: unsigned_ucast_eq take_bit_nat_eq_self)
  then show "ucast (ucast t :: u32) = t"
    by (metis unat_ucast_u32 unsigned_word_eqI)
qed

lemma make_request_token:
  "token (fst (make_request env slot s)) = ucast slot"
  by (simp add: make_request_def split_beta)

lemma push_request_other:
  "b_engine (push_request env slot s) = b_engine s" "b_comp (push_request env slot s) = b_comp s"
  "b_submitted_at (push_request env slot s) = b_submitted_at s" "b_ops (push_request env slot s) = b_ops s"
  "b_tick (push_request env slot s) = b_tick s"
  by (simp_all add: push_request_def make_request_def split_beta)

lemma push_request_submit:
  assumes "spsc_inv 128 (b_submit s)" and "length (spsc_items 128 (b_submit s)) < 128"
  shows "spsc_inv 128 (b_submit (push_request env slot s)) \<and>
    (\<exists>req. token req = ucast slot \<and>
      spsc_items 128 (b_submit (push_request env slot s)) = spsc_items 128 (b_submit s) @ [req])"
proof -
  let ?req = "fst (make_request env slot s)"
  have "\<exists>q. spsc_try_push 128 (b_submit s) ?req = (True, q) \<and> spsc_inv 128 q \<and>
      spsc_items 128 q = spsc_items 128 (b_submit s) @ [?req]"
    using assms by (intro spsc_push_room) simp_all
  moreover have "b_submit (push_request env slot s) = snd (spsc_try_push 128 (b_submit s) ?req)"
    by (simp add: push_request_def make_request_def split_beta)
  ultimately show ?thesis using make_request_token by fastforce
qed

lemma comp_token_in_S:
  assumes "pipe_inv v consumed qd S s" and "consumed (ring (b_engine s)) \<subseteq># entry_tokens v (ring (b_engine s))"
    and "c \<in> set (spsc_items 128 (b_comp s))"
  shows "comp_token c \<in># S"
proof -
  obtain Y where Y: "entry_tokens v (ring (b_engine s)) = consumed (ring (b_engine s)) + Y"
    using assms(2) by (metis subset_mset.add_diff_inverse)
  then have "S = Y + mset (map token (spsc_items 128 (b_submit s))) + mset (map comp_token (spsc_items 128 (b_comp s)))"
    using assms(1) by (simp add: pipe_inv_def add.assoc)
  with assms(3) show ?thesis by auto
qed

section \<open>The steps of the loop keep the balance\<close>

lemma refill_step:
  assumes inv: "pipe_inv v consumed qd S s" and rng: "slots_in_range qd S"
    and le: "consumed (ring (b_engine s)) \<subseteq># entry_tokens v (ring (b_engine s))"
    and it: "spsc_items 128 (b_comp s) = c # cs"
  obtains s' where "refill_loop env n s = refill_loop env (n + 1) s'" and "pipe_inv v consumed qd S s'"
    and "spsc_items 128 (b_comp s') = cs" and "b_engine s' = b_engine s" and "b_tick s \<le> b_tick s'"
proof -
  note P = inv [unfolded pipe_inv_def]
  obtain q where q: "spsc_try_pop 128 (b_comp s) = (Some c, q)" "spsc_inv 128 q" "spsc_items 128 q = cs"
    using spsc_pop_item [OF _ it] P by blast
  let ?slot = "ucast (comp_token c) :: u32"
  have tok: "unat (comp_token c) < qd"
    using comp_token_in_S [OF inv le, of c] it rng by (auto simp: slots_in_range_def)
  then have cast: "unat ?slot = unat (comp_token c)" "(ucast ?slot :: u64) = comp_token c"
    using slot_cast [of "comp_token c"] rng by (auto simp: slots_in_range_def)
  let ?s1 = "s\<lparr>b_comp := q, b_tick := Suc (b_tick s)\<rparr>"
  let ?s2 = "?s1\<lparr>b_latencies := b_latencies s @ [be_clock env (b_tick s) - b_submitted_at s ! unat ?slot],
     b_ops := b_ops s + 1\<rparr>"
  let ?s3 = "push_request env ?slot ?s2"
  let ?s4 = "?s3\<lparr>b_submitted_at := (b_submitted_at ?s3)[unat ?slot := be_clock env (b_tick s)]\<rparr>"
  have room: "length (spsc_items 128 (b_submit ?s2)) < 128" "spsc_inv 128 (b_submit ?s2)"
    using P it rng by (auto simp: slots_in_range_def)
  obtain req where req: "spsc_inv 128 (b_submit ?s3)" "token req = comp_token c"
    "spsc_items 128 (b_submit ?s3) = spsc_items 128 (b_submit s) @ [req]"
    using push_request_submit [OF room(2,1), of env ?slot] cast(2) by auto
  have "refill_loop env n s = refill_loop env (n + 1) ?s4"
    using q(1) tok cast(1) P by (subst refill_loop.simps) (simp add: bench_now_def Let_def)
  moreover have "pipe_inv v consumed qd S ?s4"
    using P q it req by (simp add: pipe_inv_def push_request_other ac_simps)
  moreover have "spsc_items 128 (b_comp ?s4) = cs" "b_engine ?s4 = b_engine s" "b_tick s \<le> b_tick ?s4"
    using q(3) by (simp_all add: push_request_other)
  ultimately show thesis using that by blast
qed

lemma refill_all:
  assumes "pipe_inv v consumed qd S s" and "slots_in_range qd S"
    and "consumed (ring (b_engine s)) \<subseteq># entry_tokens v (ring (b_engine s))"
  shows "\<exists>s'. refill_loop env n s = Some (n + of_nat (length (spsc_items 128 (b_comp s))), s') \<and>
    pipe_inv v consumed qd S s' \<and> spsc_items 128 (b_comp s') = [] \<and> b_engine s' = b_engine s \<and>
    b_tick s \<le> b_tick s' \<and> (spsc_items 128 (b_comp s) = [] \<longrightarrow> b_submit s' = b_submit s)"
  using assms
proof (induction "spsc_items 128 (b_comp s)" arbitrary: s n)
  case Nil
  then have "spsc_try_pop 128 (b_comp s) = (None, b_comp s)"
    by (intro spsc_pop_empty) (auto simp: pipe_inv_def)
  with Nil show ?case by (subst refill_loop.simps) simp
next
  case (Cons c cs)
  from refill_step [OF Cons.prems Cons.hyps(2) [symmetric], of env n] obtain s1 where
    s1: "refill_loop env n s = refill_loop env (n + 1) s1" "pipe_inv v consumed qd S s1"
    "spsc_items 128 (b_comp s1) = cs" "b_engine s1 = b_engine s" "b_tick s \<le> b_tick s1" .
  from Cons.hyps(1) [OF s1(3) [symmetric] s1(2) Cons.prems(2), of "n + 1"] s1 Cons.prems(3)
  obtain s' where "refill_loop env (n + 1) s1 = Some (n + 1 + of_nat (length cs), s')"
    "pipe_inv v consumed qd S s'" "spsc_items 128 (b_comp s') = []" "b_engine s' = b_engine s1" "b_tick s1 \<le> b_tick s'"
    by auto
  with s1 Cons.hyps(2) [symmetric] show ?case by (intro exI [of _ s']) (simp add: add.assoc)
qed

lemma in_flight_room:
  assumes "kernel_documented lib v consumed kern n" and "pipe_inv v consumed qd S s" and "size S \<le> n"
  shows "length (spsc_items 128 (b_submit s)) \<le> view_room v (ring (b_engine s))"
proof -
  let ?r = "ring (b_engine s)"
  have "size (entry_tokens v ?r) = length (view_entries v ?r)" by (simp add: entry_tokens_def)
  moreover have "size (entry_tokens v ?r) + length (spsc_items 128 (b_submit s))
      + length (spsc_items 128 (b_comp s)) = size (consumed ?r) + size S"
    using arg_cong [of _ _ size] assms(2) unfolding pipe_inv_def by (metis size_union size_mset length_map)
  moreover have "n + size (consumed ?r) \<le> view_room v ?r + length (view_entries v ?r)"
    by (rule kernel_documentedD(9) [OF assms(1)])
  ultimately show ?thesis using assms(3) by linarith
qed

lemma drain_pipe:
  assumes doc: "kernel_documented (be_lib env) v consumed kern n" and inv: "pipe_inv v consumed (unat qd) S s"
    and S: "size S \<le> n"
  shows "\<exists>s'. bench_drain env qd s = Some s' \<and> pipe_inv v consumed (unat qd) S s' \<and>
    spsc_items 128 (b_submit s') = [] \<and> b_comp s' = b_comp s \<and> b_tick s' = b_tick s"
proof -
  let ?lib = "be_lib env" and ?pop = "\<lambda>q. Some (spsc_try_pop 128 q)" and ?q = "b_submit s"
  let ?qd = "ucast qd :: size_t"
  note P = inv [unfolded pipe_inv_def]
  obtain k e' q' where d: "drain_and_submit ?lib ?pop (b_engine s) ?q (b_pool s) ?qd = Some (of_nat k, e', q')"
    "drained (spsc_inv 128) (spsc_items 128) ?lib v (b_pool s) (unat ?qd) (ring (b_engine s)) ?q k (ring e') q'"
    "consumed (ring e') = consumed (ring (b_engine s))"
    "entry_tokens v (ring e') = entry_tokens v (ring (b_engine s)) + mset (map token (take k (spsc_items 128 ?q)))"
    using spsc_req.drain_tokens [OF doc, of 128 ?q "b_engine s" "b_pool s" ?qd] P by blast
  have "length (spsc_items 128 ?q) \<le> unat ?qd" using P by (simp add: unat_ucast_u32)
  with in_flight_room [OF doc inv S] d(2) have all: "k = length (spsc_items 128 ?q)" "spsc_items 128 q' = []" "spsc_inv 128 q'"
    by (auto simp: drained_def)
  with d(3,4) P have "pipe_inv v consumed (unat qd) S (s\<lparr>b_engine := e', b_submit := q', b_calls := b_calls s + 1\<rparr>)"
    by (simp add: pipe_inv_def)
  with d(1) all show ?thesis by (simp add: bench_drain_def)
qed

lemma harvest_pipe:
  fixes qd :: u32
  assumes doc: "kernel_documented (be_lib env) v consumed kern n" and idle: "pipe_idle v consumed (unat qd) S s"
    and rng: "slots_in_range (unat qd) S"
  obtains e q where "harvest_completions (be_lib env) (\<lambda>q x. Some (spsc_try_push 128 q x)) (b_engine s) (b_comp s) (ucast qd)
      = Some (of_nat (length (spsc_items 128 q)), e, q)"
    and "pipe_inv v consumed (unat qd) S (s\<lparr>b_engine := e, b_comp := q\<rparr>)" and "length (spsc_items 128 q) \<le> 128"
proof -
  let ?lib = "be_lib env" and ?r = "ring (b_engine s)"
  let ?vis = "visible_cqes ?lib ?r" and ?k = "walk_count ?lib (ucast qd) ?r"
  note P = idle [unfolded pipe_idle_def pipe_inv_def]
  have k: "?k \<le> unat qd" "?k \<le> length ?vis" "?k \<le> 128"
    using rng by (auto simp: walk_count_def unat_ucast_u32 slots_in_range_def)
  obtain e q where q: "harvest_completions ?lib (\<lambda>q x. Some (spsc_try_push 128 q x)) (b_engine s) (b_comp s) (ucast qd)
      = Some (of_nat ?k, e, q)" "spsc_inv 128 q" "spsc_items 128 q = map (completion_of ?lib) (take ?k ?vis)"
    "consumed (ring e) = consumed ?r + mset (map cqe_user_data (take ?k ?vis))" "view_entries v (ring e) = view_entries v ?r"
    using spsc_comp.harvest_tokens [OF doc, of 128 "b_comp s" "ucast qd" "b_engine s"] P k(3) by auto
  have len: "length (spsc_items 128 q) = ?k" using q(3) k(2) by simp
  have "prep_documented ?lib" using kernel_documentedD(1) [OF doc] by (simp add: liburing_documented_def)
  then have tk: "map comp_token (spsc_items 128 q) = map cqe_user_data (take ?k ?vis)"
    using q(3) by (simp add: completion_of_token)
  have "entry_tokens v ?r = consumed ?r + S" "b_ops s = of_nat (size (consumed ?r))" using P by auto
  then have "pipe_inv v consumed (unat qd) S (s\<lparr>b_engine := e, b_comp := q\<rparr>)"
    using P q(2,4,5) len tk k by (simp add: pipe_inv_def entry_tokens_def ac_simps flip: mset_map)
  with q(1) len k(3) that show thesis by metis
qed

lemma pass_pipe:
  assumes doc: "kernel_documented (be_lib env) v consumed kern n" and idle: "pipe_idle v consumed (unat qd) S s"
    and rng: "slots_in_range (unat qd) S" and S: "size S \<le> n"
  shows "\<exists>i s'. bench_pass env qd spins s = Some (i, s') \<and> pipe_idle v consumed (unat qd) S s' \<and> b_tick s \<le> b_tick s'"
proof -
  from harvest_pipe [OF doc idle rng] obtain e q where h:
    "harvest_completions (be_lib env) (\<lambda>q x. Some (spsc_try_push 128 q x)) (b_engine s) (b_comp s) (ucast qd)
      = Some (of_nat (length (spsc_items 128 q)), e, q)"
    "pipe_inv v consumed (unat qd) S (s\<lparr>b_engine := e, b_comp := q\<rparr>)" "length (spsc_items 128 q) \<le> 128" .
  from refill_all [OF h(2) rng consumed_le [OF doc], of env 0] obtain s1 where
    s1: "refill_loop env 0 (s\<lparr>b_engine := e, b_comp := q\<rparr>) = Some (of_nat (length (spsc_items 128 q)), s1)"
    "pipe_inv v consumed (unat qd) S s1" "spsc_items 128 (b_comp s1) = []" "b_tick s \<le> b_tick s1"
    "spsc_items 128 q = [] \<longrightarrow> b_submit s1 = b_submit s"
    by auto
  have pos: "0 < (of_nat (length (spsc_items 128 q)) :: u32) \<longleftrightarrow> spsc_items 128 q \<noteq> []"
    using h(3) by (simp add: word_less_nat_alt unat_of_nat)
  show ?thesis
  proof (cases "spsc_items 128 q = []")
    case True
    then have "pipe_idle v consumed (unat qd) S s1" using s1 idle by (simp add: pipe_idle_def)
    with True h(1) s1 show ?thesis by (simp add: bench_pass_def)
  next
    case False
    from drain_pipe [OF doc s1(2) S] obtain s' where "bench_drain env qd s1 = Some s'"
      "pipe_inv v consumed (unat qd) S s'" "spsc_items 128 (b_submit s') = []" "b_comp s' = b_comp s1" "b_tick s' = b_tick s1"
      by blast
    with False pos h(1) s1 show ?thesis by (simp add: bench_pass_def pipe_idle_def)
  qed
qed

lemma kernel_pipe:
  assumes "kernel_documented (be_lib env) v consumed (be_kernel env) n" and "pipe_idle v consumed qd S s"
  shows "pipe_idle v consumed qd S (kernel_acts env s)" and "b_tick (kernel_acts env s) = b_tick s"
  using assms(2) kernel_documentedD(7,8) [OF assms(1)]
  by (auto simp: pipe_idle_def pipe_inv_def kernel_acts_def entry_tokens_def)

lemma tick_pipe: "pipe_idle v consumed qd S (s\<lparr>b_tick := t\<rparr>) = pipe_idle v consumed qd S s"
  by (simp add: pipe_idle_def pipe_inv_def)

text \<open>The clock reaches every time.\<close>

definition clock_advances :: "('r, 'g) bench_env \<Rightarrow> bool" where
  "clock_advances env \<longleftrightarrow> (\<forall>d. \<exists>N. \<forall>n \<ge> N. d \<le> be_clock env n)"

lemma burst_pipe:
  assumes doc: "kernel_documented (be_lib env) v consumed (be_kernel env) n"
    and rng: "slots_in_range (unat qd) S" and S: "size S \<le> n"
    and clk: "\<forall>m \<ge> N. deadline \<le> be_clock env m"
  shows "pipe_idle v consumed (unat qd) S s \<Longrightarrow>
    \<exists>s'. burst_loop env qd deadline spins s = Some s' \<and> pipe_idle v consumed (unat qd) S s'"
proof (induction "N - b_tick s" arbitrary: s spins rule: less_induct)
  case less
  let ?s = "s\<lparr>b_tick := Suc (b_tick s)\<rparr>"
  have idle: "pipe_idle v consumed (unat qd) S ?s" using less.prems by (simp add: tick_pipe)
  show ?case
  proof (cases "be_clock env (b_tick s) < deadline")
    case False
    then have "burst_loop env qd deadline spins s = Some ?s"
      by (subst burst_loop.simps) (simp add: bench_now_def)
    with idle show ?thesis by blast
  next
    case True
    with clk have lt: "b_tick s < N" by (meson linorder_not_less)
    from pass_pipe [OF doc kernel_pipe(1) [OF doc idle] rng S, of spins] kernel_pipe(2) [OF doc idle]
    obtain i s1 where s1: "bench_pass env qd spins (kernel_acts env ?s) = Some (i, s1)"
      "pipe_idle v consumed (unat qd) S s1" "Suc (b_tick s) \<le> b_tick s1" by auto
    then have "N - b_tick s1 < N - b_tick s" using lt by linarith
    from less.hyps [OF this s1(2)] s1(1) True show ?thesis
      by (subst burst_loop.simps) (simp add: bench_now_def)
  qed
qed

lemma prime_pipe:
  assumes "pipe_inv v consumed qd S s" and "spsc_items 128 (b_comp s) = []" and "qd \<le> 128"
    and "length (spsc_items 128 (b_submit s)) + length slots \<le> qd" and "\<forall>i \<in> set slots. unat i < qd"
  shows "\<exists>s'. prime env slots s = Some s' \<and> pipe_inv v consumed qd (S + mset (map ucast slots)) s' \<and>
    spsc_items 128 (b_comp s') = []"
  using assms
proof (induction slots arbitrary: s S)
  case (Cons i slots)
  note P = Cons.prems(1) [unfolded pipe_inv_def]
  let ?s1 = "push_request env i s"
  let ?s2 = "?s1\<lparr>b_tick := Suc (b_tick ?s1), b_submitted_at := (b_submitted_at ?s1)[unat i := be_clock env (b_tick ?s1)]\<rparr>"
  have "spsc_inv 128 (b_submit s)" "length (spsc_items 128 (b_submit s)) < 128" using P Cons.prems by auto
  from push_request_submit [OF this, of env i] obtain req where
    req: "spsc_inv 128 (b_submit ?s1)" "token req = ucast i"
      "spsc_items 128 (b_submit ?s1) = spsc_items 128 (b_submit s) @ [req]" by blast
  have inv: "pipe_inv v consumed qd (add_mset (ucast i) S) ?s2"
    using P req Cons.prems(2,4) by (simp add: pipe_inv_def push_request_other)
  moreover have "spsc_items 128 (b_comp ?s2) = []" "length (spsc_items 128 (b_submit ?s2)) + length slots \<le> qd"
    using Cons.prems(2,4) req(3) by (simp_all add: push_request_other)
  ultimately obtain s' where "prime env slots ?s2 = Some s'"
    "pipe_inv v consumed qd (add_mset (ucast i) S + mset (map ucast slots)) s'" "spsc_items 128 (b_comp s') = []"
    using Cons.IH [of "add_mset (ucast i) S" ?s2] Cons.prems(3,5) by auto
  moreover have "prime env (i # slots) s = prime env slots ?s2"
    using P Cons.prems(5) by (simp add: bench_now_def push_request_other)
  ultimately show ?case by simp
qed simp

lemma burst_conserves:
  assumes doc: "kernel_documented (be_lib env) v consumed (be_kernel env) n" and clk: "clock_advances env"
    and idle: "pipe_idle v consumed (unat qd) S s" and qd: "unat qd \<le> 128"
    and slots: "length slots = unat qd" "\<forall>i \<in> set slots. unat i < unat qd"
    and S: "\<forall>t \<in># S. unat t < unat qd" "size S + unat qd \<le> n"
  shows "\<exists>s'. bench_burst dur env qd slots s = Some s' \<and>
    pipe_idle v consumed (unat qd) (S + mset (map ucast slots)) s'"
proof -
  let ?S = "S + mset (map ucast slots)"
  have rng: "slots_in_range (unat qd) ?S" and sz: "size ?S \<le> n"
    using S slots qd by (auto simp: slots_in_range_def unat_ucast_u32)
  obtain s1 where s1: "prime env slots s = Some s1" "pipe_inv v consumed (unat qd) ?S s1" "spsc_items 128 (b_comp s1) = []"
    using prime_pipe [of v consumed "unat qd" S s slots env] idle qd slots by (auto simp: pipe_idle_def)
  from drain_pipe [OF doc s1(2) sz] obtain s2 where s2: "bench_drain env qd s1 = Some s2"
    "pipe_inv v consumed (unat qd) ?S s2" "spsc_items 128 (b_submit s2) = []" "b_comp s2 = b_comp s1" by blast
  then have "pipe_idle v consumed (unat qd) ?S s2" using s1(3) by (simp add: pipe_idle_def)
  then have "pipe_idle v consumed (unat qd) ?S (s2\<lparr>b_tick := Suc (b_tick s2)\<rparr>)" by (simp only: tick_pipe)
  moreover obtain N where "\<forall>m \<ge> N. be_clock env (b_tick s2) + 1000 * real_of_int dur \<le> be_clock env m"
    using clk by (auto simp: clock_advances_def)
  ultimately show ?thesis using burst_pipe [OF doc rng sz] s1(1) s2(1)
    by (simp add: bench_burst_def bench_now_def)
qed

section \<open>The slots of the benchmark\<close>

lemma acquire_slots_all:
  "pool_inv p \<Longrightarrow> n = length (pool_free p) \<Longrightarrow> \<exists>p'. acquire_slots ws n p = Some (pool_free p, p')"
proof (induction n arbitrary: p)
  case (Suc n)
  then obtain x xs where fr: "pool_free p = x # xs" by (cases "pool_free p") auto
  with pool_acquire_first [OF Suc.prems(1) fr, of ws] Suc.IH Suc.prems(2) show ?case by fastforce
qed simp

lemma bench_slots:
  assumes "BufferPool_ctor penv (ucast qd) sz = (Inr pool, calls)" and "acquire_slots ws (unat (qd :: u32)) pool = Some (slots, pool')"
  shows "length slots = unat qd" and "\<forall>i \<in> set slots. unat i < unat qd" and "distinct slots"
proof -
  have u: "unat (ucast qd :: size_t) = unat qd" by (rule unat_ucast_u32)
  have lt: "unat qd < 2 ^ 32" using unsigned_less [of qd, where ?'a = nat] by simp
  obtain base where b: "ctor_accepts penv (ucast qd) sz base" "pool = built_pool base (ucast qd) sz"
    by (rule BufferPool_ctor_success [OF assms(1)])
  have ok: "pool_inv pool" "pool_free pool = map of_nat (rev [0..<unat qd])"
    using built_pool_ok [of "ucast qd" base sz] b lt u by (auto simp: ctor_accepts_def)
  then have sl: "slots = map of_nat (rev [0..<unat qd])"
    using acquire_slots_all [OF ok(1), of "unat qd" ws] assms(2) by auto
  then show "length slots = unat qd" by simp
  show "\<forall>i \<in> set slots. unat i < unat qd" using sl lt by (auto simp: unat_of_nat_u32)
  show "distinct slots" using sl distinct_initial [OF lt] by simp
qed

lemma bench_start_idle:
  assumes "view_entries v (ring e) = []" and "consumed (ring e) = {#}"
  shows "pipe_idle v consumed (unat qd) {#} (bench_start env ti qd e pool)"
proof -
  have p: "pow2_cap 128" by (simp add: pow2_cap_def capacity_assert_def)
  show ?thesis using assms
    by (simp add: pipe_idle_def pipe_inv_def bench_start_def SpscRing_items SpscRing_inv p entry_tokens_def)
qed

section \<open>A reference environment\<close>

definition ref_env :: "(ref_ring, nat) bench_env" where
  "ref_env = \<lparr>be_lib = ref_lib 256, be_kernel = ref_kernel, be_clock = real,
     be_draw = (\<lambda>a b g. (a, Suc g)), be_seed = unat,
     be_file = \<lparr>fe_mkstemp = 5, fe_open = 5, fe_ftruncate = 0\<rparr>, be_pool = demo_env,
     be_idle = None, be_fp = \<lparr>fp_of_nat = real, fp_mul = (*), fp_div = (/)\<rparr>, be_ws = []\<rparr>"

lemma ref_env_ok:
  "kernel_documented (be_lib ref_env) (ref_view 256) ref_consumed (be_kernel ref_env) 256"
  "clock_advances ref_env" "view_entries (ref_view 256) (ring ref_start) = []" "ref_consumed (ring ref_start) = {#}"
proof -
  show "clock_advances ref_env" unfolding clock_advances_def
  proof
    fix d
    have "\<forall>m \<ge> nat \<lceil>d\<rceil>. d \<le> real m" by (metis le_nat_iff linorder_le_cases nat_ceiling_le_eq order_refl)
    then show "\<exists>N. \<forall>m \<ge> N. d \<le> be_clock ref_env m"
      by (intro exI [of _ "nat \<lceil>d\<rceil>"]) (simp add: ref_env_def)
  qed
qed (simp_all add: ref_env_def ref_kernel_documented ref_view_entries ref_start_def ref_new_def ref_consumed_def)

lemma ref_slots: "\<exists>pool'. acquire_slots [] (unat (3 :: u32)) (built_pool 65536 3 4096) = Some ([2, 1, 0], pool')"
proof -
  have "pool_inv (built_pool 65536 3 4096)" "pool_free (built_pool 65536 3 4096) = [2, 1, 0]"
    using built_pool_ok [of 3 65536 4096] by (simp_all add: upt_rec)
  from acquire_slots_all [OF this(1), of 3 "[]"] this(2) show ?thesis by simp
qed

section \<open>Properties\<close>

text \<open>(C33) One burst, of either benchmark, at a queue depth of at most 128: whatever the kernel does within
  its documented behaviour, every call returns and the burst ends once the clock passes its
  deadline; both queues are then empty and the requests in flight are exactly one per buffer, so no
  request was lost, none was duplicated and no buffer is used by two transfers; the operations
  counted are the completions consumed (modulo \<open>2 ^ 64\<close>).\<close>

theorem bench_burst_conserves:
  assumes "kernel_documented (be_lib env) v consumed (be_kernel env) 256" and "clock_advances env"
    and "unat qd \<le> 128" and "view_entries v (ring e) = []" and "consumed (ring e) = {#}"
    and "BufferPool_ctor penv (ucast qd) sz = (Inr pool, calls)"
    and "acquire_slots ws (unat qd) pool = Some (slots, pool')"
    and "burst = bench_iteration \<or> burst = shared_poller_worker"
  shows "\<exists>s'. burst env qd slots (bench_start env ti qd e pool') = Some s' \<and>
    spsc_items 128 (b_submit s') = [] \<and> spsc_items 128 (b_comp s') = [] \<and>
    entry_tokens v (ring (b_engine s')) = consumed (ring (b_engine s')) + mset (map ucast slots) \<and>
    distinct slots \<and> b_ops s' = of_nat (size (consumed (ring (b_engine s'))))"
proof -
  note sl = bench_slots [OF assms(6,7)]
  have "\<exists>s'. bench_burst dur env qd slots (bench_start env ti qd e pool') = Some s' \<and>
      pipe_idle v consumed (unat qd) ({#} + mset (map ucast slots)) s'" for dur
    using assms(3) by (intro burst_conserves [OF assms(1,2) bench_start_idle [where consumed = consumed, OF assms(4,5)] assms(3) sl(1,2)]) auto
  then obtain s' where "burst env qd slots (bench_start env ti qd e pool') = Some s'"
    "pipe_idle v consumed (unat qd) ({#} + mset (map ucast slots)) s'"
    using assms(8) by (metis bench_iteration_def shared_poller_worker_def)
  with sl(3) show ?thesis by (auto simp: pipe_idle_def pipe_inv_def)
qed

theorem bench_burst_conserves_witness:
  "\<exists>pool' s'. bench_iteration ref_env 3 [2, 1, 0] (bench_start ref_env 0 3 ref_start pool') = Some s' \<and>
    entry_tokens (ref_view 256) (ring (b_engine s')) = ref_consumed (ring (b_engine s')) + {#2, 1, 0#}"
proof -
  obtain pool' where sl: "acquire_slots [] (unat (3 :: u32)) (built_pool 65536 3 4096) = Some ([2, 1, 0], pool')"
    using ref_slots by blast
  have c: "BufferPool_ctor demo_env (ucast (3 :: u32)) 4096 =
      (Inr (built_pool 65536 3 4096), [Memalign 65536 12288, Mlock 65536 12288])"
    using demo_ctor by simp
  from bench_burst_conserves [where consumed = ref_consumed, OF ref_env_ok(1,2) _ ref_env_ok(3,4) c sl, of bench_iteration 0]
  show ?thesis by (intro exI [of _ pool']) auto
qed

text \<open>(C34) A second iteration of the same benchmark state primes all buffers again while the requests
  of the first are still in flight: after it there are exactly two requests in flight for every
  buffer, twice the queue depth the benchmark is meant to hold.\<close>

theorem bench_second_burst_doubles:
  assumes "kernel_documented (be_lib env) v consumed (be_kernel env) 256" and "clock_advances env"
    and "unat qd \<le> 128" and "view_entries v (ring e) = []" and "consumed (ring e) = {#}"
    and "BufferPool_ctor penv (ucast qd) sz = (Inr pool, calls)"
    and "acquire_slots ws (unat qd) pool = Some (slots, pool')"
  shows "\<exists>s'. bench_iterations env qd slots 2 (bench_start env ti qd e pool') = Some s' \<and>
    entry_tokens v (ring (b_engine s')) = consumed (ring (b_engine s')) + repeat_mset 2 (mset (map ucast slots))"
proof -
  note sl = bench_slots [OF assms(6,7)]
  let ?M = "mset (map ucast slots) :: u64 multiset"
  obtain s1 where s1: "bench_iteration env qd slots (bench_start env ti qd e pool') = Some s1"
    "pipe_idle v consumed (unat qd) ({#} + ?M) s1"
    using burst_conserves [OF assms(1,2) bench_start_idle [where consumed = consumed, OF assms(4,5)] assms(3) sl(1,2), of kBurstDuration_ms env ti pool'] assms(3)
    by (auto simp: bench_iteration_def)
  have M: "\<forall>t \<in># {#} + ?M. unat t < unat qd" "size ({#} + ?M) + unat qd \<le> 256"
    using sl assms(3) by (auto simp: unat_ucast_u32)
  from burst_conserves [OF assms(1,2) s1(2) assms(3) sl(1,2) M, of kBurstDuration_ms] s1(1) show ?thesis
    by (auto simp: numeral_2_eq_2 pipe_idle_def pipe_inv_def bench_iteration_def)
qed

theorem bench_second_burst_doubles_witness:
  "\<exists>pool' s'. bench_iterations ref_env 3 [2, 1, 0] 2 (bench_start ref_env 0 3 ref_start pool') = Some s' \<and>
    entry_tokens (ref_view 256) (ring (b_engine s')) = ref_consumed (ring (b_engine s')) + repeat_mset 2 {#2, 1, 0#}"
proof -
  obtain pool' where sl: "acquire_slots [] (unat (3 :: u32)) (built_pool 65536 3 4096) = Some ([2, 1, 0], pool')"
    using ref_slots by blast
  have c: "BufferPool_ctor demo_env (ucast (3 :: u32)) 4096 =
      (Inr (built_pool 65536 3 4096), [Memalign 65536 12288, Mlock 65536 12288])"
    using demo_ctor by simp
  from bench_second_burst_doubles [where consumed = ref_consumed, OF ref_env_ok(1,2) _ ref_env_ok(3,4) c sl, of 0]
  show ?thesis by (intro exI [of _ pool']) (simp del: bench_iterations.simps)
qed

text \<open>Whenever the benchmark returns, skipped or done, it has closed the scratch file and left no
  path behind.\<close>

lemma bench_closes_scratch_file:
  assumes "BM_SqpollIops env ti qd n cs = Some (outcome, calls)" and "\<forall>err. outcome \<noteq> Bench_threw err"
  shows "fds_after calls [] = [] \<and> \<not> path_after calls False"
proof -
  obtain fd cl where m: "MakeScratchFile (be_file env) = (fd, cl)" by fastforce
  then have cl: "fds_after cl [] = (if fd < 0 then [] else [fd])" "\<not> path_after cl False"
    by (auto simp: MakeScratchFile_def Let_def split: if_splits)
  have "calls = [] \<or> calls = cl \<and> fd < 0 \<or> calls = cl @ [Fc_close fd] \<and> 0 \<le> fd"
    using assms m by (auto simp: BM_SqpollIops_def Let_def split: if_splits sum.splits option.splits prod.splits)
  with cl show ?thesis by (auto simp: fds_after_append path_after_append)
qed

end
