(* ===== verification/Shared_Poller.thy ===== *)
theory Shared_Poller
  imports Sqpoll_Pipeline
begin

text \<open>
  \<open>BM_SqpollSharedPollerIops\<close> of benchmarks/iops_throughput_benchmark.cpp: several engines on the kernel
  poller of the first, one context (file, pool, queues, counters) per thread, worker threads that run
  the burst of \<open>Sqpoll_Pipeline\<close> each on its own context, and the summed counters. Every thread has an
  environment of its own (clock, kernel, files, memory), all over the same liburing.
\<close>

section \<open>Engines and contexts\<close>

record ('r, 'g) ThreadContext =
  tc_bench :: "('r, 'g) bench"
  tc_fd :: int
  tc_slot_buf :: "u32 list"

text \<open>The followers attach to the master; an exception of their constructor is not caught.\<close>

fun make_followers :: "'r liburing \<Rightarrow> u32 \<Rightarrow> 'r SqpollEngine \<Rightarrow> nat \<Rightarrow> engine_error + 'r SqpollEngine list" where
  "make_followers lib idle_ms master 0 = Inr []"
| "make_followers lib idle_ms master (Suc n) =
     (case SqpollEngine_ctor lib kRingEntries idle_ms (Some master) of Inl err \<Rightarrow> Inl err
      | Inr e \<Rightarrow> (case make_followers lib idle_ms master n of Inl err \<Rightarrow> Inl err | Inr es \<Rightarrow> Inr (e # es)))"

datatype shared_stop = Stop_skipped string | Stop_engine engine_error | Stop_pool pool_error | Stop_length

text \<open>One pass of the set-up loop. Outer \<open>None\<close>: no defined result.\<close>

definition make_context :: "('r, 'g) bench_env \<Rightarrow> u32 \<Rightarrow> nat \<Rightarrow> 'r SqpollEngine \<Rightarrow>
    ((shared_stop + ('r, 'g) ThreadContext) \<times> file_call list) option" where
  "make_context env queue_depth i engine =
     (let (fd, calls) = MakeScratchFile (be_file env) in
      if fd < 0 then Some (Inl (Stop_skipped ''failed to create O_DIRECT scratch file (needs real storage under /tmp)''), calls)
      else let (ret, e1) = register_files (be_lib env) engine [word_of_int fd] in
      if ret \<noteq> 0 then Some (Inl (Stop_skipped ''register_files failed''), calls @ [Fc_close fd])
      else case fst (BufferPool_ctor (be_pool env) (ucast queue_depth) (ucast kBlockSize)) of
        Inl err \<Rightarrow> Some (Inl (Stop_pool err), calls)
      | Inr pool \<Rightarrow>
      (let (ret, e2) = register_buffers (be_lib env) e1 pool in
       if ret \<noteq> 0 then Some (Inl (Stop_skipped ''register_buffers failed''), calls)
       else case acquire_slots (be_ws env) (unat queue_depth) pool of
         None \<Rightarrow> None
       | Some (slots, pool') \<Rightarrow> Some (Inr \<lparr>tc_bench = bench_start env (of_nat i) queue_depth e2 pool', tc_fd = fd,
           tc_slot_buf = slots\<rparr>, calls)))"

text \<open>The loop: the first context that stops it ends the function; what the earlier ones opened is not
  closed there.\<close>

fun make_contexts :: "(nat \<Rightarrow> ('r, 'g) bench_env) \<Rightarrow> u32 \<Rightarrow> nat \<Rightarrow> 'r SqpollEngine list \<Rightarrow>
    ((shared_stop + ('r, 'g) ThreadContext list) \<times> file_call list) option" where
  "make_contexts envs queue_depth i [] = Some (Inr [], [])"
| "make_contexts envs queue_depth i (e # es) =
     (case make_context (envs i) queue_depth i e of
        None \<Rightarrow> None
      | Some (Inl stop, calls) \<Rightarrow> Some (Inl stop, calls)
      | Some (Inr ctx, calls) \<Rightarrow> (case make_contexts envs queue_depth (Suc i) es of
          None \<Rightarrow> None
        | Some (Inl stop, calls') \<Rightarrow> Some (Inl stop, calls @ calls')
        | Some (Inr ctxs, calls') \<Rightarrow> Some (Inr (ctx # ctxs), calls @ calls')))"

section \<open>The benchmark\<close>

text \<open>One iteration: every worker runs its burst on its own context, and all are joined.\<close>

fun run_contexts :: "(nat \<Rightarrow> ('r, 'g) bench_env) \<Rightarrow> u32 \<Rightarrow> nat \<Rightarrow> ('r, 'g) ThreadContext list \<Rightarrow>
    ('r, 'g) ThreadContext list option" where
  "run_contexts envs queue_depth i [] = Some []"
| "run_contexts envs queue_depth i (ctx # ctxs) =
     (case shared_poller_worker (envs i) queue_depth (tc_slot_buf ctx) (tc_bench ctx) of
        None \<Rightarrow> None
      | Some s \<Rightarrow> map_option (Cons (ctx\<lparr>tc_bench := s\<rparr>)) (run_contexts envs queue_depth (Suc i) ctxs))"

fun shared_iterations :: "(nat \<Rightarrow> ('r, 'g) bench_env) \<Rightarrow> u32 \<Rightarrow> nat \<Rightarrow> ('r, 'g) ThreadContext list \<Rightarrow>
    ('r, 'g) ThreadContext list option" where
  "shared_iterations envs queue_depth 0 ctxs = Some ctxs"
| "shared_iterations envs queue_depth (Suc n) ctxs =
     (case run_contexts envs queue_depth 0 ctxs of None \<Rightarrow> None
      | Some ctxs' \<Rightarrow> shared_iterations envs queue_depth n ctxs')"

datatype shared_outcome = Shared_stopped shared_stop | Shared_done counters u64 u64

definition shared_report :: "fp \<Rightarrow> counters \<Rightarrow> ('r, 'g) ThreadContext list \<Rightarrow> shared_outcome" where
  "shared_report f cs ctxs =
     (let total_ops = sum_list (map (b_ops \<circ> tc_bench) ctxs);
          total_calls = sum_list (map (b_calls \<circ> tc_bench) ctxs);
          all_latencies = concat (map (b_latencies \<circ> tc_bench) ctxs) in
      Shared_done (ReportCallsPerOp f (fst (ReportPercentiles f cs all_latencies)) total_calls total_ops)
        total_ops (total_ops * ucast kBlockSize))"

text \<open>With no thread the reservation for \<open>num_threads - 1\<close> followers exceeds every vector.\<close>

definition BM_SqpollSharedPollerIops :: "'r liburing \<Rightarrow> string option \<Rightarrow> fp \<Rightarrow> (nat \<Rightarrow> ('r, 'g) bench_env) \<Rightarrow>
    int \<Rightarrow> u32 \<Rightarrow> nat \<Rightarrow> counters \<Rightarrow> (shared_outcome \<times> file_call list) option" where
  "BM_SqpollSharedPollerIops lib idle f envs num_threads queue_depth iterations cs =
     (case SqpollEngine_ctor lib kRingEntries (SqThreadIdleMs idle) None of
        Inl _ \<Rightarrow> Some (Shared_stopped (Stop_skipped ''SQPOLL io_uring unavailable in this environment''), [])
      | Inr master \<Rightarrow>
      if num_threads < 1 then Some (Shared_stopped Stop_length, [])
      else case make_followers lib (SqThreadIdleMs idle) master (nat (num_threads - 1)) of
        Inl err \<Rightarrow> Some (Shared_stopped (Stop_engine err), [])
      | Inr followers \<Rightarrow>
      (case make_contexts (\<lambda>i. (envs i)\<lparr>be_lib := lib\<rparr>) queue_depth 0 (master # followers) of
         None \<Rightarrow> None
       | Some (Inl stop, calls) \<Rightarrow> Some (Shared_stopped stop, calls)
       | Some (Inr ctxs, calls) \<Rightarrow>
       (case shared_iterations (\<lambda>i. (envs i)\<lparr>be_lib := lib\<rparr>) queue_depth iterations ctxs of
          None \<Rightarrow> None
        | Some ctxs' \<Rightarrow> Some (shared_report f cs ctxs', calls @ map (Fc_close \<circ> tc_fd) ctxs'))))"

section \<open>Descriptors\<close>

lemma make_context_fds:
  assumes "make_context env qd i e = Some (Inr ctx, calls)"
  shows "fds_after calls fds = tc_fd ctx # fds"
proof -
  obtain fd cl where m: "MakeScratchFile (be_file env) = (fd, cl)" by fastforce
  have "calls = cl \<and> tc_fd ctx = fd \<and> 0 \<le> fd"
    using assms m by (auto simp: make_context_def Let_def split: if_splits sum.splits option.splits prod.splits)
  with m show ?thesis by (auto simp: MakeScratchFile_def Let_def split: if_splits)
qed

lemma make_contexts_fds:
  "make_contexts envs qd i es = Some (Inr ctxs, calls) \<Longrightarrow>
   mset (fds_after calls fds) = mset fds + mset (map tc_fd ctxs) \<and> length ctxs = length es"
proof (induction es arbitrary: i ctxs calls fds)
  case (Cons e es)
  then obtain ctx c1 ctxs' c2 where c: "make_context (envs i) qd i e = Some (Inr ctx, c1)"
    "make_contexts envs qd (Suc i) es = Some (Inr ctxs', c2)" "ctxs = ctx # ctxs'" "calls = c1 @ c2"
    by (auto split: option.splits prod.splits sum.splits)
  from Cons.IH [OF c(2), of "tc_fd ctx # fds"] c(3,4) make_context_fds [OF c(1)] show ?case
    by (simp add: fds_after_append)
qed simp

lemma make_contexts_append:
  assumes "make_contexts envs qd i es = Some (Inr ctxs, calls)"
    and "make_context (envs (i + length es)) qd (i + length es) e = Some (Inl stop, cl)"
  shows "make_contexts envs qd i (es @ e # es') = Some (Inl stop, calls @ cl)"
  using assms
proof (induction es arbitrary: i ctxs calls)
  case (Cons x es)
  then obtain ctx c1 ctxs' c2 where c: "make_context (envs i) qd i x = Some (Inr ctx, c1)"
    "make_contexts envs qd (Suc i) es = Some (Inr ctxs', c2)" "ctxs = ctx # ctxs'" "calls = c1 @ c2"
    by (auto split: option.splits prod.splits sum.splits)
  from Cons.IH [OF c(2)] Cons.prems(2) c show ?case by simp
qed simp




lemma failed_file_opens_nothing:
  assumes "MakeScratchFile env = (fd, cl)" and "fd < 0"
  shows "fds_after cl fds = fds"
  using assms by (auto simp: MakeScratchFile_def Let_def split: if_splits)

text \<open>What a failed set-up of one context leaves open: nothing when there is no file or it cannot be
  registered, and the file itself when the pool throws or cannot be registered.\<close>

lemma make_context_fails:
  assumes "make_context env qd i e = Some (Inl stop, cl)"
  shows "(stop = Stop_skipped ''failed to create O_DIRECT scratch file (needs real storage under /tmp)'' \<or>
      stop = Stop_skipped ''register_files failed'') \<and> fds_after cl fds = fds \<or>
    (stop = Stop_skipped ''register_buffers failed'' \<or> (\<exists>err. stop = Stop_pool err)) \<and>
      fds_after cl fds = fst (MakeScratchFile (be_file env)) # fds"
proof -
  obtain fd c where m: "MakeScratchFile (be_file env) = (fd, c)" by fastforce
  show ?thesis
  proof (cases "fd < 0")
    case True
    with assms m failed_file_opens_nothing [OF m True, of fds] show ?thesis by (simp add: make_context_def)
  next
    case False
    then have "fds_after c fds = fd # fds" using m by (auto simp: MakeScratchFile_def Let_def split: if_splits)
    then show ?thesis using assms m False
      by (auto simp: make_context_def Let_def fds_after_append split: if_splits sum.splits option.splits prod.splits)
  qed
qed

section \<open>A complete run\<close>










section \<open>Properties\<close>

text \<open>(C35) A set-up of the shared-poller benchmark that fails in some thread leaks descriptors, whatever
  fails there. When the contexts of the first threads are set up and the set-up of the next one fails, the
  benchmark ends with the scratch files of all earlier threads open, since only the end of a complete run
  closes them; when it is the pool that throws or \<open>register_buffers\<close> that fails, the scratch file of the
  failing thread stays open too. These and the failures of the scratch file and of \<open>register_files\<close> are
  the only ones.\<close>

theorem shared_poller_leaks_fds:
  assumes "SqpollEngine_ctor lib kRingEntries (SqThreadIdleMs idle) None = Inr master" and "0 < num_threads"
    and "make_followers lib (SqThreadIdleMs idle) master (nat (num_threads - 1)) = Inr followers"
    and "master # followers = es @ e # es'"
    and "make_contexts (\<lambda>i. (envs i)\<lparr>be_lib := lib\<rparr>) queue_depth 0 es = Some (Inr ctxs, calls)"
    and "make_context ((envs (length es))\<lparr>be_lib := lib\<rparr>) queue_depth (length es) e = Some (Inl stop, cl)"
  shows "BM_SqpollSharedPollerIops lib idle f envs num_threads queue_depth iterations cs =
      Some (Shared_stopped stop, calls @ cl) \<and> length ctxs = length es \<and>
    ((stop = Stop_skipped ''failed to create O_DIRECT scratch file (needs real storage under /tmp)'' \<or>
        stop = Stop_skipped ''register_files failed'') \<and>
      mset (fds_after (calls @ cl) []) = mset (map tc_fd ctxs) \<or>
     (stop = Stop_skipped ''register_buffers failed'' \<or> (\<exists>err. stop = Stop_pool err)) \<and>
      mset (fds_after (calls @ cl) []) = mset (map tc_fd ctxs) + {#fst (MakeScratchFile (be_file (envs (length es))))#})"
proof -
  let ?envs = "\<lambda>i. (envs i)\<lparr>be_lib := lib\<rparr>"
  have "make_contexts ?envs queue_depth 0 (master # followers) = Some (Inl stop, calls @ cl)"
    unfolding assms(4) by (rule make_contexts_append [OF assms(5)]) (use assms(6) in simp)
  with assms(1-3) have "BM_SqpollSharedPollerIops lib idle f envs num_threads queue_depth iterations cs =
      Some (Shared_stopped stop, calls @ cl)"
    by (simp add: BM_SqpollSharedPollerIops_def del: make_contexts.simps)
  moreover have opened: "mset (fds_after calls []) = mset (map tc_fd ctxs)" and "length ctxs = length es"
    using make_contexts_fds [OF assms(5), of "[]"] by simp_all
  moreover have "be_file ((envs (length es))\<lparr>be_lib := lib\<rparr>) = be_file (envs (length es))" by simp
  note make_context_fails [OF assms(6), of "fds_after calls []", unfolded this]
  then have "(stop = Stop_skipped ''failed to create O_DIRECT scratch file (needs real storage under /tmp)'' \<or>
        stop = Stop_skipped ''register_files failed'') \<and>
      mset (fds_after (calls @ cl) []) = mset (map tc_fd ctxs) \<or>
     (stop = Stop_skipped ''register_buffers failed'' \<or> (\<exists>err. stop = Stop_pool err)) \<and>
      mset (fds_after (calls @ cl) []) = mset (map tc_fd ctxs) + {#fst (MakeScratchFile (be_file (envs (length es))))#}"
    unfolding fds_after_append by (rule disj_forward) (erule conjE, rule conjI, assumption, simp add: opened)+
  ultimately show ?thesis by blast
qed

text \<open>Two threads, of which the second gets no memory for its pool.\<close>

definition second_fails :: "nat \<Rightarrow> (ref_ring, nat) bench_env" where
  "second_fails i = (if i = 0 then ref_env else ref_env\<lparr>be_file := \<lparr>fe_mkstemp = 6, fe_open = 6, fe_ftruncate = 0\<rparr>,
     be_pool := demo_env\<lparr>env_memalign := \<lambda>_ _. Inl 12\<rparr>\<rparr>)"

lemma ref_engine: "SqpollEngine_ctor (ref_lib 256) kRingEntries (SqThreadIdleMs None) a = Inr \<lparr>ring = ref_new\<rparr>"
  by (simp add: SqpollEngine_ctor_def ref_lib_def kRingEntries_def split: option.split)

lemma ref_followers: "make_followers (ref_lib 256) (SqThreadIdleMs None) m n = Inr (replicate n \<lparr>ring = ref_new\<rparr>)"
  by (induction n) (simp_all add: ref_engine)

lemma ref_registers: "register_files (ref_lib 256) e fds = (0, e)" "register_buffers (ref_lib 256) e pool = (0, e)"
  by (simp_all add: register_files_def register_buffers_def register_with_def ref_lib_def)

theorem shared_poller_leaks_fds_witness:
  "\<exists>err calls. BM_SqpollSharedPollerIops (ref_lib 256) None (be_fp ref_env) second_fails 2 3 1 (\<lambda>_. None) =
     Some (Shared_stopped (Stop_pool err), calls) \<and> mset (fds_after calls []) = {#5, 6#}"
proof -
  let ?env = "\<lambda>i. (second_fails i)\<lparr>be_lib := ref_lib 256\<rparr>" and ?e = "\<lparr>ring = ref_new\<rparr>"
  have fs: "make_followers (ref_lib 256) (SqThreadIdleMs None) ?e (nat (2 - 1)) = Inr [?e]" unfolding ref_followers by simp
  obtain pool' where sl: "acquire_slots [] (unat (3 :: u32)) (built_pool 65536 3 4096) = Some ([2, 1, 0], pool')"
    using ref_slots by blast
  have "\<exists>ctx calls. make_context (?env 0) 3 0 ?e = Some (Inr ctx, calls) \<and> tc_fd ctx = 5"
    using sl demo_ctor by (simp add: make_context_def second_fails_def ref_env_def MakeScratchFile_def ref_registers kBlockSize_def)
  then obtain ctx calls where c: "make_contexts ?env 3 0 [?e] = Some (Inr [ctx], calls)" "tc_fd ctx = 5" by auto
  have pool: "\<exists>err cl. BufferPool_ctor (demo_env\<lparr>env_memalign := \<lambda>_ _. Inl 12\<rparr>) 3 4096 = (Inl err, cl)"
    by (simp add: BufferPool_ctor_def demo_env_def)
  have fd: "MakeScratchFile (be_file (second_fails 1)) = (6, [Fc_mkstemp 6, Fc_close 6, Fc_open 6, Fc_unlink, Fc_ftruncate 6 kFileBytes])"
    by (simp add: second_fails_def MakeScratchFile_def Let_def)
  obtain err cl where st: "make_context (?env (length [?e])) 3 (length [?e]) ?e = Some (Inl (Stop_pool err), cl)"
    using pool by (auto simp: make_context_def second_fails_def MakeScratchFile_def ref_registers kBlockSize_def)
  from shared_poller_leaks_fds [OF ref_engine _ fs _ c(1) st, of "[]" "be_fp ref_env" 1 "\<lambda>_. None"] c(2) fd show ?thesis
    by auto
qed



end
