(* ===== verification/Baseline_Bench.thy ===== *)
theory Baseline_Bench
  imports Sqpoll_Pipeline
begin

text \<open>
  The baselines of benchmarks/iops_throughput_benchmark.cpp: \<open>AlignedBuffer\<close>, \<open>BM_PosixPreadPwriteIops\<close>,
  \<open>BM_LibaioIops\<close> and \<open>BM_PlainIoUringIops\<close>. They use the helpers of \<open>Bench_Support\<close> but not the library;
  the operating system behind them (files, memory, libaio, \<open>io_uring\<close> without a poller) is a parameter.
\<close>

section \<open>Common parts\<close>

text \<open>The parameters: successive readings of the clock, the random distribution, the answers of the file
  system, the results of the \<open>posix_memalign\<close> calls (\<open>None\<close>: an error) and double arithmetic.\<close>

record 'g base_env =
  ba_clock :: "nat \<Rightarrow> real"
  ba_draw :: "u64 \<Rightarrow> u64 \<Rightarrow> 'g \<Rightarrow> u64 \<times> 'g"
  ba_seed :: "u32 \<Rightarrow> 'g"
  ba_file :: file_env
  ba_memalign :: "nat \<Rightarrow> addr option"
  ba_fp :: fp

definition AlignedBuffer :: "addr option \<Rightarrow> addr" where
  "AlignedBuffer res = (case res of None \<Rightarrow> 0 | Some ptr \<Rightarrow> ptr)"

definition aligned_valid :: "addr \<Rightarrow> bool" where
  "aligned_valid ptr \<longleftrightarrow> ptr \<noteq> 0"

text \<open>The buffers of the pipelined baselines; \<open>None\<close> when one of them is not valid.\<close>

fun make_buffers :: "(nat \<Rightarrow> addr option) \<Rightarrow> nat \<Rightarrow> nat \<Rightarrow> addr list option" where
  "make_buffers memalign i 0 = Some []"
| "make_buffers memalign i (Suc n) =
     (let b = AlignedBuffer (memalign i) in
      if aligned_valid b then map_option (Cons b) (make_buffers memalign (Suc i) n) else None)"

text \<open>What the loop of a baseline keeps.\<close>

record 'g client =
  c_submitted_at :: "real list"
  c_rng :: 'g
  c_write_turn :: bool
  c_ops :: u64
  c_calls :: u64
  c_latencies :: "real list"
  c_tick :: nat

definition client_start :: "'g base_env \<Rightarrow> u32 \<Rightarrow> nat \<Rightarrow> 'g client" where
  "client_start env thread_index depth = \<lparr>c_submitted_at = replicate depth 0, c_rng = ba_seed env (thread_index + 1),
     c_write_turn = True, c_ops = 0, c_calls = 0, c_latencies = [], c_tick = 0\<rparr>"

definition client_now :: "'g base_env \<Rightarrow> 'g client \<Rightarrow> real \<times> 'g client" where
  "client_now env c = (ba_clock env (c_tick c), c\<lparr>c_tick := Suc (c_tick c)\<rparr>)"

definition client_call :: "'g client \<Rightarrow> 'g client" where
  "client_call c = c\<lparr>c_calls := c_calls c + 1\<rparr>"

text \<open>A completed operation of a slot; an index outside \<open>submitted_at\<close> is undefined.\<close>

definition client_done :: "real \<Rightarrow> u32 \<Rightarrow> 'g client \<Rightarrow> 'g client option" where
  "client_done now slot c =
     (if length (c_submitted_at c) \<le> unat slot then None
      else Some (c\<lparr>c_latencies := c_latencies c @ [now - c_submitted_at c ! unat slot], c_ops := c_ops c + 1\<rparr>))"

text \<open>The time stamp of a slot and the change of direction, at the end of \<open>prep\<close>.\<close>

definition client_stamp :: "'g base_env \<Rightarrow> u32 \<Rightarrow> 'g client \<Rightarrow> 'g client" where
  "client_stamp env slot c =
     (let (now, c') = client_now env c in
      c'\<lparr>c_submitted_at := (c_submitted_at c')[unat slot := now], c_write_turn := \<not> c_write_turn c'\<rparr>)"

definition client_report :: "'g base_env \<Rightarrow> counters \<Rightarrow> 'g client \<Rightarrow> bench_outcome" where
  "client_report env cs c =
     Bench_done (ReportCallsPerOp (ba_fp env) (fst (ReportPercentiles (ba_fp env) cs (c_latencies c))) (c_calls c) (c_ops c))
       (c_ops c) (c_ops c * ucast kBlockSize)"

definition no_scratch :: string where
  "no_scratch = ''failed to create O_DIRECT scratch file (needs real storage under /tmp)''"

section \<open>POSIX\<close>

datatype posix_call = Pwrite int addr u32 u64 | Pread int addr u32 u64

fun posix_iterations :: "'g base_env \<Rightarrow> int \<Rightarrow> addr \<Rightarrow> nat \<Rightarrow> 'g client \<Rightarrow> posix_call list \<times> 'g client" where
  "posix_iterations env fd buf 0 c = ([], c)"
| "posix_iterations env fd buf (Suc n) c =
     (let (off, rng') = RandomBlockOffset (ba_draw env) (c_rng c);
          (start, c1) = client_now env (c\<lparr>c_rng := rng'\<rparr>);
          call = (if c_write_turn c1 then Pwrite fd buf kBlockSize off else Pread fd buf kBlockSize off);
          (stop, c2) = client_now env c1;
          (calls, c3) = posix_iterations env fd buf n
            (c2\<lparr>c_latencies := c_latencies c2 @ [stop - start], c_write_turn := \<not> c_write_turn c2\<rparr>)
      in (call # calls, c3))"

definition BM_PosixPreadPwriteIops :: "'g base_env \<Rightarrow> u32 \<Rightarrow> nat \<Rightarrow> counters \<Rightarrow>
    bench_outcome \<times> file_call list \<times> posix_call list" where
  "BM_PosixPreadPwriteIops env thread_index iterations cs =
     (let (fd, calls) = MakeScratchFile (ba_file env) in
      if fd < 0 then (Bench_skipped no_scratch, calls, [])
      else let buf = AlignedBuffer (ba_memalign env 0) in
      if \<not> aligned_valid buf then (Bench_skipped ''posix_memalign failed'', calls @ [Fc_close fd], [])
      else let (io, c) = posix_iterations env fd buf iterations (client_start env thread_index 0) in
      (Bench_done ((fst (ReportPercentiles (ba_fp env) cs (c_latencies c)))(''calls_per_op'' \<mapsto> 1))
         (of_nat iterations) (of_nat iterations * ucast kBlockSize), calls @ [Fc_close fd], io))"

section \<open>libaio\<close>

record iocb =
  cb_write :: bool
  cb_fd :: int
  cb_buf :: addr
  cb_nbytes :: u32
  cb_offset :: u64
  cb_data :: u64

text \<open>\<open>io_getevents\<close> waits for one event; \<open>None\<close>: it never returns. Its events are given by their data.\<close>

record 'k libaio =
  io_setup :: "int \<Rightarrow> int \<times> 'k"
  io_submit :: "'k \<Rightarrow> iocb list \<Rightarrow> int \<times> 'k"
  io_getevents :: "'k \<Rightarrow> nat \<Rightarrow> (int \<times> u64 list \<times> 'k) option"

record ('k, 'g) aio_bench =
  a_ctx :: 'k
  a_cbs :: "iocb list"
  a_client :: "'g client"

definition aio_prep :: "'g base_env \<Rightarrow> int \<Rightarrow> addr list \<Rightarrow> u32 \<Rightarrow> ('k, 'g) aio_bench \<Rightarrow> ('k, 'g) aio_bench option" where
  "aio_prep env fd buffers slot s =
     (if length (a_cbs s) \<le> unat slot then None
      else let c = a_client s;
               (off, rng') = RandomBlockOffset (ba_draw env) (c_rng c);
               cb = \<lparr>cb_write = c_write_turn c, cb_fd = fd, cb_buf = buffers ! unat slot, cb_nbytes = kBlockSize,
                 cb_offset = off, cb_data = ucast slot\<rparr>
           in Some (s\<lparr>a_cbs := (a_cbs s)[unat slot := cb], a_client := client_stamp env slot (c\<lparr>c_rng := rng'\<rparr>)\<rparr>))"

fun aio_prime :: "'g base_env \<Rightarrow> int \<Rightarrow> addr list \<Rightarrow> u32 list \<Rightarrow> ('k, 'g) aio_bench \<Rightarrow> ('k, 'g) aio_bench option" where
  "aio_prime env fd buffers [] s = Some s"
| "aio_prime env fd buffers (slot # slots) s =
     (case aio_prep env fd buffers slot s of None \<Rightarrow> None
      | Some s' \<Rightarrow> aio_prime env fd buffers slots s')"

text \<open>The submission of the control blocks of some slots; its result is not looked at.\<close>

definition aio_submit :: "'k libaio \<Rightarrow> u32 list \<Rightarrow> ('k, 'g) aio_bench \<Rightarrow> ('k, 'g) aio_bench" where
  "aio_submit lib slots s = s\<lparr>a_ctx := snd (io_submit lib (a_ctx s) (map (\<lambda>i. a_cbs s ! unat i) slots)),
     a_client := client_call (a_client s)\<rparr>"

fun aio_refill :: "'g base_env \<Rightarrow> int \<Rightarrow> addr list \<Rightarrow> real \<Rightarrow> u64 list \<Rightarrow> u32 list \<Rightarrow> ('k, 'g) aio_bench \<Rightarrow>
    (u32 list \<times> ('k, 'g) aio_bench) option" where
  "aio_refill env fd buffers now [] refill s = Some (refill, s)"
| "aio_refill env fd buffers now (d # events) refill s =
     (let slot = ucast d :: u32 in
      case client_done now slot (a_client s) of None \<Rightarrow> None
      | Some c \<Rightarrow> (case aio_prep env fd buffers slot (s\<lparr>a_client := c\<rparr>) of None \<Rightarrow> None
          | Some s' \<Rightarrow> aio_refill env fd buffers now events (refill @ [slot]) s'))"

partial_function (option) aio_loop :: "'k libaio \<Rightarrow> 'g base_env \<Rightarrow> int \<Rightarrow> addr list \<Rightarrow> u32 \<Rightarrow> real \<Rightarrow>
    ('k, 'g) aio_bench \<Rightarrow> ('k, 'g) aio_bench option" where
  "aio_loop lib env fd buffers queue_depth deadline s =
     (let (now, c) = client_now env (a_client s) in
      if now < deadline then
        (case io_getevents lib (a_ctx s) (unat queue_depth) of
           None \<Rightarrow> None
         | Some (reaped, events, ctx) \<Rightarrow>
             (let c1 = client_call c in
              if reaped \<le> 0 then aio_loop lib env fd buffers queue_depth deadline (s\<lparr>a_ctx := ctx, a_client := c1\<rparr>)
              else let (now, c2) = client_now env c1 in
                case aio_refill env fd buffers now (take (nat reaped) events) [] (s\<lparr>a_ctx := ctx, a_client := c2\<rparr>) of
                  None \<Rightarrow> None
                | Some (refill, s') \<Rightarrow> aio_loop lib env fd buffers queue_depth deadline (aio_submit lib refill s')))
      else Some (s\<lparr>a_client := c\<rparr>))"

definition slot_numbers :: "u32 \<Rightarrow> u32 list" where
  "slot_numbers queue_depth = map of_nat [0..<unat queue_depth]"

definition aio_burst :: "'k libaio \<Rightarrow> 'g base_env \<Rightarrow> int \<Rightarrow> addr list \<Rightarrow> u32 \<Rightarrow> ('k, 'g) aio_bench \<Rightarrow>
    ('k, 'g) aio_bench option" where
  "aio_burst lib env fd buffers queue_depth s =
     (case aio_prime env fd buffers (slot_numbers queue_depth) s of None \<Rightarrow> None
      | Some s1 \<Rightarrow> (let s2 = aio_submit lib (slot_numbers queue_depth) s1;
                        (now, c) = client_now env (a_client s2) in
          aio_loop lib env fd buffers queue_depth (now + 1000 * real_of_int kBurstDuration_ms) (s2\<lparr>a_client := c\<rparr>)))"

fun aio_iterations :: "'k libaio \<Rightarrow> 'g base_env \<Rightarrow> int \<Rightarrow> addr list \<Rightarrow> u32 \<Rightarrow> nat \<Rightarrow> ('k, 'g) aio_bench \<Rightarrow>
    ('k, 'g) aio_bench option" where
  "aio_iterations lib env fd buffers queue_depth 0 s = Some s"
| "aio_iterations lib env fd buffers queue_depth (Suc n) s =
     (case aio_burst lib env fd buffers queue_depth s of None \<Rightarrow> None
      | Some s' \<Rightarrow> aio_iterations lib env fd buffers queue_depth n s')"

definition iocb_default :: iocb where
  "iocb_default = \<lparr>cb_write = False, cb_fd = 0, cb_buf = 0, cb_nbytes = 0, cb_offset = 0, cb_data = 0\<rparr>"

text \<open>The last component tells whether a context was created and whether it was destroyed.\<close>

definition BM_LibaioIops :: "'k libaio \<Rightarrow> 'g base_env \<Rightarrow> u32 \<Rightarrow> u32 \<Rightarrow> nat \<Rightarrow> counters \<Rightarrow>
    (bench_outcome \<times> file_call list \<times> bool \<times> bool) option" where
  "BM_LibaioIops lib env thread_index queue_depth iterations cs =
     (let (ret, ctx) = io_setup lib (sint queue_depth) in
      if ret \<noteq> 0 then Some (Bench_skipped ''io_setup failed'', [], False, False)
      else let (fd, calls) = MakeScratchFile (ba_file env) in
      if fd < 0 then Some (Bench_skipped no_scratch, calls, True, True)
      else case make_buffers (ba_memalign env) 0 (unat queue_depth) of
        None \<Rightarrow> Some (Bench_skipped ''posix_memalign failed'', calls @ [Fc_close fd], True, True)
      | Some buffers \<Rightarrow>
      (case aio_iterations lib env fd buffers queue_depth iterations
          \<lparr>a_ctx = ctx, a_cbs = replicate (unat queue_depth) iocb_default,
           a_client = client_start env thread_index (unat queue_depth)\<rparr> of
         None \<Rightarrow> None
       | Some s \<Rightarrow> Some (client_report env cs (a_client s), calls @ [Fc_close fd], True, True)))"

section \<open>Plain io\_uring\<close>

text \<open>liburing as the engine uses it, and what this baseline uses beyond it. \<open>io_uring_peek_cqe\<close> yields the
  oldest completion if there is one; \<open>io_uring_wait_cqe_nr\<close> waits for one (\<open>None\<close>: it never returns).\<close>

record 'r plain_uring =
  pu_lib :: "'r liburing"
  io_uring_queue_init :: "u32 \<Rightarrow> int \<times> 'r"
  io_uring_prep_write :: "sqe \<Rightarrow> int \<Rightarrow> addr \<Rightarrow> u32 \<Rightarrow> u64 \<Rightarrow> sqe"
  io_uring_prep_read :: "sqe \<Rightarrow> int \<Rightarrow> addr \<Rightarrow> u32 \<Rightarrow> u64 \<Rightarrow> sqe"
  io_uring_wait_cqe_nr :: "'r \<Rightarrow> (int \<times> 'r) option"
  io_uring_peek_cqe :: "'r \<Rightarrow> cqe option \<times> 'r"
  io_uring_cqe_seen :: "'r \<Rightarrow> cqe \<Rightarrow> 'r"

record ('r, 'g) plain_bench =
  u_ring :: 'r
  u_client :: "'g client"

text \<open>A null entry is passed on to the preparation, which writes through it: undefined.\<close>

definition plain_prep :: "'r plain_uring \<Rightarrow> 'g base_env \<Rightarrow> int \<Rightarrow> addr list \<Rightarrow> u32 \<Rightarrow> ('r, 'g) plain_bench \<Rightarrow>
    ('r, 'g) plain_bench option" where
  "plain_prep pu env fd buffers slot s =
     (let c = u_client s;
          (off, rng') = RandomBlockOffset (ba_draw env) (c_rng c) in
      if length buffers \<le> unat slot then None
      else case io_uring_get_sqe (pu_lib pu) (u_ring s) of
        (None, r) \<Rightarrow> None
      | (Some pos, r) \<Rightarrow>
          (let sqe = load_sqe (pu_lib pu) r pos;
               sqe = (if c_write_turn c then io_uring_prep_write pu sqe fd (buffers ! unat slot) kBlockSize off
                 else io_uring_prep_read pu sqe fd (buffers ! unat slot) kBlockSize off);
               sqe = io_uring_sqe_set_data (pu_lib pu) sqe (ucast slot) in
           Some \<lparr>u_ring = store_sqe (pu_lib pu) r pos sqe, u_client = client_stamp env slot (c\<lparr>c_rng := rng'\<rparr>)\<rparr>))"

fun plain_prime :: "'r plain_uring \<Rightarrow> 'g base_env \<Rightarrow> int \<Rightarrow> addr list \<Rightarrow> u32 list \<Rightarrow> ('r, 'g) plain_bench \<Rightarrow>
    ('r, 'g) plain_bench option" where
  "plain_prime pu env fd buffers [] s = Some s"
| "plain_prime pu env fd buffers (slot # slots) s =
     (case plain_prep pu env fd buffers slot s of None \<Rightarrow> None
      | Some s' \<Rightarrow> plain_prime pu env fd buffers slots s')"

definition plain_submit :: "'r plain_uring \<Rightarrow> ('r, 'g) plain_bench \<Rightarrow> ('r, 'g) plain_bench" where
  "plain_submit pu s = s\<lparr>u_ring := snd (io_uring_submit (pu_lib pu) (u_ring s)), u_client := client_call (u_client s)\<rparr>"

partial_function (option) plain_reap :: "'r plain_uring \<Rightarrow> 'g base_env \<Rightarrow> int \<Rightarrow> addr list \<Rightarrow> u32 \<Rightarrow>
    ('r, 'g) plain_bench \<Rightarrow> (u32 \<times> ('r, 'g) plain_bench) option" where
  "plain_reap pu env fd buffers refilled s =
     (case io_uring_peek_cqe pu (u_ring s) of
        (None, r) \<Rightarrow> Some (refilled, s\<lparr>u_ring := r\<rparr>)
      | (Some peeked, r) \<Rightarrow>
          (let (now, c) = client_now env (u_client s);
               slot = ucast (io_uring_cqe_get_data (pu_lib pu) peeked) :: u32 in
           case client_done now slot c of None \<Rightarrow> None
           | Some c' \<Rightarrow>
               (case plain_prep pu env fd buffers slot \<lparr>u_ring = io_uring_cqe_seen pu r peeked, u_client = c'\<rparr> of
                  None \<Rightarrow> None
                | Some s' \<Rightarrow> plain_reap pu env fd buffers (refilled + 1) s')))"

partial_function (option) plain_loop :: "'r plain_uring \<Rightarrow> 'g base_env \<Rightarrow> int \<Rightarrow> addr list \<Rightarrow> real \<Rightarrow>
    ('r, 'g) plain_bench \<Rightarrow> ('r, 'g) plain_bench option" where
  "plain_loop pu env fd buffers deadline s =
     (let (now, c) = client_now env (u_client s) in
      if now < deadline then
        (case io_uring_wait_cqe_nr pu (u_ring s) of
           None \<Rightarrow> None
         | Some (ret, r) \<Rightarrow>
             if ret < 0 then plain_loop pu env fd buffers deadline \<lparr>u_ring = r, u_client = c\<rparr>
             else (case plain_reap pu env fd buffers 0 \<lparr>u_ring = r, u_client = client_call c\<rparr> of
                None \<Rightarrow> None
              | Some (refilled, s') \<Rightarrow>
                  plain_loop pu env fd buffers deadline (if refilled > 0 then plain_submit pu s' else s')))
      else Some (s\<lparr>u_client := c\<rparr>))"

definition plain_burst :: "'r plain_uring \<Rightarrow> 'g base_env \<Rightarrow> int \<Rightarrow> addr list \<Rightarrow> u32 \<Rightarrow> ('r, 'g) plain_bench \<Rightarrow>
    ('r, 'g) plain_bench option" where
  "plain_burst pu env fd buffers queue_depth s =
     (case plain_prime pu env fd buffers (slot_numbers queue_depth) s of None \<Rightarrow> None
      | Some s1 \<Rightarrow> (let s2 = plain_submit pu s1; (now, c) = client_now env (u_client s2) in
          plain_loop pu env fd buffers (now + 1000 * real_of_int kBurstDuration_ms) (s2\<lparr>u_client := c\<rparr>)))"

fun plain_iterations :: "'r plain_uring \<Rightarrow> 'g base_env \<Rightarrow> int \<Rightarrow> addr list \<Rightarrow> u32 \<Rightarrow> nat \<Rightarrow> ('r, 'g) plain_bench \<Rightarrow>
    ('r, 'g) plain_bench option" where
  "plain_iterations pu env fd buffers queue_depth 0 s = Some s"
| "plain_iterations pu env fd buffers queue_depth (Suc n) s =
     (case plain_burst pu env fd buffers queue_depth s of None \<Rightarrow> None
      | Some s' \<Rightarrow> plain_iterations pu env fd buffers queue_depth n s')"

text \<open>The last two components: the ring was created, and it was shut down.\<close>

definition BM_PlainIoUringIops :: "'r plain_uring \<Rightarrow> 'g base_env \<Rightarrow> u32 \<Rightarrow> u32 \<Rightarrow> nat \<Rightarrow> counters \<Rightarrow>
    (bench_outcome \<times> file_call list \<times> bool \<times> bool) option" where
  "BM_PlainIoUringIops pu env thread_index queue_depth iterations cs =
     (let (ret, r) = io_uring_queue_init pu kRingEntries in
      if ret < 0 then Some (Bench_skipped ''io_uring_queue_init failed'', [], False, False)
      else let (fd, calls) = MakeScratchFile (ba_file env) in
      if fd < 0 then Some (Bench_skipped no_scratch, calls, True, True)
      else case make_buffers (ba_memalign env) 0 (unat queue_depth) of
        None \<Rightarrow> Some (Bench_skipped ''posix_memalign failed'', calls @ [Fc_close fd], True, True)
      | Some buffers \<Rightarrow>
      (case plain_iterations pu env fd buffers queue_depth iterations
          \<lparr>u_ring = r, u_client = client_start env thread_index (unat queue_depth)\<rparr> of
         None \<Rightarrow> None
       | Some s \<Rightarrow> Some (client_report env cs (u_client s), calls @ [Fc_close fd], True, True)))"

section \<open>The POSIX baseline\<close>

fun posix_ok :: "int \<Rightarrow> addr \<Rightarrow> bool \<Rightarrow> posix_call \<Rightarrow> bool" where
  "posix_ok fd buf w (Pwrite fd' buf' n off) \<longleftrightarrow> w \<and> fd' = fd \<and> buf' = buf \<and> n = kBlockSize \<and>
     4096 dvd unat off \<and> unat off + unat n \<le> unat kFileBytes"
| "posix_ok fd buf w (Pread fd' buf' n off) \<longleftrightarrow> \<not> w \<and> fd' = fd \<and> buf' = buf \<and> n = kBlockSize \<and>
     4096 dvd unat off \<and> unat off + unat n \<le> unat kFileBytes"

lemma posix_iterations_calls:
  assumes "draw_documented (ba_draw env)"
  shows "posix_iterations env fd buf n c = (calls, c') \<Longrightarrow> length calls = n \<and>
    length (c_latencies c') = length (c_latencies c) + n \<and>
    (\<forall>i < n. posix_ok fd buf (c_write_turn c = even i) (calls ! i))"
proof (induction n arbitrary: c calls c')
  case (Suc n)
  obtain off rng where o: "RandomBlockOffset (ba_draw env) (c_rng c) = (off, rng)" by fastforce
  let ?c = "c\<lparr>c_rng := rng, c_tick := Suc (Suc (c_tick c)), c_latencies := c_latencies c @
    [ba_clock env (Suc (c_tick c)) - ba_clock env (c_tick c)], c_write_turn := \<not> c_write_turn c\<rparr>"
  obtain cs c2 where r: "posix_iterations env fd buf n ?c = (cs, c2)" by fastforce
  then have eq: "calls = (if c_write_turn c then Pwrite fd buf kBlockSize off else Pread fd buf kBlockSize off) # cs" "c' = c2"
    using Suc.prems o by (auto simp: client_now_def Let_def split: if_splits)
  have "4096 dvd unat off \<and> unat off + unat kBlockSize \<le> unat kFileBytes"
    using random_block_in_file [OF assms, of "c_rng c"] o by simp
  with Suc.IH [OF r] eq show ?case by (auto simp: less_Suc_eq_0_disj)
qed simp

text \<open>The POSIX baseline transfers one block per iteration, writes and reads in turn and a write first, each
  inside the scratch file, and closes the file.\<close>

lemma posix_baseline:
  assumes "draw_documented (ba_draw env)" and "BM_PosixPreadPwriteIops env ti n cs = (Bench_done m ops bytes, calls, io)"
  shows "length io = n \<and> ops = of_nat n \<and> fds_after calls [] = [] \<and>
    (\<forall>i < n. posix_ok (fst (MakeScratchFile (ba_file env))) (AlignedBuffer (ba_memalign env 0)) (even i) (io ! i))"
proof -
  obtain fd cl where m: "MakeScratchFile (ba_file env) = (fd, cl)" by fastforce
  obtain c where c: "0 \<le> fd" "posix_iterations env fd (AlignedBuffer (ba_memalign env 0)) n (client_start env ti 0) = (io, c)"
    "calls = cl @ [Fc_close fd]" "ops = of_nat n"
    using assms(2) m by (auto simp: BM_PosixPreadPwriteIops_def Let_def split: if_splits prod.splits)
  have "fds_after cl [] = [fd]" using scratch_file_no_leak [of "ba_file env"] m c(1) by simp
  with posix_iterations_calls [OF assms(1) c(2)] c m show ?thesis by (simp add: fds_after_append client_start_def)
qed

section \<open>The depth of the libaio pipeline\<close>

text \<open>\<open>flight\<close> are the data of the operations a context has accepted and not reported.\<close>

definition libaio_documented :: "'k libaio \<Rightarrow> ('k \<Rightarrow> u64 multiset) \<Rightarrow> bool" where
  "libaio_documented lib flight \<longleftrightarrow>
     (\<forall>k cbs. case io_submit lib k cbs of (ret, k') \<Rightarrow> ret \<le> int (length cbs) \<and>
        flight k' = flight k + mset (map cb_data (take (nat ret) cbs))) \<and>
     (\<forall>k m. flight k = {#} \<longrightarrow> io_getevents lib k m = None) \<and>
     (\<forall>k m. flight k \<noteq> {#} \<longrightarrow> (\<exists>ret events k'. io_getevents lib k m = Some (ret, events, k') \<and>
        flight k = flight k' + mset (take (nat ret) events)))"

definition accepts_all :: "'k libaio \<Rightarrow> bool" where
  "accepts_all lib \<longleftrightarrow> (\<forall>k cbs. fst (io_submit lib k cbs) = int (length cbs))"

definition clock_runs :: "(nat \<Rightarrow> real) \<Rightarrow> bool" where
  "clock_runs clk \<longleftrightarrow> (\<forall>d. \<exists>N. \<forall>n \<ge> N. d \<le> clk n)"

definition client_ok :: "nat \<Rightarrow> 'g client \<Rightarrow> bool" where
  "client_ok depth c \<longleftrightarrow> length (c_submitted_at c) = depth \<and> c_ops c = of_nat (length (c_latencies c))"

definition aio_ok :: "nat \<Rightarrow> ('k, 'g) aio_bench \<Rightarrow> bool" where
  "aio_ok depth s \<longleftrightarrow> length (a_cbs s) = depth \<and> client_ok depth (a_client s)"

text \<open>The control blocks of these slots are prepared.\<close>

definition prepared :: "u32 list \<Rightarrow> ('k, 'g) aio_bench \<Rightarrow> bool" where
  "prepared slots s \<longleftrightarrow> (\<forall>i \<in> set slots. cb_data (a_cbs s ! unat i) = ucast i)"

lemma client_steps [simp]:
  "client_ok depth (client_call c) = client_ok depth c" "c_tick (client_call c) = c_tick c"
  "client_ok depth (c\<lparr>c_rng := g\<rparr>) = client_ok depth c" "client_ok depth (c\<lparr>c_tick := t\<rparr>) = client_ok depth c"
  "client_ok depth (client_stamp env slot c) = client_ok depth c" "c_tick (client_stamp env slot c) = Suc (c_tick c)"
  by (simp_all add: client_ok_def client_call_def client_stamp_def client_now_def)

lemma client_done_ok:
  assumes "client_ok depth c" and "unat slot < depth"
  shows "\<exists>c'. client_done now slot c = Some c' \<and> client_ok depth c' \<and> c_tick c' = c_tick c"
  using assms by (simp add: client_done_def client_ok_def)

lemma aio_prep_ok:
  assumes "aio_ok depth s" and "unat slot < depth" and "prepared slots s"
  shows "\<exists>s'. aio_prep env fd buffers slot s = Some s' \<and> aio_ok depth s' \<and> prepared (slots @ [slot]) s' \<and>
    a_ctx s' = a_ctx s \<and> c_tick (a_client s') = Suc (c_tick (a_client s))"
  using assms by (auto simp: aio_prep_def aio_ok_def prepared_def Let_def nth_list_update split: prod.split dest: unsigned_word_eqI)

lemma aio_prime_ok:
  "aio_ok depth s \<Longrightarrow> prepared ready s \<Longrightarrow> \<forall>i \<in> set slots. unat i < depth \<Longrightarrow>
   \<exists>s'. aio_prime env fd buffers slots s = Some s' \<and> aio_ok depth s' \<and> prepared (ready @ slots) s' \<and> a_ctx s' = a_ctx s"
proof (induction slots arbitrary: ready s)
  case (Cons x xs)
  obtain s1 where s1: "aio_prep env fd buffers x s = Some s1" "aio_ok depth s1" "prepared (ready @ [x]) s1" "a_ctx s1 = a_ctx s"
    using aio_prep_ok [OF Cons.prems(1) _ Cons.prems(2), of x env fd buffers] Cons.prems(3) by auto
  with Cons.IH [OF s1(2,3)] Cons.prems(3) show ?case by auto
qed simp

lemma aio_refill_ok:
  "aio_ok depth s \<Longrightarrow> prepared refill s \<Longrightarrow> \<forall>d \<in> set events. unat d < depth \<Longrightarrow> depth < 2 ^ 32 \<Longrightarrow>
   \<exists>s'. aio_refill env fd buffers now events refill s = Some (refill @ map ucast events, s') \<and> aio_ok depth s' \<and>
     prepared (refill @ map ucast events) s' \<and> a_ctx s' = a_ctx s \<and> c_tick (a_client s) \<le> c_tick (a_client s')"
proof (induction events arbitrary: refill s)
  case (Cons d ds)
  have "unat (ucast d :: u32) = unat d" using Cons.prems(3,4) by (simp add: unsigned_ucast_eq take_bit_nat_eq_self)
  then have u: "unat (ucast d :: u32) < depth" using Cons.prems(3) by simp
  obtain c where c: "client_done now (ucast d) (a_client s) = Some c" "client_ok depth c" "c_tick c = c_tick (a_client s)"
    using client_done_ok [OF _ u] Cons.prems(1) by (auto simp: aio_ok_def)
  have s0: "aio_ok depth (s\<lparr>a_client := c\<rparr>)" "prepared refill (s\<lparr>a_client := c\<rparr>)"
    using Cons.prems(1,2) c(2) by (simp_all add: aio_ok_def prepared_def)
  obtain s1 where s1: "aio_prep env fd buffers (ucast d) (s\<lparr>a_client := c\<rparr>) = Some s1" "aio_ok depth s1"
    "prepared (refill @ [ucast d]) s1" "a_ctx s1 = a_ctx s" "c_tick (a_client s1) = Suc (c_tick c)"
    using aio_prep_ok [OF s0(1) u s0(2), of env fd buffers] by auto
  from Cons.IH [OF s1(2,3)] Cons.prems(3,4) obtain s2 where
    "aio_refill env fd buffers now ds (refill @ [ucast d]) s1 = Some (refill @ [ucast d] @ map ucast ds, s2)" "aio_ok depth s2"
    "prepared (refill @ [ucast d] @ map ucast ds) s2" "a_ctx s2 = a_ctx s1" "c_tick (a_client s1) \<le> c_tick (a_client s2)" by auto
  with c s1 show ?case by (auto simp: Let_def)
qed simp

lemma libaio_get:
  assumes "libaio_documented lib flight" and "flight k \<noteq> {#}"
  shows "\<exists>ret events k'. io_getevents lib k m = Some (ret, events, k') \<and> flight k = flight k' + mset (take (nat ret) events)"
  using assms unfolding libaio_documented_def by blast

lemma aio_submit_ok:
  assumes doc: "libaio_documented lib flight" and all: "accepts_all lib" and "prepared slots s" and "aio_ok depth s"
  shows "flight (a_ctx (aio_submit lib slots s)) = flight (a_ctx s) + mset (map ucast slots)"
    and "aio_ok depth (aio_submit lib slots s)" and "c_tick (a_client (aio_submit lib slots s)) = c_tick (a_client s)"
proof -
  let ?cbs = "map (\<lambda>i. a_cbs s ! unat i) slots"
  obtain ret k where k: "io_submit lib (a_ctx s) ?cbs = (ret, k)" by fastforce
  have "ret = int (length ?cbs)" using all k unfolding accepts_all_def by (metis fst_conv)
  moreover have "flight k = flight (a_ctx s) + mset (map cb_data (take (nat ret) ?cbs))"
    using doc k unfolding libaio_documented_def by (auto split: prod.splits)
  ultimately have "flight k = flight (a_ctx s) + mset (map cb_data ?cbs)" by simp
  moreover have "map cb_data ?cbs = map ucast slots" using assms(3) by (simp add: prepared_def)
  ultimately show "flight (a_ctx (aio_submit lib slots s)) = flight (a_ctx s) + mset (map ucast slots)"
    by (simp only: aio_submit_def k snd_conv) simp
  show "aio_ok depth (aio_submit lib slots s)" "c_tick (a_client (aio_submit lib slots s)) = c_tick (a_client s)"
    using assms(4) by (simp_all add: aio_submit_def aio_ok_def)
qed

lemma ucast_ucast_small:
  assumes "unat (d :: u64) < 2 ^ 32"
  shows "ucast (ucast d :: u32) = d"
proof -
  have "unat (ucast d :: u32) = unat d" using assms by (simp add: unsigned_ucast_eq take_bit_nat_eq_self)
  then have "unat (ucast (ucast d :: u32) :: u64) = unat d" by (metis unat_ucast_u32)
  then show ?thesis by (rule unsigned_word_eqI)
qed

lemma aio_loop_ok:
  assumes doc: "libaio_documented lib flight" and all: "accepts_all lib" and clk: "\<forall>m \<ge> N. deadline \<le> ba_clock env m"
    and S: "S \<noteq> {#}" "\<forall>d \<in># S. unat d < depth" "depth < 2 ^ 32"
  shows "aio_ok depth s \<Longrightarrow> flight (a_ctx s) = S \<Longrightarrow>
    \<exists>s'. aio_loop lib env fd buffers qd deadline s = Some s' \<and> aio_ok depth s' \<and> flight (a_ctx s') = S"
proof (induction "N - c_tick (a_client s)" arbitrary: s rule: less_induct)
  case less
  let ?c = "(a_client s)\<lparr>c_tick := Suc (c_tick (a_client s))\<rparr>"
  have ok: "length (a_cbs s) = depth" "client_ok depth ?c" using less.prems(1) by (simp_all add: aio_ok_def)
  show ?case
  proof (cases "ba_clock env (c_tick (a_client s)) < deadline")
    case False
    then show ?thesis using less.prems ok by (subst aio_loop.simps) (simp add: client_now_def aio_ok_def)
  next
    case True
    then have lt: "c_tick (a_client s) < N" using clk by (meson leD not_le_imp_less)
    obtain ret events k where g: "io_getevents lib (a_ctx s) (unat qd) = Some (ret, events, k)"
      "S = flight k + mset (take (nat ret) events)"
      using libaio_get [OF doc, of "a_ctx s" "unat qd"] less.prems(2) S(1) by auto
    show ?thesis
    proof (cases "ret \<le> 0")
      case neg: True
      let ?s = "s\<lparr>a_ctx := k, a_client := client_call ?c\<rparr>"
      have "\<exists>s'. aio_loop lib env fd buffers qd deadline ?s = Some s' \<and> aio_ok depth s' \<and> flight (a_ctx s') = S"
        using lt ok g(2) neg by (intro less.hyps) (simp_all add: aio_ok_def)
      then show ?thesis using True g(1) neg by (subst aio_loop.simps) (simp add: client_now_def)
    next
      case pos: False
      let ?e = "take (nat ret) events" and ?c2 = "(client_call ?c)\<lparr>c_tick := Suc (c_tick (client_call ?c))\<rparr>"
      let ?s = "s\<lparr>a_ctx := k, a_client := ?c2\<rparr>"
      have "\<forall>d \<in> set ?e. unat d < depth" using S(2) g(2) by auto
      moreover have "aio_ok depth ?s" "prepared [] ?s" using ok by (simp_all add: aio_ok_def prepared_def)
      ultimately obtain s1 where s1: "aio_refill env fd buffers (ba_clock env (c_tick (client_call ?c))) ?e [] ?s = Some (map ucast ?e, s1)"
        "aio_ok depth s1" "prepared (map ucast ?e) s1" "a_ctx s1 = k" "c_tick (a_client ?s) \<le> c_tick (a_client s1)"
        using aio_refill_ok [of depth ?s "[]" ?e] S(3) by fastforce
      note sub = aio_submit_ok [OF doc all s1(3,2)]
      have "map (ucast \<circ> (ucast :: u64 \<Rightarrow> u32)) ?e = map (\<lambda>d. d) ?e"
        using \<open>\<forall>d \<in> set ?e. unat d < depth\<close> S(3) by (intro map_cong refl) (auto intro!: ucast_ucast_small)
      then have fl: "flight (a_ctx (aio_submit lib (map ucast ?e) s1)) = S" using sub(1) s1(4) g(2) by simp
      have "\<exists>s'. aio_loop lib env fd buffers qd deadline (aio_submit lib (map ucast ?e) s1) = Some s' \<and> aio_ok depth s' \<and> flight (a_ctx s') = S"
        using lt s1(5) sub(2,3) fl by (intro less.hyps) simp_all
      then show ?thesis using True g(1) pos s1(1) by (subst aio_loop.simps) (simp add: client_now_def)
    qed
  qed
qed

lemma slot_numbers_range: "i \<in> set (slot_numbers qd) \<Longrightarrow> unat i < unat qd"
  using unsigned_less [of qd, where ?'a = nat] by (auto simp: slot_numbers_def unat_of_nat)

lemma map_ucast_slots: "mset (map ucast (slot_numbers qd)) = mset (map of_nat [0..<unat qd] :: u64 list)"
proof -
  have "ucast (of_nat i :: u32) = (of_nat i :: u64)" if "i < unat qd" for i
    using that unsigned_less [of qd, where ?'a = nat]
    by (intro unsigned_word_eqI [where ?'a = nat]) (simp add: unat_ucast_u32 unat_of_nat)
  then show ?thesis unfolding slot_numbers_def map_map by (intro arg_cong [of _ _ mset] map_cong) auto
qed

section \<open>The depth of the plain io\_uring pipeline\<close>

text \<open>\<open>pending\<close> are the tokens of the entries prepared and not submitted, \<open>flight\<close> those of the entries
  submitted whose completion was not consumed; \<open>n\<close> is the size of the submission queue.\<close>

definition plain_documented :: "'r plain_uring \<Rightarrow> ('r \<Rightarrow> u64 multiset) \<Rightarrow> ('r \<Rightarrow> u64 multiset) \<Rightarrow> nat \<Rightarrow> bool" where
  "plain_documented pu pending flight n \<longleftrightarrow> prep_documented (pu_lib pu) \<and>
     (\<forall>r. size (pending r) < n \<longrightarrow> (\<exists>pos r'. io_uring_get_sqe (pu_lib pu) r = (Some pos, r') \<and>
        (\<forall>e. pending (store_sqe (pu_lib pu) r' pos e) = add_mset (sqe_user_data e) (pending r) \<and>
             flight (store_sqe (pu_lib pu) r' pos e) = flight r))) \<and>
     (\<forall>r. flight (snd (io_uring_submit (pu_lib pu) r)) = flight r + pending r \<and> pending (snd (io_uring_submit (pu_lib pu) r)) = {#}) \<and>
     (\<forall>r. flight r \<noteq> {#} \<longrightarrow> (\<exists>ret r'. io_uring_wait_cqe_nr pu r = Some (ret, r') \<and> flight r' = flight r \<and> pending r' = pending r)) \<and>
     (\<forall>r. case io_uring_peek_cqe pu r of (None, r') \<Rightarrow> flight r' = flight r \<and> pending r' = pending r
        | (Some c, r') \<Rightarrow> flight r = add_mset (cqe_user_data c) (flight (io_uring_cqe_seen pu r' c)) \<and>
            pending (io_uring_cqe_seen pu r' c) = pending r)"

lemma plain_peek:
  assumes "plain_documented pu pending flight n" and "io_uring_peek_cqe pu r0 = (p, r)"
  shows "case p of None \<Rightarrow> flight r = flight r0 \<and> pending r = pending r0
    | Some c \<Rightarrow> flight r0 = add_mset (cqe_user_data c) (flight (io_uring_cqe_seen pu r c)) \<and>
        pending (io_uring_cqe_seen pu r c) = pending r0"
  using assms unfolding plain_documented_def by (auto split: option.splits dest: spec [of _ r0])

lemma plain_prep_ok:
  assumes doc: "plain_documented pu pending flight n" and "client_ok depth (u_client s)" and "length buffers = depth"
    and "unat slot < depth" and "size (pending (u_ring s)) < n"
  shows "\<exists>s'. plain_prep pu env fd buffers slot s = Some s' \<and> client_ok depth (u_client s') \<and>
    c_tick (u_client s) \<le> c_tick (u_client s') \<and> flight (u_ring s') = flight (u_ring s) \<and>
    pending (u_ring s') = add_mset (ucast slot) (pending (u_ring s))"
proof -
  obtain pos r where g: "io_uring_get_sqe (pu_lib pu) (u_ring s) = (Some pos, r)"
    "\<And>e. pending (store_sqe (pu_lib pu) r pos e) = add_mset (sqe_user_data e) (pending (u_ring s))"
    "\<And>e. flight (store_sqe (pu_lib pu) r pos e) = flight (u_ring s)"
    using doc assms(5) unfolding plain_documented_def by blast
  have "\<And>e d. io_uring_sqe_set_data (pu_lib pu) e d = e\<lparr>sqe_user_data := d\<rparr>"
    using doc by (simp add: plain_documented_def prep_documented_def)
  then show ?thesis using assms(2-4) g by (simp add: plain_prep_def Let_def split: prod.split)
qed

lemma plain_prime_ok:
  assumes doc: "plain_documented pu pending flight n" and "length buffers = depth"
  shows "client_ok depth (u_client s) \<Longrightarrow> \<forall>i \<in> set slots. unat i < depth \<Longrightarrow> size (pending (u_ring s)) + length slots \<le> n \<Longrightarrow>
    \<exists>s'. plain_prime pu env fd buffers slots s = Some s' \<and> client_ok depth (u_client s') \<and>
      flight (u_ring s') = flight (u_ring s) \<and> pending (u_ring s') = pending (u_ring s) + mset (map ucast slots)"
proof (induction slots arbitrary: s)
  case (Cons x xs)
  obtain s1 where s1: "plain_prep pu env fd buffers x s = Some s1" "client_ok depth (u_client s1)"
    "flight (u_ring s1) = flight (u_ring s)" "pending (u_ring s1) = add_mset (ucast x) (pending (u_ring s))"
    using plain_prep_ok [OF doc Cons.prems(1) assms(2), of x env fd] Cons.prems(2,3) by auto
  from Cons.IH [OF s1(2)] Cons.prems(2,3) s1 show ?case by auto
qed simp

text \<open>The inner loop ends, since nothing is submitted inside it: every pass moves one token from \<open>flight\<close>
  to \<open>pending\<close>.\<close>

lemma plain_reap_ok:
  assumes doc: "plain_documented pu pending flight n" and buf: "length buffers = depth" "depth < 2 ^ 32"
  shows "client_ok depth (u_client s) \<Longrightarrow> \<forall>d \<in># flight (u_ring s). unat d < depth \<Longrightarrow>
    size (flight (u_ring s)) + size (pending (u_ring s)) \<le> n \<Longrightarrow>
    \<exists>j s'. plain_reap pu env fd buffers refilled s = Some (refilled + of_nat j, s') \<and> client_ok depth (u_client s') \<and>
      j \<le> size (flight (u_ring s)) \<and> c_tick (u_client s) \<le> c_tick (u_client s') \<and>
      flight (u_ring s') + pending (u_ring s') = flight (u_ring s) + pending (u_ring s) \<and>
      (j = 0 \<longrightarrow> pending (u_ring s') = pending (u_ring s))"
proof (induction "size (flight (u_ring s))" arbitrary: s refilled rule: less_induct)
  case less
  obtain p r where p: "io_uring_peek_cqe pu (u_ring s) = (p, r)" by fastforce
  note pk = plain_peek [OF doc p]
  show ?case
  proof (cases p)
    case None
    with pk p less.prems(1) show ?thesis by (subst plain_reap.simps) (intro exI [of _ 0], simp)
  next
    case (Some c)
    let ?r = "io_uring_cqe_seen pu r c" and ?d = "cqe_user_data c"
    have fl: "flight (u_ring s) = add_mset ?d (flight ?r)" "pending ?r = pending (u_ring s)" using pk Some by simp_all
    have "unat (ucast ?d :: u32) = unat ?d" using less.prems(2) fl(1) buf(2) by (simp add: unsigned_ucast_eq take_bit_nat_eq_self)
    then have u: "unat (ucast ?d :: u32) < depth" using less.prems(2) fl(1) by simp
    have data: "io_uring_cqe_get_data (pu_lib pu) c = ?d" using doc by (simp add: plain_documented_def prep_documented_def)
    let ?c = "(u_client s)\<lparr>c_tick := Suc (c_tick (u_client s))\<rparr>"
    obtain c1 where c1: "client_done (ba_clock env (c_tick (u_client s))) (ucast ?d) ?c = Some c1" "client_ok depth c1"
      "c_tick c1 = Suc (c_tick (u_client s))"
      using client_done_ok [of depth ?c "ucast ?d"] less.prems(1) u by auto
    obtain s1 where s1: "plain_prep pu env fd buffers (ucast ?d) \<lparr>u_ring = ?r, u_client = c1\<rparr> = Some s1" "client_ok depth (u_client s1)"
      "c_tick c1 \<le> c_tick (u_client s1)" "flight (u_ring s1) = flight ?r" "pending (u_ring s1) = add_mset ?d (pending (u_ring s))"
      using plain_prep_ok [OF doc, of depth "\<lparr>u_ring = ?r, u_client = c1\<rparr>" buffers "ucast ?d" env fd] c1(2) buf u fl less.prems(2,3)
        ucast_ucast_small [of ?d] by auto
    have "\<exists>j s'. plain_reap pu env fd buffers (refilled + 1) s1 = Some (refilled + 1 + of_nat j, s') \<and> client_ok depth (u_client s') \<and>
        j \<le> size (flight (u_ring s1)) \<and> c_tick (u_client s1) \<le> c_tick (u_client s') \<and>
        flight (u_ring s') + pending (u_ring s') = flight (u_ring s1) + pending (u_ring s1) \<and>
        (j = 0 \<longrightarrow> pending (u_ring s') = pending (u_ring s1))"
      using less.prems fl s1 by (intro less.hyps) simp_all
    then obtain j s' where j: "plain_reap pu env fd buffers (refilled + 1) s1 = Some (refilled + 1 + of_nat j, s')"
      "client_ok depth (u_client s')" "j \<le> size (flight (u_ring s1))" "c_tick (u_client s1) \<le> c_tick (u_client s')"
      "flight (u_ring s') + pending (u_ring s') = flight (u_ring s1) + pending (u_ring s1)" by blast
    have "plain_reap pu env fd buffers refilled s = Some (refilled + of_nat (Suc j), s')"
      using p Some data c1(1) s1(1) j(1) by (subst plain_reap.simps) (simp add: client_now_def Let_def add.assoc)
    with j c1(3) s1 fl show ?thesis by (intro exI [of _ "Suc j"] exI [of _ s']) simp
  qed
qed

lemma plain_loop_ok:
  assumes doc: "plain_documented pu pending flight n" and buf: "length buffers = depth" "depth < 2 ^ 32"
    and clk: "\<forall>m \<ge> N. deadline \<le> ba_clock env m"
    and S: "S \<noteq> {#}" "\<forall>d \<in># S. unat d < depth" "size S \<le> n" "size S < 2 ^ 32"
  shows "client_ok depth (u_client s) \<Longrightarrow> flight (u_ring s) = S \<Longrightarrow> pending (u_ring s) = {#} \<Longrightarrow>
    \<exists>s'. plain_loop pu env fd buffers deadline s = Some s' \<and> client_ok depth (u_client s') \<and>
      flight (u_ring s') = S \<and> pending (u_ring s') = {#}"
proof (induction "N - c_tick (u_client s)" arbitrary: s rule: less_induct)
  case less
  let ?c = "(u_client s)\<lparr>c_tick := Suc (c_tick (u_client s))\<rparr>"
  show ?case
  proof (cases "ba_clock env (c_tick (u_client s)) < deadline")
    case False
    then show ?thesis using less.prems by (subst plain_loop.simps) (simp add: client_now_def)
  next
    case True
    then have lt: "c_tick (u_client s) < N" using clk by (meson leD not_le_imp_less)
    obtain ret r where w: "io_uring_wait_cqe_nr pu (u_ring s) = Some (ret, r)" "flight r = S" "pending r = {#}"
      using doc less.prems(2,3) S(1) unfolding plain_documented_def by metis
    show ?thesis
    proof (cases "ret < 0")
      case neg: True
      have "\<exists>s'. plain_loop pu env fd buffers deadline \<lparr>u_ring = r, u_client = ?c\<rparr> = Some s' \<and> client_ok depth (u_client s') \<and>
          flight (u_ring s') = S \<and> pending (u_ring s') = {#}"
        using lt less.prems(1) w by (intro less.hyps) simp_all
      then show ?thesis using True w(1) neg by (subst plain_loop.simps) (simp add: client_now_def)
    next
      case pos: False
      let ?s = "\<lparr>u_ring = r, u_client = client_call ?c\<rparr>"
      obtain j s1 where j: "plain_reap pu env fd buffers 0 ?s = Some (of_nat j, s1)" "client_ok depth (u_client s1)" "j \<le> size S"
        "c_tick (client_call ?c) \<le> c_tick (u_client s1)" "flight (u_ring s1) + pending (u_ring s1) = S"
        "j = 0 \<longrightarrow> pending (u_ring s1) = {#}"
        using plain_reap_ok [OF doc buf, of ?s env fd 0] less.prems(1) w S by auto
      let ?t = "if (of_nat j :: u32) > 0 then plain_submit pu s1 else s1"
      have "(of_nat j :: u32) > 0 \<longleftrightarrow> j \<noteq> 0"
        using j(3) S(4) by (simp add: word_greater_zero_iff unat_of_nat flip: unat_eq_0)
      moreover have "flight (snd (io_uring_submit (pu_lib pu) (u_ring s1))) = S" "pending (snd (io_uring_submit (pu_lib pu) (u_ring s1))) = {#}"
        using doc j(5) by (simp_all add: plain_documented_def)
      ultimately have t: "flight (u_ring ?t) = S" "pending (u_ring ?t) = {#}" "client_ok depth (u_client ?t)"
        "c_tick (u_client ?t) = c_tick (u_client s1)" using j by (auto simp: plain_submit_def)
      have "\<exists>s'. plain_loop pu env fd buffers deadline ?t = Some s' \<and> client_ok depth (u_client s') \<and>
          flight (u_ring s') = S \<and> pending (u_ring s') = {#}"
        using lt j(4) t by (intro less.hyps) simp_all
      then show ?thesis using True w(1) pos j(1) by (subst plain_loop.simps) (simp add: client_now_def)
    qed
  qed
qed

lemma plain_burst_conserves:
  assumes doc: "plain_documented pu pending flight n" and clk: "clock_runs (ba_clock env)" and "0 < unat qd" and "unat qd \<le> n"
    and "length buffers = unat qd" and "flight r = {#}" and "pending r = {#}"
  shows "\<exists>s'. plain_burst pu env fd buffers qd \<lparr>u_ring = r, u_client = client_start env ti (unat qd)\<rparr> = Some s' \<and>
    flight (u_ring s') = mset (map of_nat [0..<unat qd]) \<and> pending (u_ring s') = {#} \<and>
    c_ops (u_client s') = of_nat (length (c_latencies (u_client s')))"
proof -
  let ?s = "\<lparr>u_ring = r, u_client = client_start env ti (unat qd)\<rparr>" and ?S = "mset (map of_nat [0..<unat qd]) :: u64 multiset"
  have "client_ok (unat qd) (u_client ?s)" by (simp add: client_ok_def client_start_def)
  then obtain s1 where s1: "plain_prime pu env fd buffers (slot_numbers qd) ?s = Some s1" "client_ok (unat qd) (u_client s1)"
    "flight (u_ring s1) = {#}" "pending (u_ring s1) = ?S"
    using plain_prime_ok [OF doc assms(5), of ?s "slot_numbers qd" env fd] slot_numbers_range [of _ qd] assms(4,6,7) map_ucast_slots [of qd]
    by (auto simp: slot_numbers_def)
  let ?t = "plain_submit pu s1"
  let ?u = "?t\<lparr>u_client := (u_client ?t)\<lparr>c_tick := Suc (c_tick (u_client ?t))\<rparr>\<rparr>"
  have u: "client_ok (unat qd) (u_client ?u)" "flight (u_ring ?u) = ?S" "pending (u_ring ?u) = {#}"
    using doc s1 by (simp_all add: plain_submit_def plain_documented_def)
  obtain N where N: "\<forall>m \<ge> N. ba_clock env (c_tick (u_client ?t)) + 1000 * real_of_int kBurstDuration_ms \<le> ba_clock env m"
    using clk unfolding clock_runs_def by blast
  have "?S \<noteq> {#}" unfolding mset_zero_iff map_is_Nil_conv using assms(3) by simp
  then have S: "?S \<noteq> {#}" "\<forall>d \<in># ?S. unat d < unat qd" "size ?S \<le> n" "size ?S < 2 ^ 32" "unat qd < 2 ^ 32"
    using unsigned_less [of qd, where ?'a = nat] assms(4) by (auto simp: unat_of_nat)
  from plain_loop_ok [OF doc assms(5) S(5) N S(1-4) u] obtain s' where
    "plain_loop pu env fd buffers (ba_clock env (c_tick (u_client ?t)) + 1000 * real_of_int kBurstDuration_ms) ?u = Some s'"
    "client_ok (unat qd) (u_client s')" "flight (u_ring s') = ?S" "pending (u_ring s') = {#}" by blast
  with s1(1) show ?thesis by (auto simp: plain_burst_def client_now_def Let_def client_ok_def)
qed

text \<open>Nothing accepted, nothing returned: the first wait of a burst never ends.\<close>

lemma libaio_refused_hangs:
  assumes doc: "libaio_documented lib flight" and none: "\<And>k cbs. fst (io_submit lib k cbs) \<le> 0"
    and ok: "aio_ok (unat qd) s" "flight (a_ctx s) = {#}" and clk: "\<And>m. ba_clock env (Suc m) < ba_clock env m + 500000"
  shows "aio_burst lib env fd buffers qd s = None"
proof -
  obtain s1 where s1: "aio_prime env fd buffers (slot_numbers qd) s = Some s1" "a_ctx s1 = a_ctx s"
    using aio_prime_ok [OF ok(1), of "[]"] slot_numbers_range by (fastforce simp: prepared_def)
  let ?s = "aio_submit lib (slot_numbers qd) s1"
  have "flight (a_ctx ?s) = {#}"
  proof -
    obtain ret k where k: "io_submit lib (a_ctx s1) (map (\<lambda>i. a_cbs s1 ! unat i) (slot_numbers qd)) = (ret, k)" by fastforce
    then have "flight k = flight (a_ctx s1) + mset (map cb_data (take (nat ret) (map (\<lambda>i. a_cbs s1 ! unat i) (slot_numbers qd))))"
      using doc unfolding libaio_documented_def by (auto split: prod.splits)
    moreover have "nat ret = 0" using none [of "a_ctx s1" "map (\<lambda>i. a_cbs s1 ! unat i) (slot_numbers qd)"] k by simp
    ultimately show ?thesis using k s1(2) ok(2) by (simp add: aio_submit_def)
  qed
  then have "io_getevents lib (a_ctx ?s) (unat qd) = None" using doc unfolding libaio_documented_def by blast
  then show ?thesis using s1(1) clk [of "c_tick (a_client ?s)"]
    by (simp add: aio_burst_def client_now_def kBurstDuration_ms_def aio_loop.simps [of lib env fd buffers qd])
qed

section \<open>Properties\<close>

text \<open>A burst of the libaio baseline ends and keeps its depth: if the context accepts every submission and
  the clock goes on, the burst returns, and afterwards exactly one operation per slot is in flight,
  whatever the order and the number of the events of every wait; as many latencies are recorded as
  operations are counted.\<close>

lemma libaio_burst_conserves:
  assumes "libaio_documented lib flight" and "accepts_all lib" and "clock_runs (ba_clock env)" and "0 < unat qd"
    and "flight ctx = {#}"
  shows "\<exists>s'. aio_burst lib env fd buffers qd
      \<lparr>a_ctx = ctx, a_cbs = replicate (unat qd) iocb_default, a_client = client_start env ti (unat qd)\<rparr> = Some s' \<and>
    flight (a_ctx s') = mset (map of_nat [0..<unat qd]) \<and> c_ops (a_client s') = of_nat (length (c_latencies (a_client s')))"
proof -
  let ?s = "\<lparr>a_ctx = ctx, a_cbs = replicate (unat qd) iocb_default, a_client = client_start env ti (unat qd)\<rparr>"
  let ?S = "mset (map of_nat [0..<unat qd]) :: u64 multiset"
  have "aio_ok (unat qd) ?s" by (simp add: aio_ok_def client_ok_def client_start_def)
  then obtain s1 where s1: "aio_prime env fd buffers (slot_numbers qd) ?s = Some s1" "aio_ok (unat qd) s1"
    "prepared (slot_numbers qd) s1" "a_ctx s1 = ctx"
    using aio_prime_ok [of "unat qd" ?s "[]" "slot_numbers qd" env fd buffers] slot_numbers_range by (auto simp: prepared_def)
  note sub = aio_submit_ok [OF assms(1,2) s1(3,2)]
  let ?t = "aio_submit lib (slot_numbers qd) s1"
  obtain N where N: "\<forall>m \<ge> N. ba_clock env (c_tick (a_client ?t)) + 1000 * real_of_int kBurstDuration_ms \<le> ba_clock env m"
    using assms(3) unfolding clock_runs_def by blast
  have "?S \<noteq> {#}" unfolding mset_zero_iff map_is_Nil_conv using assms(4) by simp
  then have S: "?S \<noteq> {#}" "\<forall>d \<in># ?S. unat d < unat qd" "unat qd < 2 ^ 32"
    using unsigned_less [of qd, where ?'a = nat] by (auto simp: unat_of_nat)
  let ?u = "?t\<lparr>a_client := (a_client ?t)\<lparr>c_tick := Suc (c_tick (a_client ?t))\<rparr>\<rparr>"
  have "aio_ok (unat qd) ?u" "flight (a_ctx ?u) = ?S"
    using sub(1,2) assms(5) s1(4) map_ucast_slots [of qd] by (simp_all add: aio_ok_def)
  from aio_loop_ok [OF assms(1,2) N S this] obtain s' where
    "aio_loop lib env fd buffers qd (ba_clock env (c_tick (a_client ?t)) + 1000 * real_of_int kBurstDuration_ms) ?u = Some s'"
    "aio_ok (unat qd) s'" "flight (a_ctx s') = ?S" by blast
  with s1(1) show ?thesis by (auto simp: aio_burst_def client_now_def Let_def aio_ok_def client_ok_def)
qed

text \<open>A context that keeps the data of the accepted operations and completes them in order.\<close>

definition ref_aio :: "u64 list libaio" where
  "ref_aio = \<lparr>io_setup = (\<lambda>n. (0, [])), io_submit = (\<lambda>k cbs. (int (length cbs), k @ map cb_data cbs)),
     io_getevents = (\<lambda>k m. if k = [] then None else Some (1, [hd k], tl k))\<rparr>"

definition ref_base :: "nat base_env" where
  "ref_base = \<lparr>ba_clock = real, ba_draw = (\<lambda>a b g. (a, Suc g)), ba_seed = unat,
     ba_file = \<lparr>fe_mkstemp = 4, fe_open = 5, fe_ftruncate = 0\<rparr>, ba_memalign = (\<lambda>i. Some (of_nat (4096 * Suc i))),
     ba_fp = be_fp ref_env\<rparr>"

lemma ref_aio_documented: "libaio_documented ref_aio mset" "accepts_all ref_aio"
  by (auto simp: libaio_documented_def accepts_all_def ref_aio_def neq_Nil_conv)

lemma real_clock_runs: "clock_runs real"
  unfolding clock_runs_def
proof
  fix d
  have "\<forall>m \<ge> nat \<lceil>d\<rceil>. d \<le> real m" by (metis le_nat_iff linorder_le_cases nat_ceiling_le_eq order_refl)
  then show "\<exists>N. \<forall>m \<ge> N. d \<le> real m" by blast
qed

lemma libaio_burst_example:
  "\<exists>s'. aio_burst ref_aio ref_base 5 [4096, 8192] 2
      \<lparr>a_ctx = [], a_cbs = replicate 2 iocb_default, a_client = client_start ref_base 0 2\<rparr> = Some s' \<and>
    mset (a_ctx s') = {#0, 1#}"
  using libaio_burst_conserves [OF ref_aio_documented, of ref_base 2 "[]" 5 "[4096, 8192]" 0] real_clock_runs
  by (auto simp: ref_base_def upt_rec)

end
