(* ===== verification/Micro_Bench.thy ===== *)
theory Micro_Bench
  imports Sqpoll_Engine
begin

text \<open>
  The uncontended micro-benchmarks: benchmarks/ring_benchmark.cpp, buffer_pool_benchmark.cpp and
  completion_engine_benchmark.cpp. A benchmark body is run \<open>n\<close> times, as the loop over the
  benchmark state does; the values kept alive with \<open>DoNotOptimize\<close> are collected.
\<close>

section \<open>Push and pop of one value\<close>

fun push_pop_iters :: "('q \<Rightarrow> 'a \<Rightarrow> (bool \<times> 'q) option) \<Rightarrow> ('q \<Rightarrow> ('a option \<times> 'q) option) \<Rightarrow> 'a \<Rightarrow> nat \<Rightarrow>
    'q \<Rightarrow> (bool list \<times> 'q) option" where
  "push_pop_iters push pop x 0 q = Some ([], q)"
| "push_pop_iters push pop x (Suc n) q =
     (case push q x of None \<Rightarrow> None
      | Some (b, q1) \<Rightarrow> (case pop q1 of None \<Rightarrow> None
          | Some (r, q2) \<Rightarrow> (case push_pop_iters push pop x n q2 of None \<Rightarrow> None
              | Some (rs, q') \<Rightarrow> Some ((r \<noteq> None) # rs, q'))))"

definition BM_SpscRingPushPop :: "nat \<Rightarrow> (bool list \<times> u64 spsc_ring) option" where
  "BM_SpscRingPushPop n = push_pop_iters (\<lambda>q x. Some (spsc_try_push 1024 q x))
     (\<lambda>q. Some (spsc_try_pop 1024 q)) 1 n (SpscRing 1024 0)"

definition BM_MpmcRingPushPop :: "bool list \<Rightarrow> nat \<Rightarrow> (bool list \<times> u64 mpmc_ring) option" where
  "BM_MpmcRingPushPop ws n =
     push_pop_iters (mpmc_try_push 1024 ws) (mpmc_try_pop 1024 ws) 1 n (MpmcRing 1024 0)"

context bounded_queue
begin

lemma push_pop_iters_all:
  "inv q \<Longrightarrow> items q = [] \<Longrightarrow> 0 < limit \<Longrightarrow> can_issue q n \<Longrightarrow>
   \<exists>q'. push_pop_iters try_push try_pop x n q = Some (replicate n True, q') \<and> inv q' \<and> items q' = []"
proof (induction n arbitrary: q)
  case (Suc n)
  obtain q1 where q1: "try_push q x = Some (True, q1)" "inv q1" "items q1 = [x]" "can_issue q1 n"
    using push_room [OF Suc.prems(1) _ Suc.prems(4), of x] Suc.prems(2,3) by auto
  obtain q2 where q2: "try_pop q1 = Some (Some x, q2)" "inv q2" "items q2 = []" "can_issue q2 n"
    using pop_item [OF q1(2,3)] q1(4) by blast
  from Suc.IH [OF q2(2,3) Suc.prems(3) q2(4)] q1(1) q2(1) show ?case by auto
qed simp

end

section \<open>Acquire and release of one buffer\<close>

fun acquire_release_iters :: "bool list \<Rightarrow> nat \<Rightarrow> BufferPool \<Rightarrow> (u32 list \<times> BufferPool) option" where
  "acquire_release_iters ws 0 p = Some ([], p)"
| "acquire_release_iters ws (Suc n) p =
     (case acquire ws p of None \<Rightarrow> None
      | Some (i, p1) \<Rightarrow> (case release ws p1 i of None \<Rightarrow> None
          | Some p2 \<Rightarrow> (case acquire_release_iters ws n p2 of None \<Rightarrow> None
              | Some (is, p') \<Rightarrow> Some (i # is, p'))))"

definition BM_BufferPoolAcquireRelease :: "pool_env \<Rightarrow> bool list \<Rightarrow> nat \<Rightarrow> pool_error + (u32 list \<times> BufferPool) option" where
  "BM_BufferPoolAcquireRelease env ws n =
     (case fst (BufferPool_ctor env 64 4096) of Inl e \<Rightarrow> Inl e
      | Inr pool \<Rightarrow> Inr (acquire_release_iters ws n pool))"

lemma acquire_release_all:
  "pool_inv p \<Longrightarrow> pool_free p = i # is \<Longrightarrow>
   \<exists>p'. acquire_release_iters ws n p = Some (replicate n i, p') \<and> pool_inv p' \<and> pool_free p' = i # is"
proof (induction n arbitrary: p)
  case (Suc n)
  obtain p1 where p1: "acquire ws p = Some (i, p1)" "pool_inv p1" "pool_free p1 = is" "pool_univ p1 = pool_univ p"
    using pool_acquire_first [OF Suc.prems, of ws] by blast
  have "i \<in> pool_univ p1" "i \<notin> set (pool_free p1)"
    using pool.free_univ [OF Suc.prems(1)] pool.free_distinct [OF Suc.prems(1)] Suc.prems(2) p1(3,4) by auto
  from pool_release_held [OF p1(2) this, of ws] obtain p2 where
    p2: "release ws p1 i = Some p2" "pool_inv p2" "pool_free p2 = i # is" using p1(3) by auto
  from Suc.IH [OF p2(2,3)] p1(1) p2(1) show ?case by auto
qed simp

section \<open>Harvesting when nothing has completed\<close>

fun harvest_iters :: "'r liburing \<Rightarrow> nat \<Rightarrow> 'r SqpollEngine \<Rightarrow> IoCompletion spsc_ring \<Rightarrow>
    (size_t list \<times> 'r SqpollEngine \<times> IoCompletion spsc_ring) option" where
  "harvest_iters lib 0 e q = Some ([], e, q)"
| "harvest_iters lib (Suc n) e q =
     (case harvest_completions lib (\<lambda>q x. Some (spsc_try_push 32 q x)) e q 32 of None \<Rightarrow> None
      | Some (d, e1, q1) \<Rightarrow> (case harvest_iters lib n e1 q1 of None \<Rightarrow> None
          | Some (ds, r) \<Rightarrow> Some (d # ds, r)))"

definition BM_HarvestCompletionsEmpty :: "'r liburing \<Rightarrow> nat \<Rightarrow>
    engine_error + (size_t list \<times> 'r SqpollEngine \<times> IoCompletion spsc_ring) option" where
  "BM_HarvestCompletionsEmpty lib n =
     (case SqpollEngine_ctor lib 32 1000 None of Inl e \<Rightarrow> Inl e
      | Inr engine \<Rightarrow> Inr (harvest_iters lib n engine (SpscRing 32 IoCompletion_default)))"

lemma harvest_iters_empty:
  "visible_cqes lib (ring e) = [] \<Longrightarrow> harvest_iters lib n e q = Some (replicate n 0, e, q)"
  by (induction n) (simp_all add: harvest_completions_def)

section \<open>Properties\<close>

text \<open>What the micro-benchmarks measure is the successful path, every time: each pop of the ring
  benchmarks returns the value just pushed and leaves the ring empty (for the MPMC ring below
  \<open>2 ^ 63 - 2048\<close> iterations); each acquire of the pool benchmark yields the same valid index
  and release restores the pool; and each harvest of the completion benchmark returns 0 and
  changes nothing while no completion is visible.\<close>

lemma micro_benchmarks_succeed:
  assumes "n + 2048 < 2 ^ 63" and "BufferPool_ctor env 64 4096 = (Inr p, calls)"
    and "SqpollEngine_ctor lib 32 1000 None = Inr e" and "visible_cqes lib (ring e) = []"
  shows "(\<exists>q. BM_SpscRingPushPop n = Some (replicate n True, q) \<and> spsc_items 1024 q = []) \<and>
    (\<exists>q. BM_MpmcRingPushPop ws n = Some (replicate n True, q) \<and> mpmc_items 1024 q = []) \<and>
    (\<exists>p'. BM_BufferPoolAcquireRelease env ws n = Inr (Some (replicate n 63, p')) \<and> pool_free p' = pool_free p) \<and>
    BM_HarvestCompletionsEmpty lib n = Inr (Some (replicate n 0, e, SpscRing 32 IoCompletion_default))"
proof (intro conjI)
  have p2: "pow2_cap 1024" by (simp add: pow2_cap_def capacity_assert_def)
  show "\<exists>q. BM_SpscRingPushPop n = Some (replicate n True, q) \<and> spsc_items 1024 q = []"
    using spsc.push_pop_iters_all [OF SpscRing_inv [OF p2] SpscRing_items, of 1 n 0]
    unfolding BM_SpscRingPushPop_def by auto
  have inv: "mpmc_inv 1024 (MpmcRing 1024 0)" by (rule MpmcRing_inv [OF p2]) simp_all
  have "mpmc_can_issue 1024 (MpmcRing 1024 0) n"
    using assms(1) by (simp add: mpmc_can_issue_def MpmcRing_def)
  then show "\<exists>q. BM_MpmcRingPushPop ws n = Some (replicate n True, q) \<and> mpmc_items 1024 q = []"
    using mpmc.push_pop_iters_all [OF inv MpmcRing_items, of n ws 1]
    unfolding BM_MpmcRingPushPop_def by auto
  obtain base where b: "p = built_pool base 64 4096" by (rule BufferPool_ctor_success [OF assms(2)])
  have ok: "pool_inv p" "pool_free p = map of_nat (rev [0..<64])"
    using built_pool_ok [of 64 base 4096] b by simp_all
  have "rev [0..<64] = 63 # rev [0..<63]" by (simp add: upt_conv_Cons flip: upt_Suc_append)
  then have "pool_free p = 63 # map of_nat (rev [0..<63])" using ok(2) by simp
  from acquire_release_all [OF ok(1) this, of ws n] this assms(2)
  show "\<exists>p'. BM_BufferPoolAcquireRelease env ws n = Inr (Some (replicate n 63, p')) \<and> pool_free p' = pool_free p"
    by (auto simp: BM_BufferPoolAcquireRelease_def)
  show "BM_HarvestCompletionsEmpty lib n = Inr (Some (replicate n 0, e, SpscRing 32 IoCompletion_default))"
    using assms(3,4) by (simp add: BM_HarvestCompletionsEmpty_def harvest_iters_empty)
qed

end
