(* ===== verification/Core_Budget.thy ===== *)
theory Core_Budget
  imports Sqpoll_Engine Bench_Support
begin

text \<open>
  experiments/sqpoll_core_budget.cpp, the stand-alone program behind the shared-poller option of
  \<open>SqpollEngine\<close>: the scratch files, the set-up of one ring per thread in its four modes, the
  workload with one outstanding operation, the pinning of threads, and \<open>main\<close> with its exit
  paths. liburing, the files, the clock of every thread and the arithmetic on \<open>double\<close> are
  parameters; the threads share nothing that the program itself writes, so each workload is a
  function of its own ring.
\<close>

section \<open>Parameters\<close>

record 'r budget_lib = "'r liburing" +
  IORING_SETUP_SQ_AFF :: u32
  io_uring_prep_write :: "sqe \<Rightarrow> i32 \<Rightarrow> addr \<Rightarrow> u32 \<Rightarrow> u64 \<Rightarrow> sqe"
  io_uring_prep_read :: "sqe \<Rightarrow> i32 \<Rightarrow> addr \<Rightarrow> u32 \<Rightarrow> u64 \<Rightarrow> sqe"
  io_uring_wait_cqe :: "'r \<Rightarrow> (int \<times> cqe option \<times> 'r) option"
  io_uring_cqe_seen :: "'r \<Rightarrow> cqe option \<Rightarrow> 'r"

text \<open>\<open>io_uring_wait_cqe\<close> is \<open>None\<close> when it waits for ever. The clock of thread \<open>i\<close> is the
  sequence of its readings in microseconds.\<close>

record ('r, 'g) budget_env =
  bu_lib :: "'r budget_lib"
  bu_clock :: "nat \<Rightarrow> nat \<Rightarrow> real"
  bu_draw :: "u64 \<Rightarrow> u64 \<Rightarrow> 'g \<Rightarrow> u64 \<times> 'g"
  bu_seed :: "nat \<Rightarrow> 'g"
  bu_buf :: "nat \<Rightarrow> addr"
  bu_file :: "nat \<Rightarrow> file_env"
  bu_fp :: fp
  bu_add :: "real \<Rightarrow> real \<Rightarrow> real"
  bu_setaffinity :: "nat \<Rightarrow> nat set \<Rightarrow> int"

section \<open>Undefined behaviour\<close>

text \<open>An index outside a vector (with the vector's size), a null entry that is prepared, and a ring that is used
  but was never set up. A call that waits for ever is \<open>None\<close> below and none of these.\<close>

datatype budget_fault = Fault_index nat nat | Fault_null_sqe | Fault_unset_ring

text \<open>\<open>operator[]\<close> of a vector.\<close>

definition vector_at :: "'a list \<Rightarrow> nat \<Rightarrow> budget_fault + 'a" where
  "vector_at xs i = (if i < length xs then Inr (xs ! i) else Inl (Fault_index i (length xs)))"

section \<open>Scratch file\<close>

definition budget_kBlockSize :: u32 where "budget_kBlockSize = 4096"

definition budget_kFileBlocks :: u64 where "budget_kFileBlocks = 16384"

definition budget_kFileBytes :: u64 where "budget_kFileBytes = budget_kFileBlocks * ucast budget_kBlockSize"

definition kRunDuration_s :: int where "kRunDuration_s = 3"

text \<open>\<open>None\<close> is \<open>std::exit(1)\<close>.\<close>

definition budget_MakeScratchFile :: "file_env \<Rightarrow> int option \<times> file_call list" where
  "budget_MakeScratchFile env =
     (let fd = fe_mkstemp env in
      if fd < 0 then (None, [Fc_mkstemp fd])
      else (if fe_ftruncate env \<noteq> 0 then None else Some fd,
        [Fc_mkstemp fd, Fc_unlink, Fc_ftruncate fd budget_kFileBytes]))"

section \<open>The workload\<close>

record ThreadResult =
  tr_iops :: real
  tr_p50_us :: real
  tr_p99_us :: real

record ('r, 'g) work =
  w_ring :: 'r
  w_rng :: 'g
  w_tick :: nat
  w_latencies :: "real list"
  w_ops :: u64

text \<open>One operation.\<close>

definition workload_op :: "('r, 'g) budget_env \<Rightarrow> nat \<Rightarrow> i32 \<Rightarrow> ('r, 'g) work \<Rightarrow> (budget_fault + ('r, 'g) work) option" where
  "workload_op env thread fd s =
     (let lib = bu_lib env;
          (v, rng') = bu_draw env 0 (budget_kFileBlocks - 1) (w_rng s);
          off = v * ucast budget_kBlockSize in
      case io_uring_get_sqe lib (w_ring s) of
        (None, _) \<Rightarrow> Some (Inl Fault_null_sqe)
      | (Some pos, r1) \<Rightarrow>
          (let op_start = bu_clock env thread (w_tick s);
               entry = load_sqe lib r1 pos;
               entry = (if w_ops s mod 2 = 0
                 then io_uring_prep_write lib entry fd (bu_buf env thread) budget_kBlockSize off
                 else io_uring_prep_read lib entry fd (bu_buf env thread) budget_kBlockSize off);
               r2 = snd (io_uring_submit lib (store_sqe lib r1 pos entry)) in
           case io_uring_wait_cqe lib r2 of
             None \<Rightarrow> None
           | Some (ret, c, r3) \<Rightarrow>
               (let op_end = bu_clock env thread (Suc (w_tick s)) in
                Some (Inr \<lparr>w_ring = io_uring_cqe_seen lib r3 c, w_rng = rng', w_tick = Suc (Suc (w_tick s)),
                  w_latencies = w_latencies s @ [op_end - op_start], w_ops = w_ops s + 1\<rparr>))))"

partial_function (option) workload_loop ::
    "('r, 'g) budget_env \<Rightarrow> nat \<Rightarrow> i32 \<Rightarrow> real \<Rightarrow> ('r, 'g) work \<Rightarrow> (budget_fault + ('r, 'g) work) option" where
  "workload_loop env thread fd deadline s =
     (if bu_clock env thread (w_tick s) < deadline
      then case workload_op env thread fd (s\<lparr>w_tick := Suc (w_tick s)\<rparr>) of
        None \<Rightarrow> None
      | Some res \<Rightarrow> (case res of Inl fault \<Rightarrow> Some (Inl fault) | Inr s' \<Rightarrow> workload_loop env thread fd deadline s')
      else Some (Inr (s\<lparr>w_tick := Suc (w_tick s)\<rparr>)))"

definition workload_result :: "fp \<Rightarrow> real list \<Rightarrow> u64 \<Rightarrow> real \<Rightarrow> budget_fault + ThreadResult" where
  "workload_result f latencies_us ops wall =
     (let lat = sort latencies_us; n = length lat;
          result = \<lparr>tr_iops = fp_div f (fp_of_nat f (unat ops)) wall, tr_p50_us = 0, tr_p99_us = 0\<rparr> in
      if lat = [] then Inr result
      else case vector_at lat (n * 50 div 100) of
        Inl fault \<Rightarrow> Inl fault
      | Inr p50 \<Rightarrow> (case vector_at lat (n * 99 div 100) of
          Inl fault \<Rightarrow> Inl fault
        | Inr p99 \<Rightarrow> Inr (result\<lparr>tr_p50_us := p50, tr_p99_us := p99\<rparr>)))"

definition RunWorkload :: "('r, 'g) budget_env \<Rightarrow> nat \<Rightarrow> 'r \<Rightarrow> i32 \<Rightarrow> (budget_fault + ThreadResult \<times> 'r) option" where
  "RunWorkload env thread r fd =
     (let deadline = bu_clock env thread 0 + 1000000 * real_of_int kRunDuration_s;
          start = bu_clock env thread 1 in
      case workload_loop env thread fd deadline
          \<lparr>w_ring = r, w_rng = bu_seed env thread, w_tick = 2, w_latencies = [], w_ops = 0\<rparr> of
        None \<Rightarrow> None
      | Some (Inl fault) \<Rightarrow> Some (Inl fault)
      | Some (Inr s) \<Rightarrow> Some (case workload_result (bu_fp env) (w_latencies s) (w_ops s)
            ((bu_clock env thread (w_tick s) - start) / 1000000) of
          Inl fault \<Rightarrow> Inl fault | Inr result \<Rightarrow> Inr (result, w_ring s)))"

section \<open>Rings and threads\<close>

text \<open>The parameters of ring \<open>i\<close>; a ring not set up yet has descriptor 0.\<close>

definition ring_params :: "'r budget_lib \<Rightarrow> string \<Rightarrow> u32 \<Rightarrow> 'r option list \<Rightarrow> nat \<Rightarrow> io_uring_params" where
  "ring_params lib mode idle_ms rings i =
     (let params = \<lparr>params_flags = IORING_SETUP_SQPOLL lib, params_sq_thread_idle = idle_ms,
            params_sq_thread_cpu = 0, params_wq_fd = 0\<rparr>;
          params = (if mode = ''attach'' \<and> i > 0
            then params\<lparr>params_flags := params_flags params OR IORING_SETUP_ATTACH_WQ lib,
              params_wq_fd := (case rings ! 0 of None \<Rightarrow> 0 | Some r \<Rightarrow> ring_fd lib r)\<rparr>
            else params)
      in if mode = ''pinned''
         then params\<lparr>params_flags := params_flags params OR IORING_SETUP_SQ_AFF lib,
           params_sq_thread_cpu := of_nat (2 * i + 1)\<rparr>
         else params)"

text \<open>\<open>Inr (Inl rc)\<close>: \<open>std::exit(1)\<close>.\<close>

definition init_ring :: "'r budget_lib \<Rightarrow> string \<Rightarrow> u32 \<Rightarrow> nat \<Rightarrow> 'r option list \<Rightarrow> budget_fault + (int + 'r option list)" where
  "init_ring lib mode idle_ms i rings =
     (case vector_at rings i of
        Inl fault \<Rightarrow> Inl fault
      | Inr _ \<Rightarrow> let (rc, r) = io_uring_queue_init_params lib 256 (ring_params lib mode idle_ms rings i) in
          Inr (if rc < 0 then Inl rc else Inr (rings[i := Some r])))"

fun init_rings :: "'r budget_lib \<Rightarrow> string \<Rightarrow> u32 \<Rightarrow> nat list \<Rightarrow> 'r option list \<Rightarrow> budget_fault + (int + 'r option list)" where
  "init_rings lib mode idle_ms [] rings = Inr (Inr rings)"
| "init_rings lib mode idle_ms (i # is) rings =
     (case init_ring lib mode idle_ms i rings of
        Inl fault \<Rightarrow> Inl fault
      | Inr (Inl rc) \<Rightarrow> Inr (Inl rc)
      | Inr (Inr rings') \<Rightarrow> init_rings lib mode idle_ms is rings')"

text \<open>The core worker \<open>i\<close> is pinned to, in the pinned mode.\<close>

definition worker_core :: "string \<Rightarrow> nat \<Rightarrow> nat option" where
  "worker_core mode i = (if mode = ''pinned'' then Some (2 * i) else None)"

text \<open>Pinning thread \<open>i\<close>: the set of cores asked for and the cores warned about.\<close>

definition PinToCore :: "('r, 'g) budget_env \<Rightarrow> nat \<Rightarrow> nat \<Rightarrow> nat set \<times> nat list" where
  "PinToCore env i core =
     (let cpuset = insert core {}; rc = bu_setaffinity env i cpuset in (cpuset, if rc \<noteq> 0 then [core] else []))"

definition pin_workers :: "('r, 'g) budget_env \<Rightarrow> string \<Rightarrow> nat \<Rightarrow> (nat set \<times> nat list) option list" where
  "pin_workers env mode n = map (\<lambda>i. map_option (PinToCore env i) (worker_core mode i)) [0..<n]"

fun make_files :: "(nat \<Rightarrow> file_env) \<Rightarrow> nat list \<Rightarrow> int list option \<times> file_call list" where
  "make_files files [] = (Some [], [])"
| "make_files files (i # is) =
     (case budget_MakeScratchFile (files i) of
        (None, cs) \<Rightarrow> (None, cs)
      | (Some fd, cs) \<Rightarrow> (case make_files files is of
          (None, cs') \<Rightarrow> (None, cs @ cs')
        | (Some fds, cs') \<Rightarrow> (Some (fd # fds), cs @ cs')))"

text \<open>Worker \<open>i\<close>, and all workers until they are joined: they run at the same time, so that undefined
  behaviour of one is that of the program, whatever the others do, and one that never ends is waited for.\<close>

definition run_worker :: "('r, 'g) budget_env \<Rightarrow> 'r option list \<Rightarrow> int list \<Rightarrow> nat \<Rightarrow> (budget_fault + ThreadResult \<times> 'r) option" where
  "run_worker env rings fds i =
     (case (vector_at rings i, vector_at fds i) of
        (Inr (Some r), Inr fd) \<Rightarrow> RunWorkload env i r (word_of_int fd)
      | (Inr None, Inr fd) \<Rightarrow> Some (Inl Fault_unset_ring)
      | (Inl fault, _) \<Rightarrow> Some (Inl fault)
      | (_, Inl fault) \<Rightarrow> Some (Inl fault))"

fun worker_fault :: "(budget_fault + 'a) option \<Rightarrow> budget_fault option" where
  "worker_fault (Some (Inl fault)) = Some fault"
| "worker_fault _ = None"

fun worker_result :: "(budget_fault + 'a) option \<Rightarrow> 'a option" where
  "worker_result (Some (Inr res)) = Some res"
| "worker_result _ = None"

definition join_workers :: "(budget_fault + 'a) option list \<Rightarrow> (budget_fault + 'a list) option" where
  "join_workers ends =
     (case List.map_filter worker_fault ends of
        fault # _ \<Rightarrow> Some (Inl fault)
      | [] \<Rightarrow> let results = List.map_filter worker_result ends in
          if length results < length ends then None else Some (Inr results))"

definition run_workers :: "('r, 'g) budget_env \<Rightarrow> 'r option list \<Rightarrow> int list \<Rightarrow> nat \<Rightarrow>
    (budget_fault + (ThreadResult \<times> 'r) list) option" where
  "run_workers env rings fds n = join_workers (map (run_worker env rings fds) [0..<n])"

section \<open>The program\<close>

text \<open>\<open>atoi\<close>: the value of \<open>strtol\<close> converted to \<open>int\<close>.\<close>

definition atoi :: "string \<Rightarrow> int" where
  "atoi s = sint (word_of_int (strtol10 s) :: i32)"

record 'r budget_run =
  br_line :: "string \<times> int \<times> u32 \<times> real \<times> real \<times> real"
  br_pins :: "(nat set \<times> nat list) option list"
  br_exited :: "'r list"

text \<open>The program ends with an exit code, or by an exception of a vector of negative size, or its behaviour is
  undefined. In \<open>budget_main\<close>, \<open>None\<close> is a program that never ends.\<close>

datatype 'r budget_outcome = Budget_exit int | Budget_done "'r budget_run" | Budget_threw | Budget_undefined budget_fault

definition budget_report :: "('r, 'g) budget_env \<Rightarrow> string \<Rightarrow> int \<Rightarrow> u32 \<Rightarrow> (ThreadResult \<times> 'r) list \<Rightarrow> 'r budget_run" where
  "budget_report env mode num_threads idle_ms results =
     (let total_iops = foldl (bu_add env) 0 (map (tr_iops \<circ> fst) results);
          p50s = map (tr_p50_us \<circ> fst) results; p99s = map (tr_p99_us \<circ> fst) results;
          avg_p50 = fp_div (bu_fp env) (foldl (bu_add env) 0 p50s) (fp_of_nat (bu_fp env) (length p50s));
          avg_p99 = fp_div (bu_fp env) (foldl (bu_add env) 0 p99s) (fp_of_nat (bu_fp env) (length p99s)) in
      \<lparr>br_line = (mode, num_threads, idle_ms, total_iops, avg_p50, avg_p99),
       br_pins = pin_workers env mode (length results),
       br_exited = map (\<lambda>(_, r). io_uring_queue_exit (bu_lib env) r) results\<rparr>)"

definition budget_main :: "('r, 'g) budget_env \<Rightarrow> string list \<Rightarrow> ('r budget_outcome \<times> file_call list) option" where
  "budget_main env argv =
     (if length argv < 3 then Some (Budget_exit 2, [])
      else let mode = argv ! 1; num_threads = atoi (argv ! 2);
               idle_ms = (if length argv > 3 then word_of_int (atoi (argv ! 3)) else 1000) in
      if num_threads < 0 then Some (Budget_threw, [])
      else case make_files (bu_file env) [0..<nat num_threads] of
        (None, calls) \<Rightarrow> Some (Budget_exit 1, calls)
      | (Some fds, calls) \<Rightarrow>
          (case init_rings (bu_lib env) mode idle_ms (0 # [1..<nat num_threads]) (replicate (nat num_threads) None) of
             Inl fault \<Rightarrow> Some (Budget_undefined fault, calls)
           | Inr (Inl rc) \<Rightarrow> Some (Budget_exit 1, calls)
           | Inr (Inr rings) \<Rightarrow>
               (case run_workers env rings fds (nat num_threads) of
                  None \<Rightarrow> None
                | Some (Inl fault) \<Rightarrow> Some (Budget_undefined fault, calls)
                | Some (Inr results) \<Rightarrow> Some (Budget_done (budget_report env mode num_threads idle_ms results),
                    calls @ map Fc_close fds))))"

section \<open>Setting up the rings\<close>

text \<open>Ring \<open>i\<close> was created, successfully, with the parameters that follow from the rings.\<close>

definition ring_created :: "'r budget_lib \<Rightarrow> string \<Rightarrow> u32 \<Rightarrow> 'r option list \<Rightarrow> nat \<Rightarrow> bool" where
  "ring_created lib mode idle_ms rings i \<longleftrightarrow> (\<exists>r rc. rings ! i = Some r \<and> 0 \<le> rc \<and>
     io_uring_queue_init_params lib 256 (ring_params lib mode idle_ms rings i) = (rc, r))"

lemma ring_params_update:
  "i \<noteq> 0 \<or> j = 0 \<Longrightarrow> ring_params lib mode idle_ms (rings[i := x]) j = ring_params lib mode idle_ms rings j"
  by (auto simp: ring_params_def Let_def)

lemma init_ring_created:
  assumes "init_ring lib mode idle_ms i rings = Inr (Inr rings')"
    and "i \<noteq> 0 \<or> \<not> (\<exists>j. 0 < j \<and> ring_created lib mode idle_ms rings j)"
  shows "ring_created lib mode idle_ms rings' i \<and> length rings' = length rings \<and>
    (\<forall>j. ring_created lib mode idle_ms rings j \<longrightarrow> j \<noteq> i \<longrightarrow> ring_created lib mode idle_ms rings' j)"
proof -
  obtain rc r where r: "i < length rings" "\<not> rc < 0" "rings' = rings[i := Some r]"
    "io_uring_queue_init_params lib 256 (ring_params lib mode idle_ms rings i) = (rc, r)"
    using assms(1) by (auto simp: init_ring_def vector_at_def split: if_splits prod.splits)
  have "ring_params lib mode idle_ms rings' i = ring_params lib mode idle_ms rings i"
    unfolding r(3) by (rule ring_params_update) blast
  then have "ring_created lib mode idle_ms rings' i"
    using r by (auto simp: ring_created_def)
  moreover have "ring_created lib mode idle_ms rings' j" if j: "ring_created lib mode idle_ms rings j" "j \<noteq> i" for j
  proof -
    have "i \<noteq> 0 \<or> j = 0" using assms(2) j(1) by (metis gr0I)
    from ring_params_update [OF this, of lib mode idle_ms rings "Some r"] j r(3) show ?thesis by (simp add: ring_created_def)
  qed
  ultimately show ?thesis using r(3) by simp
qed

lemma init_rings_created:
  "init_rings lib mode idle_ms is rings = Inr (Inr rings') \<Longrightarrow> 0 \<notin> set is \<Longrightarrow>
   length rings' = length rings \<and> (\<forall>j. ring_created lib mode idle_ms rings j \<or> j \<in> set is \<longrightarrow>
     ring_created lib mode idle_ms rings' j)"
proof (induction "is" arbitrary: rings)
  case (Cons i "is")
  then obtain rings1 where i: "init_ring lib mode idle_ms i rings = Inr (Inr rings1)"
    "init_rings lib mode idle_ms is rings1 = Inr (Inr rings')"
    by (auto split: sum.splits)
  have "i \<noteq> 0" using Cons.prems(2) by auto
  with init_ring_created [OF i(1)] Cons.IH [OF i(2)] Cons.prems(2) show ?case by auto
qed simp

lemma init_all_rings:
  assumes "init_rings lib mode idle_ms (0 # [1..<n]) (replicate n None) = Inr (Inr rings)"
  shows "length rings = n \<and> 0 < n \<and> (\<forall>i < n. ring_created lib mode idle_ms rings i)"
proof -
  obtain rings0 where r0: "init_ring lib mode idle_ms 0 (replicate n None) = Inr (Inr rings0)"
    and rest: "init_rings lib mode idle_ms [1..<n] rings0 = Inr (Inr rings)"
    using assms by (auto split: sum.splits)
  have n: "0 < n" using r0 by (auto simp: init_ring_def vector_at_def split: if_splits)
  have "length rings0 = n" "ring_created lib mode idle_ms rings0 0"
    using init_ring_created [OF r0] r0
    by (auto simp: init_ring_def vector_at_def ring_created_def ring_params_update split: if_splits prod.splits)
  with init_rings_created [OF rest] n show ?thesis by (auto simp: Suc_le_eq) (metis gr0I)
qed

text \<open>The cores taken in the pinned mode: the workers' and the pollers'.\<close>

definition cores_taken :: "'r budget_lib \<Rightarrow> string \<Rightarrow> u32 \<Rightarrow> 'r option list \<Rightarrow> nat list" where
  "cores_taken lib mode idle_ms rings =
     map (\<lambda>i. the (worker_core mode i)) [0..<length rings] @
     map (\<lambda>i. unat (params_sq_thread_cpu (ring_params lib mode idle_ms rings i))) [0..<length rings]"

lemma pinned_cpu:
  "i < 2 ^ 30 \<Longrightarrow> unat (params_sq_thread_cpu (ring_params lib ''pinned'' idle_ms rings i)) = 2 * i + 1"
  by (simp add: ring_params_def Let_def unat_of_nat take_bit_nat_eq_self del: of_nat_add of_nat_mult of_nat_Suc)

lemma cores_distinct:
  assumes "length rings \<le> 2 ^ 30"
  shows "distinct (cores_taken lib ''pinned'' idle_ms rings)"
proof -
  have "cores_taken lib ''pinned'' idle_ms rings =
      map (\<lambda>i. 2 * i) [0..<length rings] @ map (\<lambda>i. 2 * i + 1) [0..<length rings]"
    using assms by (auto simp: cores_taken_def worker_core_def intro!: map_cong pinned_cpu [simplified])
  then show ?thesis by (auto simp: distinct_map inj_on_def) presburger
qed

section \<open>The workload ends\<close>

text \<open>What worker \<open>fd\<close> and \<open>buf\<close> belong to relies on, for its ring as long as it has no operation in flight
  (\<open>idle\<close>): an entry is vacant; after a write or read of one block of its file has been prepared in it
  and submitted, waiting yields its completion; marking it seen leaves the ring with nothing in flight.
  A steady clock never goes back and passes every point in time.\<close>

definition workload_documented :: "'r budget_lib \<Rightarrow> i32 \<Rightarrow> addr \<Rightarrow> ('r \<Rightarrow> bool) \<Rightarrow> bool" where
  "workload_documented lib fd buf idle \<longleftrightarrow> (\<forall>r. idle r \<longrightarrow> (\<exists>pos r1. io_uring_get_sqe lib r = (Some pos, r1) \<and>
     (\<forall>block < budget_kFileBlocks. \<forall>e \<in>
        {io_uring_prep_write lib (load_sqe lib r1 pos) fd buf budget_kBlockSize (block * ucast budget_kBlockSize),
         io_uring_prep_read lib (load_sqe lib r1 pos) fd buf budget_kBlockSize (block * ucast budget_kBlockSize)}.
        \<exists>ret c r3. io_uring_wait_cqe lib (snd (io_uring_submit lib (store_sqe lib r1 pos e))) = Some (ret, Some c, r3) \<and>
          idle (io_uring_cqe_seen lib r3 (Some c)))))"

definition steady :: "(nat \<Rightarrow> real) \<Rightarrow> bool" where
  "steady clock \<longleftrightarrow> (\<forall>k. clock k \<le> clock (Suc k)) \<and> (\<forall>t. \<exists>k. t \<le> clock k)"

lemma steady_mono: "steady clock \<Longrightarrow> j \<le> k \<Longrightarrow> clock j \<le> clock k"
  by (auto simp: steady_def intro: lift_Suc_mono_le)

text \<open>Nothing in flight, one latency per operation, none negative.\<close>

definition work_inv :: "('r \<Rightarrow> bool) \<Rightarrow> ('r, 'g) work \<Rightarrow> bool" where
  "work_inv idle s \<longleftrightarrow> idle (w_ring s) \<and> w_ops s = of_nat (length (w_latencies s)) \<and>
     (\<forall>l \<in> set (w_latencies s). 0 \<le> l)"

lemma work_inv_tick [simp]: "work_inv idle (s\<lparr>w_tick := t\<rparr>) = work_inv idle s"
  by (simp add: work_inv_def)

lemma draw_block:
  assumes "draw_documented draw"
  shows "fst (draw 0 (budget_kFileBlocks - 1) g) < budget_kFileBlocks"
proof -
  have "fst (draw 0 (budget_kFileBlocks - 1) g) \<le> budget_kFileBlocks - 1"
    using assms by (simp add: draw_documented_def)
  then show ?thesis by (simp add: budget_kFileBlocks_def word_le_nat_alt word_less_nat_alt)
qed

lemma workload_op_inv:
  assumes "workload_documented (bu_lib env) fd (bu_buf env thread) idle" and "draw_documented (bu_draw env)"
    and "steady (bu_clock env thread)" and "work_inv idle s"
  shows "\<exists>s'. workload_op env thread fd s = Some (Inr s') \<and> work_inv idle s' \<and> w_tick s' = w_tick s + 2 \<and>
    length (w_latencies s') = Suc (length (w_latencies s))"
proof -
  let ?lib = "bu_lib env"
  obtain v rng' where draw: "bu_draw env 0 (budget_kFileBlocks - 1) (w_rng s) = (v, rng')" by fastforce
  have v: "v < budget_kFileBlocks" using draw_block [OF assms(2), of "w_rng s"] draw by simp
  obtain pos r1 where get: "io_uring_get_sqe ?lib (w_ring s) = (Some pos, r1)"
    and wait: "\<And>e. e \<in> {io_uring_prep_write ?lib (load_sqe ?lib r1 pos) fd (bu_buf env thread) budget_kBlockSize (v * ucast budget_kBlockSize),
        io_uring_prep_read ?lib (load_sqe ?lib r1 pos) fd (bu_buf env thread) budget_kBlockSize (v * ucast budget_kBlockSize)} \<Longrightarrow>
      \<exists>ret c r3. io_uring_wait_cqe ?lib (snd (io_uring_submit ?lib (store_sqe ?lib r1 pos e))) = Some (ret, Some c, r3) \<and>
        idle (io_uring_cqe_seen ?lib r3 (Some c))"
    using assms(1,4) v unfolding workload_documented_def work_inv_def by metis
  define entry where "entry = (if w_ops s mod 2 = 0
    then io_uring_prep_write ?lib (load_sqe ?lib r1 pos) fd (bu_buf env thread) budget_kBlockSize (v * ucast budget_kBlockSize)
    else io_uring_prep_read ?lib (load_sqe ?lib r1 pos) fd (bu_buf env thread) budget_kBlockSize (v * ucast budget_kBlockSize))"
  have entry: "entry \<in> {io_uring_prep_write ?lib (load_sqe ?lib r1 pos) fd (bu_buf env thread) budget_kBlockSize (v * ucast budget_kBlockSize),
      io_uring_prep_read ?lib (load_sqe ?lib r1 pos) fd (bu_buf env thread) budget_kBlockSize (v * ucast budget_kBlockSize)}"
    by (simp add: entry_def)
  obtain ret c r3 where w: "io_uring_wait_cqe ?lib (snd (io_uring_submit ?lib (store_sqe ?lib r1 pos entry)))
      = Some (ret, Some c, r3)" "idle (io_uring_cqe_seen ?lib r3 (Some c))"
    using wait [OF entry] by blast
  have "bu_clock env thread (w_tick s) \<le> bu_clock env thread (Suc (w_tick s))"
    using assms(3) by (simp add: steady_def)
  with w assms(4) show ?thesis
    by (auto simp: workload_op_def work_inv_def entry_def Let_def draw get)
qed

lemma workload_loop_returns:
  assumes doc: "workload_documented (bu_lib env) fd (bu_buf env thread) idle" "draw_documented (bu_draw env)"
    and st: "steady (bu_clock env thread)" and past: "deadline \<le> bu_clock env thread k"
  shows "work_inv idle s \<Longrightarrow> \<exists>s'. workload_loop env thread fd deadline s = Some (Inr s') \<and> work_inv idle s'"
proof (induction "k - w_tick s" arbitrary: s rule: less_induct)
  case less
  show ?case
  proof (cases "bu_clock env thread (w_tick s) < deadline")
    case False
    with less.prems show ?thesis by (subst workload_loop.simps) simp
  next
    case True
    have "w_tick s < k"
    proof (rule ccontr)
      assume "\<not> w_tick s < k"
      with steady_mono [OF st, of k "w_tick s"] past True show False by simp
    qed
    moreover obtain s' where s': "workload_op env thread fd (s\<lparr>w_tick := Suc (w_tick s)\<rparr>) = Some (Inr s')" "work_inv idle s'"
      "w_tick s' = Suc (w_tick s) + 2"
      using workload_op_inv [OF doc st, of "s\<lparr>w_tick := Suc (w_tick s)\<rparr>"] less.prems by auto
    ultimately have "k - w_tick s' < k - w_tick s" by simp
    from less.hyps [OF this s'(2)] obtain s'' where "workload_loop env thread fd deadline s' = Some (Inr s'')" "work_inv idle s''"
      by blast
    with True s' show ?thesis by (subst workload_loop.simps) simp
  qed
qed

lemma percentile_in_range: "xs \<noteq> [] \<Longrightarrow> length xs * 50 div 100 \<le> length xs * 99 div 100 \<and> length xs * 99 div 100 < length xs"
  by (cases xs) (simp_all add: div_less_iff_less_mult div_le_mono)

lemma workload_result_ordered:
  assumes "\<forall>l \<in> set lat. 0 \<le> l"
  shows "\<exists>res. workload_result f lat ops wall = Inr res \<and> 0 \<le> tr_p50_us res \<and> tr_p50_us res \<le> tr_p99_us res"
proof (cases "lat = []")
  case False
  let ?i = "length lat * 50 div 100" and ?j = "length lat * 99 div 100"
  have ij: "?i \<le> ?j" "?j < length lat" using percentile_in_range [OF False] by simp_all
  then have "sort lat ! ?i \<in> set (sort lat)" by (intro nth_mem) simp
  then have "0 \<le> sort lat ! ?i" using assms by simp
  moreover have "sort lat ! ?i \<le> sort lat ! ?j" using ij by (intro sorted_nth_mono) simp_all
  ultimately show ?thesis using False ij by (simp add: workload_result_def vector_at_def Let_def)
qed (simp add: workload_result_def Let_def)

lemma RunWorkload_returns:
  assumes "workload_documented (bu_lib env) fd (bu_buf env thread) idle" and "draw_documented (bu_draw env)"
    and "steady (bu_clock env thread)" and "idle r"
  shows "\<exists>res r'. RunWorkload env thread r fd = Some (Inr (res, r')) \<and> idle r' \<and>
    0 \<le> tr_p50_us res \<and> tr_p50_us res \<le> tr_p99_us res"
proof -
  let ?deadline = "bu_clock env thread 0 + 1000000 * real_of_int kRunDuration_s"
  let ?s = "\<lparr>w_ring = r, w_rng = bu_seed env thread, w_tick = 2, w_latencies = [], w_ops = 0\<rparr>"
  obtain k where k: "?deadline \<le> bu_clock env thread k" using assms(3) unfolding steady_def by blast
  have "work_inv idle ?s" using assms(4) by (simp add: work_inv_def)
  then obtain s' where s': "workload_loop env thread fd ?deadline ?s = Some (Inr s')" "work_inv idle s'"
    using workload_loop_returns [OF assms(1-3) k] by blast
  obtain res where "workload_result (bu_fp env) (w_latencies s') (w_ops s')
      ((bu_clock env thread (w_tick s') - bu_clock env thread 1) / 1000000) = Inr res"
    "0 \<le> tr_p50_us res" "tr_p50_us res \<le> tr_p99_us res"
    using workload_result_ordered s'(2) by (metis work_inv_def)
  with s' show ?thesis by (simp add: RunWorkload_def work_inv_def)
qed

section \<open>Where the program is undefined\<close>

lemma workload_op_fault: "workload_op env thread fd s = Some (Inl fault) \<Longrightarrow> fault = Fault_null_sqe"
  by (auto simp: workload_op_def Let_def split: prod.splits option.splits)

lemma workload_loop_fault:
  assumes "workload_loop env thread fd deadline s = Some res"
  shows "\<forall>fault. res = Inl fault \<longrightarrow> fault = Fault_null_sqe"
  by (rule workload_loop.raw_induct [where
      P = "\<lambda>env thread fd deadline s res. \<forall>fault. res = Inl fault \<longrightarrow> fault = Fault_null_sqe", OF _ assms])
    (auto split: if_splits option.splits sum.splits dest: workload_op_fault)

lemma RunWorkload_fault: "RunWorkload env thread r fd = Some (Inl fault) \<Longrightarrow> fault = Fault_null_sqe"
proof -
  have "workload_result f lat ops wall \<noteq> Inl fault" for f lat ops wall
    using percentile_in_range [of lat] by (auto simp: workload_result_def vector_at_def Let_def)
  then show "RunWorkload env thread r fd = Some (Inl fault) \<Longrightarrow> fault = Fault_null_sqe"
    by (auto simp: RunWorkload_def Let_def split: option.splits sum.splits dest: workload_loop_fault)
qed

lemma run_worker_fault:
  "i < length rings \<Longrightarrow> i < length fds \<Longrightarrow> run_worker env rings fds i = Some (Inl fault) \<Longrightarrow>
   fault = Fault_null_sqe \<or> fault = Fault_unset_ring"
  by (auto simp: run_worker_def vector_at_def split: option.splits dest: RunWorkload_fault)

lemma join_workers_fault:
  assumes "join_workers ends = Some (Inl fault)"
  shows "Some (Inl fault) \<in> set ends"
proof -
  obtain rest where "List.map_filter worker_fault ends = fault # rest"
    using assms by (cases "List.map_filter worker_fault ends") (auto simp: join_workers_def Let_def split: if_splits)
  then have "fault \<in> set (List.map_filter worker_fault ends)" by simp
  then obtain x where "x \<in> set ends" "worker_fault x = Some fault" by (auto simp: List.map_filter_def)
  then show ?thesis by (cases x rule: worker_fault.cases) auto
qed

lemma join_workers_all: "join_workers (map (\<lambda>i. Some (Inr (f i))) is) = Some (Inr (map f is))"
  by (simp add: join_workers_def List.map_filter_def comp_def)

lemma run_workers_fault:
  assumes "n \<le> length rings" and "n \<le> length fds" and "run_workers env rings fds n = Some (Inl fault)"
  shows "fault = Fault_null_sqe \<or> fault = Fault_unset_ring"
proof -
  obtain i where "i < n" "run_worker env rings fds i = Some (Inl fault)"
    using join_workers_fault [OF assms(3) [unfolded run_workers_def]] by auto
  with run_worker_fault [of i rings fds env fault] assms(1,2) show ?thesis by simp
qed

lemma init_rings_no_fault:
  "\<forall>i \<in> set is. i < length rings \<Longrightarrow> init_rings lib mode idle_ms is rings \<noteq> Inl fault"
  by (induction "is" arbitrary: rings) (auto simp: init_ring_def vector_at_def split: sum.splits prod.splits if_splits)

lemma make_files_length: "make_files files is = (Some fds, calls) \<Longrightarrow> length fds = length is"
  by (induction "is" arbitrary: fds calls) (auto split: prod.splits option.splits)

section \<open>The whole program\<close>

lemma make_files_granted:
  "\<forall>i \<in> set is. 0 \<le> fe_mkstemp (files i) \<and> fe_ftruncate (files i) = 0 \<Longrightarrow>
    \<exists>calls. make_files files is = (Some (map (\<lambda>i. fe_mkstemp (files i)) is), calls) \<and>
    (\<forall>fds. mset (fds_after calls fds) = mset fds + mset (map (\<lambda>i. fe_mkstemp (files i)) is)) \<and>
    path_after calls False = False"
proof (induction "is")
  case (Cons i "is")
  have "\<not> fe_mkstemp (files i) < 0" "fe_ftruncate (files i) = 0" using Cons.prems by simp_all
  with Cons show ?case by (auto simp: budget_MakeScratchFile_def Let_def)
qed simp

lemma mset_fds_after_close: "mset (fds_after (map Fc_close xs) fds) = mset fds - mset xs"
  by (induction xs arbitrary: fds) simp_all

lemma path_after_close: "path_after (map (Fc_close \<circ> f) xs) b = b"
  by (induction xs) simp_all

lemma init_rings_granted:
  "\<forall>i \<in> set is. 0 < i \<and> i < length rings \<and> 0 \<le> fst (io_uring_queue_init_params lib 256 (ring_params lib mode idle_ms [rings ! 0] i)) \<Longrightarrow>
   \<exists>rings'. init_rings lib mode idle_ms is rings = Inr (Inr rings')"
proof (induction "is" arbitrary: rings)
  case (Cons i "is")
  obtain rc r where r: "io_uring_queue_init_params lib 256 (ring_params lib mode idle_ms rings i) = (rc, r)" by fastforce
  have "ring_params lib mode idle_ms [rings ! 0] i = ring_params lib mode idle_ms rings i" by (simp add: ring_params_def Let_def)
  then have "0 \<le> rc" "0 < i" "i < length rings" using Cons.prems r by simp_all
  with r Cons.IH [of "rings[i := Some r]"] Cons.prems show ?case by (simp add: init_ring_def vector_at_def)
qed simp

text \<open>The calls that set up the rings of \<open>n\<close> threads succeed, ring 0 before the others, and each ring is idle.\<close>

definition rings_granted :: "'r budget_lib \<Rightarrow> string \<Rightarrow> u32 \<Rightarrow> nat \<Rightarrow> (nat \<Rightarrow> 'r \<Rightarrow> bool) \<Rightarrow> bool" where
  "rings_granted lib mode idle_ms n idle \<longleftrightarrow> (\<exists>rc0 r0.
     io_uring_queue_init_params lib 256 (ring_params lib mode idle_ms [None] 0) = (rc0, r0) \<and> 0 \<le> rc0 \<and> idle 0 r0 \<and>
     (\<forall>i. 0 < i \<longrightarrow> i < n \<longrightarrow> (\<exists>rc r.
        io_uring_queue_init_params lib 256 (ring_params lib mode idle_ms [Some r0] i) = (rc, r) \<and> 0 \<le> rc \<and> idle i r)))"

lemma rings_granted_init:
  assumes "rings_granted lib mode idle_ms n idle" and "0 < n"
  shows "\<exists>rings. init_rings lib mode idle_ms (0 # [1..<n]) (replicate n None) = Inr (Inr rings) \<and>
    (\<forall>i < n. \<exists>r. rings ! i = Some r \<and> idle i r)"
proof -
  obtain rc0 r0 where r0: "io_uring_queue_init_params lib 256 (ring_params lib mode idle_ms [None] 0) = (rc0, r0)"
    "0 \<le> rc0" "idle 0 r0"
    and rest: "\<And>i. 0 < i \<Longrightarrow> i < n \<Longrightarrow> \<exists>rc r.
        io_uring_queue_init_params lib 256 (ring_params lib mode idle_ms [Some r0] i) = (rc, r) \<and> 0 \<le> rc \<and> idle i r"
    using assms(1) unfolding rings_granted_def by blast
  have p0: "ring_params lib mode idle_ms rings 0 = ring_params lib mode idle_ms [None] 0" for rings
    by (simp add: ring_params_def Let_def)
  have pi: "ring_params lib mode idle_ms rings i = ring_params lib mode idle_ms [Some r0] i" if "rings ! 0 = Some r0" for rings i
    using that by (simp add: ring_params_def Let_def)
  have init0: "init_ring lib mode idle_ms 0 (replicate n None) = Inr (Inr ((replicate n None)[0 := Some r0]))"
    using r0 assms(2) unfolding init_ring_def by (simp add: vector_at_def p0 [of "replicate n None"])
  let ?rings0 = "(replicate n None)[0 := Some r0]"
  have r00: "?rings0 ! 0 = Some r0" "length ?rings0 = n" using assms(2) by simp_all
  have "0 < i \<and> i < n \<and> 0 \<le> fst (io_uring_queue_init_params lib 256 (ring_params lib mode idle_ms [Some r0] i))"
    if "i \<in> set [1..<n]" for i
  proof -
    have "0 < i" "i < n" using that by simp_all
    with rest [OF this] show ?thesis by auto
  qed
  then have "\<exists>rings. init_rings lib mode idle_ms [1..<n] ?rings0 = Inr (Inr rings)"
    by (intro init_rings_granted) (simp only: r00, blast)
  then obtain rings where rings: "init_rings lib mode idle_ms (0 # [1..<n]) (replicate n None) = Inr (Inr rings)"
    using init0 by auto
  note c = init_all_rings [OF rings]
  have c0: "rings ! 0 = Some r0" using c r0(1) p0 [of rings] by (auto simp: ring_created_def)
  have "\<exists>r. rings ! i = Some r \<and> idle i r" if i: "i < n" for i
  proof (cases "i = 0")
    case False
    obtain r rc where r: "rings ! i = Some r" "io_uring_queue_init_params lib 256 (ring_params lib mode idle_ms rings i) = (rc, r)"
      using c i unfolding ring_created_def by blast
    moreover obtain rc' r' where "io_uring_queue_init_params lib 256 (ring_params lib mode idle_ms rings i) = (rc', r')" "idle i r'"
      using rest [of i] False i unfolding pi [OF c0] by blast
    ultimately show ?thesis by simp
  qed (use c0 r0(3) in simp)
  with rings show ?thesis by blast
qed

lemma run_workers_return:
  assumes "\<And>i. i < n \<Longrightarrow> \<exists>res. run_worker env rings fds i = Some (Inr res)"
  shows "\<exists>results. run_workers env rings fds n = Some (Inr results) \<and> length results = n"
proof -
  obtain f where f: "\<And>i. i < n \<Longrightarrow> run_worker env rings fds i = Some (Inr (f i))" using assms by metis
  then have "map (run_worker env rings fds) [0..<n] = map (\<lambda>i. Some (Inr (f i))) [0..<n]" by simp
  then show ?thesis unfolding run_workers_def by (simp only: join_workers_all) simp
qed

text \<open>What a run with \<open>n\<close> threads asks for is granted: a scratch file and a clock for every thread, the rings, and
  the operations each worker submits on its own file and buffer.\<close>

definition budget_granted :: "('r, 'g) budget_env \<Rightarrow> string \<Rightarrow> u32 \<Rightarrow> nat \<Rightarrow> (nat \<Rightarrow> 'r \<Rightarrow> bool) \<Rightarrow> bool" where
  "budget_granted env mode idle_ms n idle \<longleftrightarrow>
     (\<forall>i < n. 0 \<le> fe_mkstemp (bu_file env i) \<and> fe_ftruncate (bu_file env i) = 0 \<and> steady (bu_clock env i) \<and>
        workload_documented (bu_lib env) (word_of_int (fe_mkstemp (bu_file env i))) (bu_buf env i) (idle i)) \<and>
     draw_documented (bu_draw env) \<and> rings_granted (bu_lib env) mode idle_ms n idle"

definition demo_blib :: "ref_ring budget_lib" where
  "demo_blib = liburing.extend (ref_lib 8) (budget_lib.fields 4
     (\<lambda>e fd buf n off. ref_prep 23 e fd buf n off 0) (\<lambda>e fd buf n off. ref_prep 22 e fd buf n off 0)
     (\<lambda>r. Some (0, Some \<lparr>cqe_user_data = 0, cqe_res = 4096\<rparr>, r\<lparr>ref_done := ref_sub r\<rparr>))
     (\<lambda>r c. case c of None \<Rightarrow> r | Some _ \<Rightarrow> r\<lparr>ref_seen := Suc (ref_seen r)\<rparr>))"

definition demo_benv :: "(ref_ring, unit) budget_env" where
  "demo_benv = \<lparr>bu_lib = demo_blib, bu_clock = (\<lambda>_ k. 1000000 * real k), bu_draw = (\<lambda>a b g. (a, g)),
     bu_seed = (\<lambda>_. ()), bu_buf = (\<lambda>_. 4096), bu_file = (\<lambda>i. \<lparr>fe_mkstemp = 3 + int i, fe_open = 0, fe_ftruncate = 0\<rparr>),
     bu_fp = \<lparr>fp_of_nat = real, fp_mul = (*), fp_div = (/)\<rparr>, bu_add = (+), bu_setaffinity = (\<lambda>_ _. 0)\<rparr>"

lemma steady_linear: "steady (\<lambda>k. 1000000 * real k)"
proof -
  have "\<exists>k. t \<le> 1000000 * real k" for t :: real
    using real_arch_simple [of "t / 1000000"] by (auto simp: field_simps)
  then show ?thesis by (simp add: steady_def)
qed

lemma demo_rings_granted: "rings_granted demo_blib mode idle_ms n (\<lambda>_ r. ref_seen r = length (ref_entries r))"
  by (simp add: rings_granted_def demo_blib_def liburing.defs budget_lib.defs ref_lib_def ref_new_def)

lemma demo_granted: "budget_granted demo_benv mode idle_ms n (\<lambda>_ r. ref_seen r = length (ref_entries r))"
  using demo_rings_granted
  by (simp add: budget_granted_def demo_benv_def steady_linear draw_documented_def workload_documented_def demo_blib_def
      liburing.defs budget_lib.defs ref_lib_def ref_new_def ref_get_sqe_def ref_room_def)

section \<open>Properties\<close>

text \<open>(C36) Placement of rings and threads. When the set-up succeeds, every ring was created with the
  parameters its index and the mode call for; in the attach mode every ring but the first names the
  descriptor of the first as its poller's, because ring 0 is created before all others; in the pinned
  mode no core is given to two threads, whether workers or pollers.\<close>

theorem budget_rings_placed:
  assumes "init_rings lib mode idle_ms (0 # [1..<n]) (replicate n None) = Inr (Inr rings)" and "n \<le> 2 ^ 30"
  shows "length rings = n \<and> (\<forall>i < n. ring_created lib mode idle_ms rings i) \<and>
    (mode = ''attach'' \<longrightarrow> (\<exists>r0. rings ! 0 = Some r0 \<and> (\<forall>i > 0.
      ring_params lib mode idle_ms rings i =
        \<lparr>params_flags = IORING_SETUP_SQPOLL lib OR IORING_SETUP_ATTACH_WQ lib, params_sq_thread_idle = idle_ms,
         params_sq_thread_cpu = 0, params_wq_fd = ring_fd lib r0\<rparr>))) \<and>
    (mode = ''pinned'' \<longrightarrow> distinct (cores_taken lib mode idle_ms rings))"
proof -
  note c = init_all_rings [OF assms(1)]
  then obtain r0 where "rings ! 0 = Some r0" by (auto simp: ring_created_def)
  with c cores_distinct [of rings lib idle_ms] assms(2) show ?thesis
    by (auto simp: ring_params_def)
qed

theorem budget_rings_placed_witness:
  "\<exists>rings. init_rings demo_blib ''pinned'' 1000 [0, 1] [None, None] = Inr (Inr rings) \<and>
     distinct (cores_taken demo_blib ''pinned'' 1000 rings)"
proof -
  obtain rings where r: "init_rings demo_blib ''pinned'' 1000 (0 # [1..<2]) (replicate 2 None) = Inr (Inr rings)"
    using rings_granted_init [OF demo_rings_granted, of 2 "''pinned''" 1000] by auto
  from budget_rings_placed [OF r] have "distinct (cores_taken demo_blib ''pinned'' 1000 rings)" by simp
  moreover have "0 # [1..<2] = [0, 1 :: nat]" "replicate 2 None = [None, None :: ref_ring option]"
    by (simp_all add: upt_rec numeral_2_eq_2)
  ultimately show ?thesis using r by metis
qed

text \<open>(C37) The program ends. With at least one thread, when the files and rings it asks for are granted, the
  reads and writes its workers submit complete and the clocks advance, all workers leave their timed loops and
  \<open>main\<close> returns normally: one ring per thread was shut down, no descriptor is open, no path is left,
  and in the pinned mode worker \<open>i\<close> was asked to run on core \<open>2 i\<close> alone.\<close>

theorem budget_main_completes:
  assumes "budget_granted env (argv ! 1) (if length argv > 3 then word_of_int (atoi (argv ! 3)) else 1000)
      (nat (atoi (argv ! 2))) idle"
    and "3 \<le> length argv" and "0 < atoi (argv ! 2)"
  shows "\<exists>run calls. budget_main env argv = Some (Budget_done run, calls) \<and>
    length (br_exited run) = nat (atoi (argv ! 2)) \<and> fds_after calls [] = [] \<and> \<not> path_after calls False \<and>
    map (map_option fst) (br_pins run) =
      map (\<lambda>i. if argv ! 1 = ''pinned'' then Some {2 * i} else None) [0..<nat (atoi (argv ! 2))]"
proof -
  let ?n = "nat (atoi (argv ! 2))" and ?fd = "\<lambda>i. fe_mkstemp (bu_file env i)"
  let ?idle_ms = "if length argv > 3 then word_of_int (atoi (argv ! 3)) else 1000 :: u32"
  note g = assms(1) [unfolded budget_granted_def]
  obtain calls where calls: "make_files (bu_file env) [0..<?n] = (Some (map ?fd [0..<?n]), calls)"
    "\<And>fds. mset (fds_after calls fds) = mset fds + mset (map ?fd [0..<?n])" "path_after calls False = False"
    using make_files_granted [of "[0..<?n]" "bu_file env"] g by auto
  obtain rings where rings: "init_rings (bu_lib env) (argv ! 1) ?idle_ms (0 # [1..<?n]) (replicate ?n None) = Inr (Inr rings)"
    and ready: "\<And>i. i < ?n \<Longrightarrow> \<exists>r. rings ! i = Some r \<and> idle i r"
    using rings_granted_init [of "bu_lib env" "argv ! 1" ?idle_ms ?n idle] g assms(3) by auto
  have len: "length rings = ?n" using init_all_rings [OF rings] by simp
  have "\<exists>res. run_worker env rings (map ?fd [0..<?n]) i = Some (Inr res)" if i: "i < ?n" for i
  proof -
    obtain r where r: "rings ! i = Some r" "idle i r" using ready [OF i] by blast
    from g i have "workload_documented (bu_lib env) (word_of_int (?fd i)) (bu_buf env i) (idle i)"
      "draw_documented (bu_draw env)" "steady (bu_clock env i)" by blast+
    from RunWorkload_returns [OF this r(2)] r(1) i len show ?thesis by (auto simp: run_worker_def vector_at_def)
  qed
  then obtain results where results: "run_workers env rings (map ?fd [0..<?n]) ?n = Some (Inr results)" "length results = ?n"
    using run_workers_return by blast
  have "mset (fds_after (calls @ map Fc_close (map ?fd [0..<?n])) []) = {#}"
    unfolding fds_after_append mset_fds_after_close calls(2) by simp
  then show ?thesis
    using calls(1,3) rings results assms(2,3)
    by (simp add: budget_main_def budget_report_def path_after_append path_after_close pin_workers_def
        worker_core_def PinToCore_def Let_def)
qed

theorem budget_main_completes_witness:
  "\<exists>run calls. budget_main demo_benv [''sqpoll_core_budget'', ''pinned'', ''2''] = Some (Budget_done run, calls) \<and>
     length (br_exited run) = 2 \<and> map (map_option fst) (br_pins run) = [Some {0}, Some {2}] \<and> fds_after calls [] = []"
proof -
  have "atoi ''2'' = 2"
    by (simp add: atoi_def strtol10_def digits_value_def is_digit_def is_space_def digit_value_def)
  with budget_main_completes [of demo_benv "[''sqpoll_core_budget'', ''pinned'', ''2'']", OF demo_granted]
  show ?thesis by (auto simp: upt_rec)
qed

text \<open>(C38) The program indexes outside one of its vectors exactly when it is started with a thread count of 0,
  which \<open>atoi\<close> also yields for an argument that is no number: ring 0 is set up before the count is looked
  at, at index 0 of an empty vector. With any other arguments every index into the rings, the files and the
  latencies is inside its vector, whatever liburing, the files and the clocks do. (Fewer than two arguments
  end it with exit code 2, a negative count with an exception.)\<close>

theorem budget_zero_threads_undefined:
  "budget_main env argv = Some (Budget_undefined (Fault_index i sz), calls) \<longleftrightarrow>
   3 \<le> length argv \<and> atoi (argv ! 2) = 0 \<and> i = 0 \<and> sz = 0 \<and> calls = []"
proof (cases "3 \<le> length argv \<and> 0 < atoi (argv ! 2)")
  case False
  then consider "length argv < 3" | "3 \<le> length argv" "atoi (argv ! 2) < 0" | "3 \<le> length argv" "atoi (argv ! 2) = 0" by linarith
  then show ?thesis by cases (auto simp: budget_main_def init_ring_def vector_at_def Let_def)
next
  case True
  define n ms where "n = nat (atoi (argv ! 2))" and "ms = (if length argv > 3 then word_of_int (atoi (argv ! 3)) else 1000 :: u32)"
  have init: "init_rings (bu_lib env) (argv ! 1) ms (0 # [1..<n]) (replicate n None) \<noteq> Inl fault" for fault
    using True by (intro init_rings_no_fault) (auto simp: n_def)
  have run: "fault \<noteq> Fault_index i sz"
    if "make_files (bu_file env) [0..<n] = (Some fds, cs)"
      "init_rings (bu_lib env) (argv ! 1) ms (0 # [1..<n]) (replicate n None) = Inr (Inr rings)"
      "run_workers env rings fds n = Some (Inl fault)" for fds cs rings fault
    using run_workers_fault [of n rings fds env fault] make_files_length [OF that(1)] init_all_rings [OF that(2)] that(3) by auto
  have "budget_main env argv \<noteq> Some (Budget_undefined (Fault_index i sz), calls)"
    using True init run unfolding budget_main_def Let_def ms_def [symmetric] n_def [symmetric]
    by (auto simp del: init_rings.simps split: prod.splits option.splits sum.splits)
  with True show ?thesis by simp
qed

theorem budget_zero_threads_undefined_witness:
  "budget_main demo_benv [''sqpoll_core_budget'', ''attach'', ''four''] = Some (Budget_undefined (Fault_index 0 0), [])"
proof -
  have "atoi ''four'' = 0"
    by (simp add: atoi_def strtol10_def digits_value_def is_digit_def is_space_def)
  with budget_zero_threads_undefined [of demo_benv "[''sqpoll_core_budget'', ''attach'', ''four'']" 0 0 "[]"]
  show ?thesis by simp
qed

end
