(* ===== verification/Spec2Isabelle.thy ===== *)
theory Spec2Isabelle
  imports Ring_Equivalence Contended_Bench Engine_Threads Shared_Poller Baseline_Bench Micro_Bench Core_Budget
begin

text \<open>
  Verification of \<open>ringio\<close>, a header-only asynchronous storage engine over \<open>io_uring\<close>.

  \<^bold>\<open>The program.\<close> Worker threads take a buffer index from a \<open>BufferPool\<close>, describe a transfer in an
  \<open>IoRequest\<close> and push it into a lock-free ring (\<open>SpscRing\<close> or \<open>MpmcRing\<close>). The engine,
  \<open>SqpollEngine\<close>, pops requests, translates each into a fixed-file, fixed-buffer submission entry and
  submits the batch to a ring polled by the kernel; it walks the completion ring and pushes one
  \<open>IoCompletion\<close> per entry, with the request's token, into a ring the workers read. The cursors of
  rings and pool are kept on cache-line pairs of their own by \<open>CacheLinePadded\<close>. Benchmarks and one
  experiment drive the library.

  \<^bold>\<open>Theories and sources\<close> (below include/ringio unless said otherwise).
  \<^item> \<open>Ringio_Prelude\<close>: word widths, the capacity assertion and the index mask of both rings, facts on
    masks and cursors that wrap, the model of spurious exchange failures, reachability, and the
    locales \<open>inductive_invariant\<close> and \<open>forward_simulation\<close> for step relations.
  \<^item> \<open>Bounded_Queue\<close>: the contract of the engine's queue template parameters as locales
    \<open>queue_source\<close>, \<open>queue_sink\<close>, \<open>bounded_queue\<close>; the list every such queue agrees with call by call
    (\<open>list_run\<close>); the atomic bounded queue (\<open>fifo_step\<close>) the threads refine.
  \<^item> \<open>Spsc_Ring\<close>: detail/spsc_ring.hpp. The operations on 64-bit cursors that wrap, the interpretation
    \<open>spsc\<close> of \<open>bounded_queue\<close>, and the step relation \<open>spsc_step\<close> of one producer and one consumer, one
    step per memory access, in which an acquire load may return any value not older than the last
    one seen.
  \<^item> \<open>Mpmc_Ring\<close>: detail/mpmc_ring.hpp from one thread, with its retry loops as partial functions
    (\<open>None\<close> is a call that does not return or is undefined), and the interpretation \<open>mpmc\<close>.
    \<open>Mpmc_Threads\<close>: any number of threads, one step per access, with stale loads and failing
    exchanges. \<open>Ring_Equivalence\<close>: both rings against \<open>list_run\<close>.
  \<^item> \<open>Cache_Line\<close>: detail/cache_line.hpp, and the layout of the classes that use it.
  \<^item> \<open>Io_Types\<close>: io_request.hpp and io_completion.hpp.
  \<^item> \<open>Index_Pool\<close>: the contract of an index pool as a locale. \<open>Buffer_Pool\<close>: detail/buffer_pool.hpp,
    with every path of the constructor and the calls to the operating system it makes, and the tagged
    free list from one thread. \<open>Pool_Threads\<close>: the free list under any number of threads, with tags
    at their 32 bits and stale reads of the links. \<open>Progress\<close>: the retry loops of \<open>MpmcRing\<close> and
    \<open>BufferPool\<close> when a thread runs alone, with the other threads stopped anywhere inside their calls.
  \<^item> \<open>Sqpoll_Engine\<close>: sqpoll_engine.hpp. Every member function, over liburing as a record of
    functions; the lemmas are proved once in the locales \<open>request_queue\<close> and \<open>completion_queue\<close> and
    used for both rings. \<open>Sqe_Typing\<close>: the entries against the registered buffers. \<open>Kernel_Contract\<close>:
    what the kernel may do to a ring, in terms of the tokens in it, and what draining and harvesting
    do to these tokens.
  \<^item> \<open>Engine_System\<close>: the library in use. Workers, the engine thread and the kernel as one step relation
    \<open>sys_step\<close> over pool, request queue, engine and completion queue, proved once in the locale
    \<open>engine_queues\<close> and interpreted for both rings; each call of a library function is one step.
    \<open>Engine_Threads\<close>: the same with the engine thread split at its shared accesses (\<open>engine_step\<close>), so that
    workers and kernel act inside \<open>drain_and_submit\<close> and \<open>harvest_completions\<close>; the functions themselves are
    shown to be runs of these steps. Ring and pool calls are one step in both; that they take effect at
    one point is what their thread models show.
  \<^item> \<open>Bench_Support\<close>, \<open>Sqpoll_Pipeline\<close>, \<open>Shared_Poller\<close>, \<open>Baseline_Bench\<close>:
    benchmarks/iops_throughput_benchmark.cpp: the helpers, \<open>BM_SqpollIops\<close>, \<open>BM_SqpollSharedPollerIops\<close>, and
    the baselines on POSIX calls, libaio and \<open>io_uring\<close> without a poller.
  \<^item> \<open>Micro_Bench\<close>: the uncontended bodies of ring_benchmark.cpp, buffer_pool_benchmark.cpp and
    completion_engine_benchmark.cpp. \<open>Contended_Bench\<close>: the contended ones, as step relations over the
    thread models, and cache_line_benchmark.cpp.
  \<^item> \<open>Core_Budget\<close>: experiments/sqpoll_core_budget.cpp, the whole program, with undefined
    behaviour (an index outside a vector, a null entry) as an outcome apart from a run that never ends.

  \<^bold>\<open>What is shown.\<close>
  \<^item> Rings: each call does what a bounded queue does, on every branch and across wrapping cursors;
    the two rings are equivalent from one thread; every interleaving of the thread models refines the
    atomic queue, in the values read and returned as in the order of the calls, loses and duplicates
    nothing, and has no race on a slot; the cursors share no pair of 64-byte lines; \<open>SpscRing\<close> calls are
    wait-free, and \<open>MpmcRing\<close> calls of a thread that runs alone end within six accesses.
  \<^item> Pool: construction establishes the free-list invariant and disjoint aligned buffers or gives
    back what it took; calls conserve the indices; every interleaving refines the atomic pool, and
    a thread that runs alone ends its call within four accesses.
  \<^item> Engine: draining translates a prefix of the queue in order, harvesting delivers what fits and
    consumes what it walked, tokens make the round trip, and entries stay inside their buffers.
  \<^item> System: with as many buffers as the queues take, every interleaving of the engine's accesses with the
    calls of the workers and the actions of the kernel refines the ownership of buffers (free, held,
    queued, in flight, completed); each buffer is at one place and none has two transfers, also inside
    the calls of the engine; and these calls end within a number of own steps linear in \<open>max_batch\<close>.
  \<^item> Clients: a burst of \<open>BM_SqpollIops\<close> ends with one request in flight per buffer, and so does the
    shared-poller benchmark in every thread, with every file closed; the contended pool benchmark never
    finds the pool empty and the contended ring benchmark never finds the ring full; the pipelined
    baselines keep their queue depth; the experiment places its rings and threads as its modes say, and
    ends with everything closed.
  \<^item> Error behaviour: capacities 0 and 1 of \<open>MpmcRing\<close>; a full submission queue drops a request; the
    code of a failed submit is not looked at; the size of a pool wraps; a throwing \<open>reserve\<close> leaks the
    block; the 32-bit tag admits a stale exchange after \<open>2 ^ 32\<close> updates; a second benchmark
    iteration doubles the requests in flight; a set-up of the shared-poller benchmark that fails in a
    later thread leaves the files of the earlier ones open; the experiment indexes outside its vectors
    exactly when it is started with 0 threads;
    the libaio baseline does not end when the kernel accepts no request.

  \<^bold>\<open>Parameters.\<close> liburing and the kernel (\<open>liburing_documented\<close>, \<open>cq_documented\<close>, \<open>kernel_documented\<close>,
  \<open>kernel_appends\<close>, \<open>workload_documented\<close>, \<open>plain_documented\<close>), libaio
  (\<open>libaio_documented\<close>), memory and page-locking (\<open>memalign_documented\<close>), files, clocks, random numbers
  and arithmetic on \<open>double\<close> (\<open>fp_documented\<close>) are arguments of the definitions. Every
  hypothesis on them is shown to hold for a concrete instance, \<open>ref_lib\<close> for liburing. That something
  is granted is assumed only of the calls a program makes (\<open>thread_granted\<close>, \<open>rings_granted\<close>,
  \<open>budget_granted\<close>); what a failed submit has handed to the poller is left open.

  \<^bold>\<open>Bounds and fuel.\<close> Sequential theorems on \<open>MpmcRing\<close> and its thread model stay below \<open>2 ^ 63\<close> tickets,
  since the source compares sequence numbers as signed 64-bit values; \<open>SpscRing\<close> has no such bound.
  The thread model of the pool needs that no pending exchange is \<open>2 ^ 32\<close> or more head updates old.
  \<open>free_walk\<close> follows the free list for as many links as the table has entries, which is enough
  because a list without repetition is no longer than the table. No model of a loop uses fuel: retry
  loops and timed loops are \<open>partial_function\<close> or have a termination proof, and the theorems state that
  they return.

  \<^bold>\<open>Memory model.\<close> The thread models interleave atomic accesses and let loads return stale values, which
  covers the acquire and release orderings the source uses on each location; they do not derive these
  from the axioms of the C++ memory model. Races on plain data are excluded as a theorem, so that the
  interleaving of plain accesses with the atomic ones is justified.

  \<^bold>\<open>Not modelled.\<close> The umbrella header ringio.hpp, which only includes the others; the tests; the build
  files, the plots and the documents; what the benchmarks measure, that is time; and \<open>CpuRelax\<close> and the
  yield of a waiting loop, which do not change the state.
\<close>

end
